(* ===== verification/Prelude.thy ===== *)
theory Prelude
  imports "HOL-Library.Word"
begin

text \<open>
  Shared vocabulary of the development: the machine types of the Go sources, Go's fallible
  results (an error value or a run-time panic), byte buffers with big-endian access, and the
  generic lemmas on lists, words and results that the component theories rest on.
\<close>

unbundle bit_operations_syntax

section \<open>Machine types\<close>

text \<open>
  \<open>[]byte\<close> is a list of 8-bit words and \<open>uint32\<close> a 32-bit word, both with wrap-around
  arithmetic. A Go \<open>string\<close> is a sequence of bytes and is modelled by HOL's \<open>string\<close>
  (lists of 8-bit characters). Instants and durations are integers in nanoseconds; the zero
  \<open>time.Time\<close> is \<open>None\<close>.
\<close>

type_synonym byte = "8 word"
type_synonym u32 = "32 word"
type_synonym duration = int
type_synonym time = "int option"

named_theorems wire_simps \<open>reading back a buffer made of known blocks\<close>
named_theorems layout_simps \<open>what the serialisers write, block by block\<close>
named_theorems result_simps \<open>sequencing of fallible computations\<close>

abbreviation second :: duration where
  "second \<equiv> 1000000000"

abbreviation millisecond :: duration where
  "millisecond \<equiv> 1000000"

section \<open>Errors and panics as values\<close>

text \<open>
  A Go function that returns \<open>(T, error)\<close> is a function into \<open>('e, T) go\<close>: \<open>Inr\<close> is the
  value with a nil error, \<open>Inl (Err e)\<close> the returned error, and \<open>Inl Panic\<close> a run-time panic
  (an index or slice bound out of range).
\<close>

datatype 'e fault = Err 'e | Panic

type_synonym ('e, 'a) go = "'e fault + 'a"

fun go_bind :: "('e, 'a) go \<Rightarrow> ('a \<Rightarrow> ('e, 'b) go) \<Rightarrow> ('e, 'b) go" where
  "go_bind (Inl f) k = Inl f"
| "go_bind (Inr x) k = k x"

definition panics :: "('e, 'a) go \<Rightarrow> bool" where
  "panics r \<longleftrightarrow> r = Inl Panic"

lemma go_bind_Inr_iff [result_simps]:
  "go_bind m k = Inr y \<longleftrightarrow> (\<exists>x. m = Inr x \<and> k x = Inr y)"
  by (cases m) auto

lemma go_bind_Inl_iff [result_simps]:
  "go_bind m k = Inl f \<longleftrightarrow> m = Inl f \<or> (\<exists>x. m = Inr x \<and> k x = Inl f)"
  by (cases m) auto

lemma panics_simps [simp]:
  "\<not> panics (Inr x)" "\<not> panics (Inl (Err e))" "panics (Inl Panic)"
  by (simp_all add: panics_def)

section \<open>Byte buffers\<close>

text \<open>
  \<open>make([]byte, n)\<close>, \<open>copy(buf[i:], src)\<close> and \<open>binary.BigEndian.PutUint32(buf[i:i+4], w)\<close>.
  As in Go, \<open>copy\<close> stops at the end of the destination.
\<close>

definition go_make :: "nat \<Rightarrow> byte list" where
  "go_make n = replicate n 0"

definition go_copy :: "nat \<Rightarrow> 'a list \<Rightarrow> 'a list \<Rightarrow> 'a list" where
  "go_copy i src buf =
     take i buf @ take (length buf - i) src @ drop (i + length src) buf"

definition be_bytes :: "u32 \<Rightarrow> byte list" where
  "be_bytes w = [ucast (drop_bit 24 w), ucast (drop_bit 16 w), ucast (drop_bit 8 w), ucast w]"

definition be_word :: "byte \<Rightarrow> byte \<Rightarrow> byte \<Rightarrow> byte \<Rightarrow> u32" where
  "be_word a b c d =
     push_bit 24 (ucast a) OR push_bit 16 (ucast b) OR push_bit 8 (ucast c) OR ucast d"

definition put_u32 :: "nat \<Rightarrow> u32 \<Rightarrow> byte list \<Rightarrow> byte list" where
  "put_u32 i w buf = go_copy i (be_bytes w) buf"

text \<open>
  Reads check their bounds: \<open>data[i:j]\<close>, \<open>data[i:]\<close>, \<open>data[i]\<close> and
  \<open>binary.BigEndian.Uint32(data[i:i+4])\<close> panic outside the slice.
\<close>

definition go_slice :: "'a list \<Rightarrow> nat \<Rightarrow> nat \<Rightarrow> ('e, 'a list) go" where
  "go_slice xs i j =
     (if i \<le> j \<and> j \<le> length xs then Inr (take (j - i) (drop i xs)) else Inl Panic)"

definition go_from :: "'a list \<Rightarrow> nat \<Rightarrow> ('e, 'a list) go" where
  "go_from xs i = (if i \<le> length xs then Inr (drop i xs) else Inl Panic)"

definition go_index :: "'a list \<Rightarrow> nat \<Rightarrow> ('e, 'a) go" where
  "go_index xs i = (if i < length xs then Inr (xs ! i) else Inl Panic)"

definition get_u32 :: "byte list \<Rightarrow> nat \<Rightarrow> ('e, u32) go" where
  "get_u32 xs i =
     (if i + 4 \<le> length xs
      then Inr (be_word (xs ! i) (xs ! (i + 1)) (xs ! (i + 2)) (xs ! (i + 3)))
      else Inl Panic)"

text \<open>\<open>uint32(len(xs))\<close> keeps the low 32 bits of the length.\<close>

definition u32_len :: "'a list \<Rightarrow> u32" where
  "u32_len xs = of_nat (length xs)"

text \<open>The conversions between \<open>string\<close> and \<open>[]byte\<close>.\<close>

definition string_bytes :: "string \<Rightarrow> byte list" where
  "string_bytes s = map (\<lambda>c. of_nat (of_char c)) s"

definition bytes_string :: "byte list \<Rightarrow> string" where
  "bytes_string bs = map (\<lambda>b. char_of (unat b)) bs"

text \<open>\<open>strings.TrimRight(s, cutset)\<close> for a cutset of single-byte characters.\<close>

definition trim_right :: "char list \<Rightarrow> string \<Rightarrow> string" where
  "trim_right cs s = rev (dropWhile (\<lambda>c. c \<in> set cs) (rev s))"

section \<open>Lemmas on buffers\<close>

lemma length_be_bytes [simp]: "length (be_bytes w) = 4"
  by (simp add: be_bytes_def)

lemma length_go_make [simp]: "length (go_make n) = n"
  by (simp add: go_make_def)

lemma length_go_copy [simp]: "length (go_copy i src buf) = length buf"
  by (simp add: go_copy_def)

lemma length_put_u32 [simp]: "length (put_u32 i w buf) = length buf"
  by (simp add: put_u32_def)

lemma length_string_bytes [simp]: "length (string_bytes s) = length s"
  by (simp add: string_bytes_def)

lemma length_bytes_string [simp]: "length (bytes_string bs) = length bs"
  by (simp add: bytes_string_def)

lemma go_copy_skip: "length a \<le> i \<Longrightarrow> go_copy i src (a @ r) = a @ go_copy (i - length a) src r"
  by (simp add: go_copy_def add.commute)

lemma go_copy_hit: "length a = length src \<Longrightarrow> go_copy 0 src (a @ r) = src @ r"
  by (simp add: go_copy_def)

lemma go_copy_all: "length a = length src \<Longrightarrow> go_copy 0 src a = src"
  by (simp add: go_copy_def)

lemma go_make_word: "4 \<le> n \<Longrightarrow> go_make n = be_bytes 0 @ go_make (n - 4)"
proof -
  assume "4 \<le> n"
  then obtain m where "n = 4 + m" by (auto dest: le_Suc_ex)
  then show ?thesis
    by (simp add: go_make_def be_bytes_def replicate_add) (simp add: numeral_eq_Suc)
qed

lemma go_make_0 [simp]: "go_make 0 = []"
  by (simp add: go_make_def)

lemmas buffer_layout = Let_def put_u32_def go_copy_skip go_copy_hit go_copy_all

lemma byte_bit_high: "8 \<le> n \<Longrightarrow> \<not> bit (x :: byte) n"
  using bit_imp_le_length [of x n] by auto

lemma be_bytes_word [simp]: "be_bytes (be_word a b c d) = [a, b, c, d]"
  unfolding be_bytes_def be_word_def
  by (auto intro!: bit_word_eqI simp: bit_simps byte_bit_high)

lemma be_word_bytes [simp]:
  "be_word (ucast (drop_bit 24 w)) (ucast (drop_bit 16 w)) (ucast (drop_bit 8 w)) (ucast w) = (w :: u32)"
  unfolding be_word_def
proof (rule bit_word_eqI)
  fix n assume "n < LENGTH(32)"
  then consider "n < 8" | "8 \<le> n" "n < 16" | "16 \<le> n" "n < 24" | "24 \<le> n" "n < 32"
    by fastforce
  then show "bit (push_bit 24 (ucast (ucast (drop_bit 24 w) :: byte)) OR
      push_bit 16 (ucast (ucast (drop_bit 16 w) :: byte)) OR
      push_bit 8 (ucast (ucast (drop_bit 8 w) :: byte)) OR ucast (ucast w :: byte) :: u32) n = bit w n"
    by cases (auto simp: bit_simps)
qed

lemma get_u32_here [wire_simps]: "get_u32 (be_bytes w @ r) 0 = Inr w"
  by (simp add: get_u32_def be_bytes_def)

lemma get_u32_skip [wire_simps]: "length a \<le> i \<Longrightarrow> get_u32 (a @ r) i = get_u32 r (i - length a)"
proof -
  assume "length a \<le> i"
  then obtain j where "i = length a + j" by (auto dest: le_Suc_ex)
  then show ?thesis by (simp add: get_u32_def nth_append)
qed

lemma get_u32_last [wire_simps]: "get_u32 (be_bytes w) 0 = Inr w"
  using get_u32_here [of w "[]"] by simp

lemma go_from_skip [wire_simps]: "length a \<le> i \<Longrightarrow> go_from (a @ r) i = go_from r (i - length a)"
  by (auto simp: go_from_def)

lemma go_from_0 [wire_simps]: "go_from r 0 = Inr r"
  by (simp add: go_from_def)

lemma get_u32_Some:
  "i + 4 \<le> length xs \<Longrightarrow> \<exists>w. get_u32 xs i = Inr w"
  by (simp add: get_u32_def)

lemma get_u32_panics_iff: "panics (get_u32 xs i) \<longleftrightarrow> length xs < i + 4"
  by (auto simp: get_u32_def panics_def)

lemma byte_lt: "unat (b::byte) < 256"
proof -
  have "unat b < 2 ^ LENGTH(8)" by (rule unsigned_less)
  then show ?thesis by simp
qed
lemma byte_mod_256 [simp]: "unat (b :: byte) mod 256 = unat b"
  using byte_lt [of b] by simp

lemma get_u32_block: "get_u32 xs i = Inr w \<Longrightarrow> take 4 (drop i xs) = be_bytes w"
  by (auto simp: get_u32_def numeral_eq_Suc  take_Suc_conv_app_nth split: if_splits)

lemma take_4_drop: "i + 4 \<le> length xs \<Longrightarrow> drop i xs = take 4 (drop i xs) @ drop (i + 4) xs"
  by (metis add.commute append_take_drop_id drop_drop)

lemma be_bytes_inj: "be_bytes v = be_bytes w \<longleftrightarrow> v = w"
  by (metis append_Nil2 get_u32_here sum.inject(2))

lemma nat_or_shift: "(y::nat) < 2 ^ n \<Longrightarrow> push_bit n x OR y = x * 2 ^ n + y"
proof -
  assume "y < 2 ^ n"
  then have "take_bit n y = y" by (simp add: take_bit_nat_eq_self)
  then have "push_bit n x + y = push_bit n x OR y"
    by (intro disjunctive_add) (metis bit_push_bit_iff bit_take_bit_iff not_le)
  then show ?thesis by (simp add: push_bit_eq_mult)
qed

lemma push_bit_byte_bound:
  "push_bit 24 (unat (b :: byte)) < 4294967296" "push_bit 16 (unat b) < 4294967296" "push_bit 8 (unat b) < 4294967296"
  using byte_lt [of b] by (simp_all add: push_bit_eq_mult)

lemma unat_be_word: "unat (be_word a b c d) = ((unat a * 256 + unat b) * 256 + unat c) * 256 + unat d"
proof -
  have "unat (be_word a b c d) = push_bit 24 (unat a) OR push_bit 16 (unat b) OR push_bit 8 (unat c) OR unat d"
    unfolding be_word_def
    by (simp add: unsigned_or_eq unsigned_push_bit_eq unsigned_ucast_eq take_bit_nat_eq_self
        push_bit_byte_bound byte_lt [THEN less_trans])
  also have "push_bit 8 (unat c) OR unat d = unat c * 256 + unat d"
    using nat_or_shift [of "unat d" 8 "unat c"] byte_lt [of d] by simp
  also have "push_bit 16 (unat b) OR \<dots> = unat b * 65536 + (unat c * 256 + unat d)"
    using nat_or_shift [of "unat c * 256 + unat d" 16 "unat b"] byte_lt [of d] byte_lt [of c] by simp
  also have "push_bit 24 (unat a) OR \<dots> = unat a * 16777216 + (unat b * 65536 + (unat c * 256 + unat d))"
    using nat_or_shift [of "unat b * 65536 + (unat c * 256 + unat d)" 24 "unat a"] byte_lt [of d] byte_lt [of c] byte_lt [of b] by simp
  finally show ?thesis by simp
qed

lemma be_word_mask: "be_word a b c d AND 0xFFFFFF = be_word 0 b c d"
proof -
  have "be_word a b c d AND mask 24 = be_word 0 b c d"
    unfolding be_word_def by (rule bit_word_eqI) (auto simp: bit_simps byte_bit_high dest: bit_imp_le_length)
  then show ?thesis by (simp add: mask_eq_exp_minus_1)
qed

lemma u32_len_eq_be:
  assumes "length xs < 2 ^ 32"
  shows "u32_len xs = be_word a b c d AND 0xFFFFFF \<longleftrightarrow>
     length xs = (unat b * 256 + unat c) * 256 + unat d"
proof -
  have "unat (u32_len xs) = length xs"
    using assms by (simp add: u32_len_def unat_of_nat)
  then show ?thesis
    using unat_be_word [of 0 b c d] by (simp add: be_word_mask word_unat_eq_iff)
qed
lemma byte_of_char_of [simp]: "(of_nat (of_char (char_of (unat (b :: byte)) :: char)) :: byte) = b"
proof -
  have "(of_char (char_of (unat b) :: char) :: nat) = unat b"
    by simp
  then show ?thesis by simp
qed

lemma char_of_byte_of [simp]: "char_of (unat (of_nat (of_char c) :: byte)) = c"
proof -
  have "(of_char c :: nat) < 256"
    by (metis mod_less_divisor of_char_mod_256 zero_less_numeral)
  then have "unat (of_nat (of_char c) :: byte) = of_char c"
    by (simp add: unat_of_nat)
  then show ?thesis by simp
qed

lemma string_bytes_append [simp]: "string_bytes (s @ t) = string_bytes s @ string_bytes t"
  by (simp add: string_bytes_def)

lemma string_bytes_string [simp]: "string_bytes (bytes_string bs) = bs"
  by (simp add: string_bytes_def bytes_string_def comp_def)

lemma bytes_string_bytes [simp]: "bytes_string (string_bytes s) = s"
  by (simp add: string_bytes_def bytes_string_def comp_def)

lemma trim_right_id [simp]: "s = [] \<or> last s \<notin> set cs \<Longrightarrow> trim_right cs s = s"
  by (cases s rule: rev_cases) (auto simp: trim_right_def)

lemma length_trim_right: "length (trim_right cs s) \<le> length s"
  unfolding trim_right_def by (metis length_dropWhile_le length_rev)

lemma trim_right_last: "trim_right cs s = [] \<or> last (trim_right cs s) \<notin> set cs"
  unfolding trim_right_def
  by (metis hd_dropWhile last_rev rev_is_Nil_conv)

lemma trim_right_prefix: "\<exists>t. s = trim_right cs s @ t \<and> set t \<subseteq> set cs"
proof -
  let ?p = "\<lambda>c. c \<in> set cs"
  have "rev s = takeWhile ?p (rev s) @ dropWhile ?p (rev s)"
    by simp
  then have "s = trim_right cs s @ rev (takeWhile ?p (rev s))"
    unfolding trim_right_def by (metis rev_append rev_rev_ident)
  moreover have "set (rev (takeWhile ?p (rev s))) \<subseteq> set cs"
    by (auto dest: set_takeWhileD)
  ultimately show ?thesis by blast
qed

end
