(* ===== verification/Ptcp_Types.thy ===== *)
theory Ptcp_Types
  imports Prelude
begin

text \<open>
  The PTCP wire format (\<^verbatim>\<open>ptcp/types.go\<close>): the 24-byte header, the seven kinds of body, and
  their serialisers and parsers. Serialisers fill a zeroed buffer field by field as the code
  does; parsers check every slice bound, so that an out-of-range read would be \<open>Inl Panic\<close>.
\<close>

section \<open>Constants\<close>

definition Magic :: "byte list" where
  "Magic = string_bytes ''PTCP''"

definition TypeSync :: byte where
  "TypeSync = 0x00"

definition TypePayload :: byte where
  "TypePayload = 0x10"

definition TypeBind :: byte where
  "TypeBind = 0x11"

definition TypeStatus :: byte where
  "TypeStatus = 0x12"

definition TypeHeartbeat :: byte where
  "TypeHeartbeat = 0x13"

definition StatusConnect :: string where
  "StatusConnect = ''CONN''"

definition StatusDisconnect :: string where
  "StatusDisconnect = ''DISC''"

datatype ptcp_error =
  ErrInvalidMagic | ErrPacketTooShort | ErrInvalidPadding | ErrInvalidLength | ErrInvalidBodyType

lemmas type_byte_defs =
  TypeSync_def TypePayload_def TypeBind_def TypeStatus_def TypeHeartbeat_def

section \<open>Header\<close>

record Header =
  h_Sent :: u32
  h_Recv :: u32
  h_PID :: u32
  h_LMID :: u32
  h_RMID :: u32

definition HeaderSize :: nat where
  "HeaderSize = 24"

definition Header_Serialize :: "Header \<Rightarrow> byte list" where
  "Header_Serialize h =
     (let buf = go_make HeaderSize;
          buf = go_copy 0 Magic buf;
          buf = put_u32 4 (h_Sent h) buf;
          buf = put_u32 8 (h_Recv h) buf;
          buf = put_u32 12 (h_PID h) buf;
          buf = put_u32 16 (h_LMID h) buf;
          buf = put_u32 20 (h_RMID h) buf
      in buf)"

definition ParseHeader :: "byte list \<Rightarrow> (ptcp_error, Header) go" where
  "ParseHeader data =
     (if length data < HeaderSize then Inl (Err ErrPacketTooShort)
      else go_bind (go_slice data 0 4) (\<lambda>magic.
        if magic \<noteq> Magic then Inl (Err ErrInvalidMagic)
        else
          go_bind (get_u32 data 4) (\<lambda>sent.
          go_bind (get_u32 data 8) (\<lambda>recv.
          go_bind (get_u32 data 12) (\<lambda>pid.
          go_bind (get_u32 data 16) (\<lambda>lmid.
          go_bind (get_u32 data 20) (\<lambda>rmid.
            Inr \<lparr>h_Sent = sent, h_Recv = recv, h_PID = pid, h_LMID = lmid, h_RMID = rmid\<rparr>)))))))"

section \<open>Body\<close>

datatype BodyType =
  BodyTypeEmpty | BodyTypeSync | BodyTypeCommand | BodyTypePayload
| BodyTypeBind | BodyTypeStatus | BodyTypeHeartbeat

record Body =
  b_Type :: BodyType
  b_Realm :: u32
  b_Data :: "byte list"
  b_Status :: string
  b_Port :: u32
  b_Command :: "byte list"

text \<open>A composite literal leaves the fields it does not name at their zero value.\<close>

definition zero_Body :: "BodyType \<Rightarrow> Body" where
  "zero_Body t =
     \<lparr>b_Type = t, b_Realm = 0, b_Data = [], b_Status = [], b_Port = 0, b_Command = []\<rparr>"

definition NewEmptyBody :: Body where
  "NewEmptyBody = zero_Body BodyTypeEmpty"

definition NewSyncBody :: Body where
  "NewSyncBody = zero_Body BodyTypeSync"

definition NewHeartbeatBody :: Body where
  "NewHeartbeatBody = zero_Body BodyTypeHeartbeat"

definition NewPayloadBody :: "u32 \<Rightarrow> byte list \<Rightarrow> Body" where
  "NewPayloadBody realm data = (zero_Body BodyTypePayload)\<lparr>b_Realm := realm, b_Data := data\<rparr>"

definition NewBindBody :: "u32 \<Rightarrow> u32 \<Rightarrow> Body" where
  "NewBindBody realm port = (zero_Body BodyTypeBind)\<lparr>b_Realm := realm, b_Port := port\<rparr>"

definition NewStatusBody :: "u32 \<Rightarrow> string \<Rightarrow> Body" where
  "NewStatusBody realm status =
     (zero_Body BodyTypeStatus)\<lparr>b_Realm := realm, b_Status := status\<rparr>"

definition NewCommandBody :: "byte list \<Rightarrow> Body" where
  "NewCommandBody command = (zero_Body BodyTypeCommand)\<lparr>b_Command := command\<rparr>"

lemmas body_ctor_defs =
  zero_Body_def NewEmptyBody_def NewSyncBody_def NewHeartbeatBody_def NewPayloadBody_def
  NewBindBody_def NewStatusBody_def NewCommandBody_def

definition Body_Len :: "Body \<Rightarrow> nat" where
  "Body_Len b = (case b_Type b of
       BodyTypeEmpty \<Rightarrow> 0
     | BodyTypeSync \<Rightarrow> 4
     | BodyTypeCommand \<Rightarrow> length (b_Command b)
     | BodyTypePayload \<Rightarrow> length (b_Data b) + 12
     | BodyTypeBind \<Rightarrow> 20
     | BodyTypeStatus \<Rightarrow> length (b_Status b) + 12
     | BodyTypeHeartbeat \<Rightarrow> 12)"

text \<open>
  \<open>uint32(T)<<24|n\<close> is the first word of a body: type byte and 3-byte length. The code ORs the
  length in unmasked, so a length of \<open>2\<^sup>2\<^sup>4\<close> or more would run into the type byte.
\<close>

definition body_word :: "byte \<Rightarrow> u32 \<Rightarrow> u32" where
  "body_word t n = push_bit 24 (ucast t) OR n"

definition Body_Serialize :: "Body \<Rightarrow> byte list" where
  "Body_Serialize b = (case b_Type b of
       BodyTypeEmpty \<Rightarrow> []
     | BodyTypeSync \<Rightarrow> [0x00, 0x03, 0x01, 0x00]
     | BodyTypeCommand \<Rightarrow> b_Command b
     | BodyTypePayload \<Rightarrow>
         (let len = u32_len (b_Data b);
              header = 0x10000000 OR len;
              buf = go_make (12 + length (b_Data b));
              buf = put_u32 0 header buf;
              buf = put_u32 4 (b_Realm b) buf;
              buf = put_u32 8 0 buf;
              buf = go_copy 12 (b_Data b) buf
          in buf)
     | BodyTypeBind \<Rightarrow>
         (let buf = go_make 20;
              dataLen = 8;
              buf = put_u32 0 (body_word TypeBind dataLen) buf;
              buf = put_u32 4 (b_Realm b) buf;
              buf = put_u32 12 (b_Port b) buf;
              buf = buf[16 := 0x7f, 17 := 0x00, 18 := 0x00, 19 := 0x01]
          in buf)
     | BodyTypeStatus \<Rightarrow>
         (let buf = go_make (12 + length (b_Status b));
              dataLen = u32_len (b_Status b);
              buf = put_u32 0 (body_word TypeStatus dataLen) buf;
              buf = put_u32 4 (b_Realm b) buf;
              buf = go_copy 12 (string_bytes (b_Status b)) buf
          in buf)
     | BodyTypeHeartbeat \<Rightarrow>
         (let buf = go_make 12 in buf[0 := TypeHeartbeat]))"

definition ParseBody :: "byte list \<Rightarrow> (ptcp_error, Body) go" where
  "ParseBody data =
     (if length data = 0 then Inr NewEmptyBody
      else if length data < 4 then Inl (Err ErrPacketTooShort)
      else go_bind (go_index data 0) (\<lambda>t.
        if t = TypeSync then Inr NewSyncBody
        else if t = TypePayload then
          (if length data < 12 then Inl (Err ErrPacketTooShort)
           else
             go_bind (get_u32 data 0) (\<lambda>header.
             let len = header AND 0xFFFFFF in
             go_bind (get_u32 data 4) (\<lambda>realm.
             go_bind (get_u32 data 8) (\<lambda>padding.
             if padding \<noteq> 0 then Inl (Err ErrInvalidPadding)
             else go_bind (go_from data 12) (\<lambda>payloadData.
               if u32_len payloadData \<noteq> len then Inl (Err ErrInvalidLength)
               else Inr (NewPayloadBody realm payloadData))))))
        else if t = TypeBind then
          (if length data < 16 then Inl (Err ErrPacketTooShort)
           else
             go_bind (get_u32 data 4) (\<lambda>realm.
             go_bind (get_u32 data 12) (\<lambda>port.
             Inr (NewBindBody realm port))))
        else if t = TypeStatus then
          (if length data < 12 then Inl (Err ErrPacketTooShort)
           else
             go_bind (get_u32 data 4) (\<lambda>realm.
             go_bind (go_from data 12) (\<lambda>raw.
             let status = trim_right [CHR 0x00] (bytes_string raw) in
             Inr (NewStatusBody realm status))))
        else if t = TypeHeartbeat then Inr NewHeartbeatBody
        else Inr (NewCommandBody data)))"

section \<open>Packet\<close>

record Packet =
  p_Header :: Header
  p_Body :: Body

definition NewPacket :: "Header \<Rightarrow> Body \<Rightarrow> Packet" where
  "NewPacket h b = \<lparr>p_Header = h, p_Body = b\<rparr>"

definition Packet_Serialize :: "Packet \<Rightarrow> byte list" where
  "Packet_Serialize p =
     (let headerBytes = Header_Serialize (p_Header p);
          bodyBytes = Body_Serialize (p_Body p);
          result = go_make (length headerBytes + length bodyBytes);
          result = go_copy 0 headerBytes result;
          result = go_copy (length headerBytes) bodyBytes result
      in result)"

definition ParsePacket :: "byte list \<Rightarrow> (ptcp_error, Packet) go" where
  "ParsePacket data =
     go_bind (ParseHeader data) (\<lambda>header.
     go_bind (go_from data HeaderSize) (\<lambda>rest.
     go_bind (ParseBody rest) (\<lambda>body.
     Inr (NewPacket header body))))"

section \<open>Well-formed bodies\<close>

text \<open>
  The bodies the wire format can carry without loss: made by one of the constructors, with a
  length that fits the 3-byte field, no trailing NUL in a status (the parser strips them), and
  a command that the parser cannot mistake for another kind.
\<close>

definition wf_body :: "Body \<Rightarrow> bool" where
  "wf_body b = (case b_Type b of
       BodyTypeEmpty \<Rightarrow> b = NewEmptyBody
     | BodyTypeSync \<Rightarrow> b = NewSyncBody
     | BodyTypeCommand \<Rightarrow> b = NewCommandBody (b_Command b) \<and> 4 \<le> length (b_Command b) \<and>
         hd (b_Command b) \<notin> {TypeSync, TypePayload, TypeBind, TypeStatus, TypeHeartbeat}
     | BodyTypePayload \<Rightarrow> b = NewPayloadBody (b_Realm b) (b_Data b) \<and> length (b_Data b) < 2 ^ 24
     | BodyTypeBind \<Rightarrow> b = NewBindBody (b_Realm b) (b_Port b)
     | BodyTypeStatus \<Rightarrow> b = NewStatusBody (b_Realm b) (b_Status b) \<and> length (b_Status b) < 2 ^ 24 \<and>
         (b_Status b = [] \<or> last (b_Status b) \<noteq> CHR 0x00)
     | BodyTypeHeartbeat \<Rightarrow> b = NewHeartbeatBody)"

section \<open>Specification of rejection\<close>

text \<open>
  Which datagrams the parser must refuse and with which error, in terms of byte positions and
  natural numbers: the padding is the four bytes at offset 8, and the length of a payload is
  the 24-bit big-endian number in bytes 1 to 3.
\<close>

definition body_reject :: "byte list \<Rightarrow> ptcp_error option" where
  "body_reject d =
     (if d = [] then None
      else if length d < 4 then Some ErrPacketTooShort
      else if hd d = 0x10 then
        (if length d < 12 then Some ErrPacketTooShort
         else if take 4 (drop 8 d) \<noteq> [0, 0, 0, 0] then Some ErrInvalidPadding
         else if length d \<noteq> 12 + (unat (d ! 1) * 256 + unat (d ! 2)) * 256 + unat (d ! 3)
         then Some ErrInvalidLength
         else None)
      else if hd d = 0x11 \<and> length d < 16 then Some ErrPacketTooShort
      else if hd d = 0x12 \<and> length d < 12 then Some ErrPacketTooShort
      else None)"

definition packet_reject :: "byte list \<Rightarrow> ptcp_error option" where
  "packet_reject d =
     (if length d < 24 then Some ErrPacketTooShort
      else if take 4 d \<noteq> string_bytes ''PTCP'' then Some ErrInvalidMagic
      else body_reject (drop 24 d))"

section \<open>Layout of the serialised forms\<close>

text \<open>
  The buffers the serialisers fill, written as the blocks they consist of. The component's
  other lemmas rest on these and not on the buffer operations.
\<close>

lemma length_Magic [simp]: "length Magic = 4"
  by (simp add: Magic_def)

lemma Header_Serialize_layout [layout_simps]:
  "Header_Serialize h = Magic @ be_bytes (h_Sent h) @ be_bytes (h_Recv h) @ be_bytes (h_PID h)
     @ be_bytes (h_LMID h) @ be_bytes (h_RMID h)"
  by (simp add: Header_Serialize_def HeaderSize_def go_make_word buffer_layout)

lemma length_Header_Serialize [simp]: "length (Header_Serialize h) = HeaderSize"
  by (simp add: layout_simps HeaderSize_def)

lemma Body_Serialize_Payload:
  "b_Type b = BodyTypePayload \<Longrightarrow> Body_Serialize b =
     be_bytes (body_word TypePayload (u32_len (b_Data b))) @ be_bytes (b_Realm b) @ be_bytes 0 @ b_Data b"
  by (simp add: Body_Serialize_def go_make_word buffer_layout body_word_def TypePayload_def)

lemma Body_Serialize_Bind:
  "b_Type b = BodyTypeBind \<Longrightarrow> Body_Serialize b =
     be_bytes (body_word TypeBind 8) @ be_bytes (b_Realm b) @ be_bytes 0 @ be_bytes (b_Port b)
       @ [0x7f, 0x00, 0x00, 0x01]"
  by (simp add: Body_Serialize_def go_make_word buffer_layout list_update_append)
    (simp add: be_bytes_def)

lemma Body_Serialize_Status:
  "b_Type b = BodyTypeStatus \<Longrightarrow> Body_Serialize b =
     be_bytes (body_word TypeStatus (u32_len (b_Status b))) @ be_bytes (b_Realm b) @ be_bytes 0
       @ string_bytes (b_Status b)"
  by (simp add: Body_Serialize_def go_make_word buffer_layout)

lemma Body_Serialize_Heartbeat:
  "b_Type b = BodyTypeHeartbeat \<Longrightarrow> Body_Serialize b =
     be_bytes (body_word TypeHeartbeat 0) @ be_bytes 0 @ be_bytes 0"
  by (simp add: Body_Serialize_def go_make_word buffer_layout list_update_append)
    (simp add: be_bytes_def body_word_def TypeHeartbeat_def)

lemma Body_Serialize_plain:
  "b_Type b = BodyTypeEmpty \<Longrightarrow> Body_Serialize b = []"
  "b_Type b = BodyTypeSync \<Longrightarrow> Body_Serialize b = [0x00, 0x03, 0x01, 0x00]"
  "b_Type b = BodyTypeCommand \<Longrightarrow> Body_Serialize b = b_Command b"
  by (simp_all add: Body_Serialize_def)

lemmas Body_Serialize_layout =
  Body_Serialize_Payload Body_Serialize_Bind Body_Serialize_Status Body_Serialize_Heartbeat
  Body_Serialize_plain

lemma Packet_Serialize_layout [layout_simps]:
  "Packet_Serialize p = Header_Serialize (p_Header p) @ Body_Serialize (p_Body p)"
  by (simp add: Packet_Serialize_def Let_def go_copy_def go_make_def)

lemma length_Body_Serialize: "length (Body_Serialize b) = Body_Len b"
  by (cases "b_Type b") (simp_all add: Body_Serialize_layout Body_Len_def)

lemma take_bit_u32_len: "length xs < 2 ^ 24 \<Longrightarrow> take_bit 24 (u32_len xs) = u32_len xs"
  unfolding u32_len_def
  by (metis of_nat_take_bit take_bit_nat_eq_self)

lemma bit_take_bit_self: "take_bit 24 (n :: u32) = n \<Longrightarrow> 24 \<le> k \<Longrightarrow> \<not> bit n k"
  by (metis bit_take_bit_iff not_less)

lemma be_bytes_body_word:
  assumes "take_bit 24 n = n"
  shows "be_bytes (body_word t n) = [t, ucast (drop_bit 16 n), ucast (drop_bit 8 n), ucast n]"
  unfolding be_bytes_def body_word_def using bit_take_bit_self [OF assms]
  by (auto intro!: bit_word_eqI simp: bit_simps byte_bit_high)

lemma body_word_length:
  assumes "take_bit 24 n = n"
  shows "body_word t n AND 0xFFFFFF = n"
proof -
  have "body_word t n AND mask 24 = n"
    using bit_take_bit_self [OF assms] unfolding body_word_def
    by (auto intro!: bit_word_eqI simp: bit_simps not_le [symmetric])
  then show ?thesis by (simp add: mask_eq_exp_minus_1)
qed

lemma go_index_body_word [wire_simps]:
  "take_bit 24 n = n \<Longrightarrow> go_index (be_bytes (body_word t n) @ r) 0 = Inr t"
  by (simp add: be_bytes_body_word go_index_def)

lemma ParseHeader_Serialize [wire_simps]: "ParseHeader (Header_Serialize h @ r) = Inr h"
  by (simp add: ParseHeader_def HeaderSize_def layout_simps wire_simps go_slice_def)

section \<open>Parsing what was serialised\<close>

lemma type_bytes_distinct [simp]:
  "TypePayload \<noteq> TypeSync" "TypeBind \<noteq> TypeSync" "TypeBind \<noteq> TypePayload"
  "TypeStatus \<noteq> TypeSync" "TypeStatus \<noteq> TypePayload" "TypeStatus \<noteq> TypeBind"
  "TypeHeartbeat \<noteq> TypeSync" "TypeHeartbeat \<noteq> TypePayload" "TypeHeartbeat \<noteq> TypeBind"
  "TypeHeartbeat \<noteq> TypeStatus"
  by (simp_all add: type_byte_defs)

lemma ParseBody_payload:
  "length data < 2 ^ 24 \<Longrightarrow>
     ParseBody (Body_Serialize (NewPayloadBody realm data)) = Inr (NewPayloadBody realm data)"
  using take_bit_u32_len [of data]
  by (simp add: ParseBody_def Body_Serialize_layout wire_simps body_word_length
      NewPayloadBody_def zero_Body_def)

lemma ParseBody_bind:
  "ParseBody (Body_Serialize (NewBindBody realm port)) = Inr (NewBindBody realm port)"
  by (simp add: ParseBody_def Body_Serialize_layout wire_simps NewBindBody_def zero_Body_def)

lemma ParseBody_status:
  "length status < 2 ^ 24 \<Longrightarrow> status = [] \<or> last status \<noteq> CHR 0x00 \<Longrightarrow>
     ParseBody (Body_Serialize (NewStatusBody realm status)) = Inr (NewStatusBody realm status)"
  using take_bit_u32_len [of status]
  by (simp add: ParseBody_def Body_Serialize_layout wire_simps NewStatusBody_def zero_Body_def Let_def)

lemma ParseBody_heartbeat:
  "ParseBody (Body_Serialize NewHeartbeatBody) = Inr NewHeartbeatBody"
  by (simp add: ParseBody_def Body_Serialize_layout wire_simps NewHeartbeatBody_def zero_Body_def)

lemma ParseBody_sync: "ParseBody (Body_Serialize NewSyncBody) = Inr NewSyncBody"
  by (simp add: ParseBody_def Body_Serialize_layout NewSyncBody_def zero_Body_def go_index_def
      TypeSync_def)

lemma ParseBody_empty: "ParseBody (Body_Serialize NewEmptyBody) = Inr NewEmptyBody"
  by (simp add: ParseBody_def Body_Serialize_layout NewEmptyBody_def zero_Body_def)

lemma ParseBody_command:
  "4 \<le> length cmd \<Longrightarrow>
     hd cmd \<notin> {TypeSync, TypePayload, TypeBind, TypeStatus, TypeHeartbeat} \<Longrightarrow>
     ParseBody (Body_Serialize (NewCommandBody cmd)) = Inr (NewCommandBody cmd)"
  by (cases cmd) (simp_all add: ParseBody_def Body_Serialize_layout NewCommandBody_def zero_Body_def
      go_index_def)

lemmas ParseBody_constructors =
  ParseBody_payload ParseBody_bind ParseBody_status ParseBody_heartbeat ParseBody_sync
  ParseBody_empty ParseBody_command

lemma wf_body_cases:
  assumes "wf_body b"
  obtains "b = NewEmptyBody" | "b = NewSyncBody" | "b = NewHeartbeatBody"
  | realm data where "b = NewPayloadBody realm data" "length data < 2 ^ 24"
  | realm port where "b = NewBindBody realm port"
  | realm status where "b = NewStatusBody realm status" "length status < 2 ^ 24"
      "status = [] \<or> last status \<noteq> CHR 0x00"
  | cmd where "b = NewCommandBody cmd" "4 \<le> length cmd"
      "hd cmd \<notin> {TypeSync, TypePayload, TypeBind, TypeStatus, TypeHeartbeat}"
  using assms by (cases "b_Type b") (auto simp: wf_body_def)

lemma ParseBody_Serialize [wire_simps]: "wf_body b \<Longrightarrow> ParseBody (Body_Serialize b) = Inr b"
  by (erule wf_body_cases) (simp_all add: ParseBody_constructors)

lemma ParsePacket_Serialize [wire_simps]:
  "wf_body (p_Body p) \<Longrightarrow> ParsePacket (Packet_Serialize p) = Inr p"
  by (simp add: ParsePacket_def Packet_Serialize_layout wire_simps NewPacket_def)
lemma wf_body_constructors [simp]:
  "wf_body NewEmptyBody" "wf_body NewSyncBody" "wf_body NewHeartbeatBody"
  "wf_body (NewBindBody realm port)"
  "wf_body (NewPayloadBody realm data) \<longleftrightarrow> length data < 2 ^ 24"
  "wf_body (NewStatusBody realm status) \<longleftrightarrow>
     length status < 2 ^ 24 \<and> (status = [] \<or> last status \<noteq> CHR 0x00)"
  "wf_body (NewCommandBody cmd) \<longleftrightarrow> 4 \<le> length cmd \<and>
     hd cmd \<notin> {TypeSync, TypePayload, TypeBind, TypeStatus, TypeHeartbeat}"
  by (simp_all add: wf_body_def body_ctor_defs)

lemma Body_Len_constructors [simp]:
  "Body_Len NewEmptyBody = 0" "Body_Len NewSyncBody = 4" "Body_Len NewHeartbeatBody = 12"
  "Body_Len (NewBindBody realm port) = 20"
  "Body_Len (NewPayloadBody realm data) = length data + 12"
  "Body_Len (NewStatusBody realm status) = length status + 12"
  "Body_Len (NewCommandBody cmd) = length cmd"
  by (simp_all add: Body_Len_def body_ctor_defs)

lemma b_Type_constructors [simp]:
  "b_Type NewEmptyBody = BodyTypeEmpty" "b_Type NewSyncBody = BodyTypeSync"
  "b_Type NewHeartbeatBody = BodyTypeHeartbeat" "b_Type (NewBindBody realm port) = BodyTypeBind"
  "b_Type (NewPayloadBody realm data) = BodyTypePayload"
  "b_Type (NewStatusBody realm status) = BodyTypeStatus"
  "b_Type (NewCommandBody cmd) = BodyTypeCommand"
  by (simp_all add: body_ctor_defs)

text \<open>The successful runs of the parser, one per kind of body.\<close>

lemma ParseBody_Inr_cases:
  assumes "ParseBody data = Inr b"
  obtains "data = []" "b = NewEmptyBody"
  | "4 \<le> length data" "data ! 0 = TypeSync" "b = NewSyncBody"
  | "4 \<le> length data" "data ! 0 = TypeHeartbeat" "b = NewHeartbeatBody"
  | header realm where "12 \<le> length data" "data ! 0 = TypePayload"
      "b = NewPayloadBody realm (drop 12 data)" "u32_len (drop 12 data) = header AND 0xFFFFFF"
      "get_u32 data 0 = (Inr header :: (ptcp_error, u32) go)"
      "get_u32 data 4 = (Inr realm :: (ptcp_error, u32) go)"
      "get_u32 data 8 = (Inr 0 :: (ptcp_error, u32) go)"
  | realm port where "16 \<le> length data" "data ! 0 = TypeBind" "b = NewBindBody realm port"
  | realm where "12 \<le> length data" "data ! 0 = TypeStatus"
      "b = NewStatusBody realm (trim_right [CHR 0x00] (bytes_string (drop 12 data)))"
  | "4 \<le> length data" "b = NewCommandBody data"
      "data ! 0 \<notin> {TypeSync, TypePayload, TypeBind, TypeStatus, TypeHeartbeat}"
  using assms unfolding ParseBody_def
  by (auto simp: go_index_def go_from_def get_u32_def Let_def split: if_splits)


lemma wf_ParseBody:
  assumes "ParseBody data = Inr b" "length data < 2 ^ 24"
  shows "wf_body b"
  using assms(1)
proof (cases rule: ParseBody_Inr_cases)
  case (6 realm)
  let ?raw = "bytes_string (drop 12 data)"
  have "length (trim_right [CHR 0x00] ?raw) < 2 ^ 24"
    using length_trim_right [of "[CHR 0x00]" ?raw] assms(2) by simp
  with 6 show ?thesis using trim_right_last [of "[CHR 0x00]" ?raw] by simp
next
  case 7
  then show ?thesis by (cases data) simp_all
qed (use assms(2) in simp_all)

lemma ParseBody_not_panics: "\<not> panics (ParseBody data)"
  by (auto simp: ParseBody_def go_index_def get_u32_def go_from_def Let_def)

lemma ParseHeader_not_panics: "\<not> panics (ParseHeader data)"
  by (auto simp: ParseHeader_def go_slice_def get_u32_def HeaderSize_def)

lemma Body_Len_ParseBody:
  assumes "ParseBody data = Inr b"
  shows "b_Type b \<in> {BodyTypeEmpty, BodyTypePayload, BodyTypeCommand} \<Longrightarrow> Body_Len b = length data"
  using assms by (cases rule: ParseBody_Inr_cases) auto

lemma body_word_split: "be_bytes w ! 0 = t \<Longrightarrow> w = body_word t (w AND 0xFFFFFF)"
proof (rule bit_word_eqI)
  fix n assume t: "be_bytes w ! 0 = t" and "n < LENGTH(32)"
  then have "w AND 0xFFFFFF = w AND mask 24" by (simp add: mask_eq_exp_minus_1)
  moreover have "bit w n \<longleftrightarrow> bit (body_word t (w AND mask 24)) n"
    using t \<open>n < LENGTH(32)\<close>
    by (auto simp: body_word_def be_bytes_def bit_simps)
  ultimately show "bit w n \<longleftrightarrow> bit (body_word t (w AND 0xFFFFFF)) n" by simp
qed

lemma Body_Serialize_ParseBody:
  assumes "ParseBody data = Inr b"
    and "b_Type b \<in> {BodyTypeEmpty, BodyTypePayload, BodyTypeCommand}"
  shows "Body_Serialize b = data"
  using assms(1)
proof (cases rule: ParseBody_Inr_cases)
  case (4 header realm)
  then have h: "take 4 data = be_bytes header" "take 4 (drop 4 data) = be_bytes realm"
    "take 4 (drop 8 data) = be_bytes 0"
    using get_u32_block [of data] by (metis drop_0)+
  then have "be_bytes header ! 0 = TypePayload"
    using 4(1,2) by (metis nth_take zero_less_numeral)
  then have "header = body_word TypePayload (u32_len (drop 12 data))"
    using body_word_split 4(4) by metis
  moreover have "data = be_bytes header @ be_bytes realm @ be_bytes 0 @ drop 12 data"
    using h 4(1) take_4_drop [of 0 data] take_4_drop [of 4 data] take_4_drop [of 8 data] by simp
  ultimately show ?thesis
    using 4(3) by (simp add: Body_Serialize_layout) (simp add: NewPayloadBody_def zero_Body_def)
qed (use assms(2) in \<open>auto simp: Body_Serialize_layout\<close>, simp add: NewCommandBody_def)

section \<open>Rejection\<close>

lemma be_word_eq_0: "be_word a b c d = 0 \<longleftrightarrow> [a, b, c, d] = [0, 0, 0, 0]"
  using be_bytes_word [of a b c d] be_bytes_inj [of "be_word a b c d" 0]
  by (simp add: be_bytes_def)

lemma take_4_drop_nth: "i + 4 \<le> length xs \<Longrightarrow> take 4 (drop i xs) = [xs ! i, xs ! (i+1), xs ! (i+2), xs ! (i+3)]"
  by (simp add: numeral_eq_Suc take_Suc_conv_app_nth)

lemma ParseBody_Inl_iff:
  assumes "length d < 2 ^ 32"
  shows "ParseBody d = Inl f \<longleftrightarrow> (\<exists>e. f = Err e \<and> body_reject d = Some e)"
proof (cases "hd d = 0x10 \<and> 12 \<le> length d")
  case True
  then have h: "d ! 0 = TypePayload" by (cases d) (auto simp: TypePayload_def)
  have g: "get_u32 d 0 = Inr (be_word (d ! 0) (d ! 1) (d ! 2) (d ! 3))"
    using True by (simp add: get_u32_def numeral_2_eq_2)
  have "u32_len (drop 12 d) = be_word (d ! 0) (d ! 1) (d ! 2) (d ! 3) AND 0xFFFFFF \<longleftrightarrow>
      length d = 12 + (unat (d ! 1) * 256 + unat (d ! 2)) * 256 + unat (d ! 3)"
    using True assms by (subst u32_len_eq_be) auto
  moreover have "take 4 (drop 8 d) = [0, 0, 0, 0] \<longleftrightarrow> be_word (d ! 8) (d ! 9) (d ! 10) (d ! 11) = 0"
    using True by (subst take_4_drop_nth) (auto simp: be_word_eq_0)
  ultimately show ?thesis
    using True h
    by (auto simp: ParseBody_def body_reject_def go_index_def g get_u32_def [of _ 4] get_u32_def [of _ 8] go_from_def)
next
  case False
  then show ?thesis
    by (cases d) (auto simp: ParseBody_def body_reject_def go_index_def get_u32_def go_from_def type_byte_defs Let_def)
qed

lemma ParsePacket_Inl_iff:
  assumes "length d < 2 ^ 32"
  shows "ParsePacket d = Inl f \<longleftrightarrow> (\<exists>e. f = Err e \<and> packet_reject d = Some e)"
  using ParseBody_Inl_iff [of "drop 24 d" f] assms
  by (auto simp: ParsePacket_def ParseHeader_def packet_reject_def HeaderSize_def go_slice_def
      get_u32_def go_from_def Magic_def result_simps)
section \<open>The codec interface\<close>

text \<open>
  What the layers above rely on: a well-formed packet survives the trip over the wire, and no
  datagram makes the parser panic.
\<close>

locale packet_codec =
  fixes ser :: "'p \<Rightarrow> byte list"
    and parse :: "byte list \<Rightarrow> ('e, 'p) go"
    and wf :: "'p \<Rightarrow> bool"
  assumes parse_ser: "wf p \<Longrightarrow> parse (ser p) = Inr p"
    and parse_safe: "\<not> panics (parse d)"
begin

lemma ser_inj: "wf p \<Longrightarrow> wf q \<Longrightarrow> ser p = ser q \<Longrightarrow> p = q"
  by (metis parse_ser sum.inject(2))

lemma parse_stream: "list_all wf ps \<Longrightarrow> map parse (map ser ps) = map Inr ps"
  by (induction ps) (simp_all add: parse_ser)

lemma parse_outcome: "(\<exists>p. parse d = Inr p) \<or> (\<exists>e. parse d = Inl (Err e))"
  using parse_safe [of d] by (cases "parse d"; cases "projl (parse d)") (auto simp: panics_def)

end

lemma ParsePacket_not_panics: "\<not> panics (ParsePacket d)"
  using ParseHeader_not_panics [of d]
  by (cases "ParseHeader d") (auto simp: ParsePacket_def panics_def go_from_def result_simps
      ParseBody_not_panics [unfolded panics_def] ParseHeader_def split: if_splits)

interpretation ptcp: packet_codec Packet_Serialize ParsePacket "\<lambda>p. wf_body (p_Body p)"
  by unfold_locales (simp_all add: ParsePacket_Serialize ParsePacket_not_panics)

lemma ParsePacket_InrD:
  assumes "ParsePacket d = Inr p"
  shows "ParseHeader d = Inr (p_Header p)" "ParseBody (drop HeaderSize d) = Inr (p_Body p)"
    "HeaderSize \<le> length d" 
  using assms by (auto simp: ParsePacket_def result_simps NewPacket_def go_from_def split: if_splits)

lemma Header_Serialize_ParseHeader:
  assumes "ParseHeader d = Inr h"
  shows "Header_Serialize h = take HeaderSize d"
proof -
  have b: "24 \<le> length d" "take 4 d = Magic" "get_u32 d 4 = (Inr (h_Sent h) :: (ptcp_error, u32) go)"
     "get_u32 d 8 = (Inr (h_Recv h) :: (ptcp_error, u32) go)" "get_u32 d 12 = (Inr (h_PID h) :: (ptcp_error, u32) go)"
     "get_u32 d 16 = (Inr (h_LMID h) :: (ptcp_error, u32) go)"  "get_u32 d 20 = (Inr (h_RMID h) :: (ptcp_error, u32) go)"
    using assms by (auto simp: ParseHeader_def HeaderSize_def go_slice_def result_simps split: if_splits)
  have "take 24 d = take 4 d @ take 4 (drop 4 d) @ take 4 (drop 8 d) @ take 4 (drop 12 d) @ take 4 (drop 16 d) @ take 4 (drop 20 d)"
    using take_add [of 4 20 d] take_add [of 4 16 "drop 4 d"] take_add [of 4 12 "drop 8 d"] take_add [of 4 8 "drop 12 d"]
       take_add [of 4 4 "drop 16 d"]
    by simp
  then show ?thesis using b(2) b(3-7) [THEN get_u32_block]
    by (simp add: layout_simps HeaderSize_def)
qed

section \<open>Properties\<close>

text \<open>
  (C20) Every packet with a well-formed body is parsed back, header and body, from the datagram it
  is serialised to.
\<close>

theorem packet_roundtrip:
  assumes "wf_body (p_Body p)"
  shows "ParsePacket (Packet_Serialize p) = Inr p"
  using assms by (rule ptcp.parse_ser)

theorem packet_roundtrip_witness:
  "wf_body (NewStatusBody 7 ''CONN'') \<and>
   ParsePacket (Packet_Serialize (NewPacket \<lparr>h_Sent = 1, h_Recv = 2, h_PID = 0xFFFF, h_LMID = 3, h_RMID = 4\<rparr>
       (NewStatusBody 7 ''CONN'')))
     = Inr (NewPacket \<lparr>h_Sent = 1, h_Recv = 2, h_PID = 0xFFFF, h_LMID = 3, h_RMID = 4\<rparr> (NewStatusBody 7 ''CONN''))"
  using packet_roundtrip [of "NewPacket \<lparr>h_Sent = 1, h_Recv = 2, h_PID = 0xFFFF, h_LMID = 3, h_RMID = 4\<rparr>
       (NewStatusBody 7 ''CONN'')"]
  by (simp add: NewPacket_def)

text \<open>
  (C28) Parsing is stable: a datagram that parses, serialised again, parses to the same packet, and
  for acknowledgements, payloads and commands the second serialisation is the datagram itself,
  byte for byte.
\<close>

theorem parse_packet_canonical:
  assumes "ParsePacket d = Inr p" and "length d < 2 ^ 24"
  shows "ParsePacket (Packet_Serialize p) = Inr p \<and>
    (b_Type (p_Body p) \<in> {BodyTypeEmpty, BodyTypePayload, BodyTypeCommand} \<longrightarrow> Packet_Serialize p = d)"
proof -
  note parsed = ParsePacket_InrD [OF assms(1)]
  have "length (drop HeaderSize d) < 2 ^ 24" using assms(2) by simp
  with parsed(2) have "wf_body (p_Body p)" by (rule wf_ParseBody)
  then have "ParsePacket (Packet_Serialize p) = Inr p" by (rule ptcp.parse_ser)
  then show ?thesis
    using Header_Serialize_ParseHeader [OF parsed(1)] Body_Serialize_ParseBody [OF parsed(2)]
    by (auto simp: Packet_Serialize_layout)
qed

theorem parse_packet_canonical_witness:
  "let p = NewPacket \<lparr>h_Sent = 0, h_Recv = 0, h_PID = 1, h_LMID = 0, h_RMID = 0\<rparr> NewEmptyBody;
       d = Packet_Serialize p
   in ParsePacket d = Inr p \<and> length d < 2 ^ 24 \<and> ParsePacket (Packet_Serialize p) = Inr p \<and>
      Packet_Serialize p = d"
proof -
  let ?p = "NewPacket \<lparr>h_Sent = 0, h_Recv = 0, h_PID = 1, h_LMID = 0, h_RMID = 0\<rparr> NewEmptyBody"
  have h1: "ParsePacket (Packet_Serialize ?p) = Inr ?p"
    by (rule ptcp.parse_ser) (simp add: NewPacket_def)
  have h2: "length (Packet_Serialize ?p) < 2 ^ 24"
    by (simp add: NewPacket_def Packet_Serialize_layout HeaderSize_def length_Body_Serialize)
  from parse_packet_canonical [OF h1 h2] h2 show ?thesis
    by (simp add: Let_def)
qed

text \<open>
  (C29) The parser never panics, on any datagram, and it returns an error exactly when the
  byte-level specification rejects the datagram, with the error the specification names.
\<close>

theorem parse_packet_errors:
  assumes "length d < 2 ^ 32"
  shows "\<not> panics (ParsePacket d) \<and>
    (\<forall>e. ParsePacket d = Inl (Err e) \<longleftrightarrow> packet_reject d = Some e)"
  using ParsePacket_Inl_iff [OF assms] by (simp add: ParsePacket_not_panics)

theorem parse_packet_errors_witness:
  "let d = string_bytes ''PTCP'' @ replicate 20 0 @ [0x10, 0, 0, 8, 0, 0, 0, 1, 0, 0, 0, 0, 0x41]
   in length d < 2 ^ 32 \<and> ParsePacket d = Inl (Err ErrInvalidLength)"
proof -
  let ?d = "string_bytes ''PTCP'' @ replicate 20 0 @
    [0x10, 0, 0, 8, 0, 0, 0, 1, 0, 0, 0, 0, 0x41] :: byte list"
  have h: "length ?d < 2 ^ 32" by simp
  have "packet_reject ?d = Some ErrInvalidLength"
    by (simp add: packet_reject_def body_reject_def)
  with h parse_packet_errors [OF h] show ?thesis by simp
qed

text \<open>
  The length a body reports is the number of bytes it is serialised to, for every body: a
  datagram is 24 bytes longer than \<open>Body.Len\<close>.
\<close>

theorem datagram_length:
  "length (Packet_Serialize p) = 24 + Body_Len (p_Body p)"
  by (simp add: Packet_Serialize_layout length_Body_Serialize HeaderSize_def)

text \<open>
  What a parsed body adds to the receive counter, against the bytes received: acknowledgements,
  payloads and commands count exactly; a status counts the bytes without its trailing NULs; SYNC,
  BIND and heartbeat bodies count their fixed size whatever was received.
\<close>

theorem parsed_len:
  assumes "ParseBody d = Inr b"
  shows "case b_Type b of
      BodyTypeSync \<Rightarrow> Body_Len b = 4 \<and> 4 \<le> length d
    | BodyTypeBind \<Rightarrow> Body_Len b = 20 \<and> 16 \<le> length d
    | BodyTypeHeartbeat \<Rightarrow> Body_Len b = 12 \<and> 4 \<le> length d
    | BodyTypeStatus \<Rightarrow> (\<exists>k. length d = Body_Len b + k \<and> drop (Body_Len b) d = replicate k 0)
    | _ \<Rightarrow> Body_Len b = length d"
  using assms
proof (cases rule: ParseBody_Inr_cases)
  case (6 realm)
  define s where "s = trim_right [CHR 0x00] (bytes_string (drop 12 d))"
  obtain t where t: "bytes_string (drop 12 d) = s @ t" and z: "set t \<subseteq> {CHR 0x00}"
    unfolding s_def using trim_right_prefix [of "bytes_string (drop 12 d)" "[CHR 0x00]"] by auto
  have d: "drop 12 d = string_bytes s @ string_bytes t"
    using arg_cong [OF t, of string_bytes] by simp
  have "string_bytes t = replicate (length t) 0"
    using z by (induction t) (auto simp: string_bytes_def)
  then have "drop (length s + 12) d = replicate (length t) 0"
    using d by (metis append_eq_conv_conj drop_drop length_string_bytes)
  moreover have "length d - 12 = length s + length t"
    using d by (metis length_append length_drop length_string_bytes)
  then have "length d = length s + 12 + length t"
    using 6(1) by simp
  moreover have "b = NewStatusBody realm s"
    using 6(3) by (simp add: s_def)
  ultimately show ?thesis by simp
qed auto

theorem parsed_len_witness:
  "let d = [0x12, 0, 0, 8, 0, 0, 0, 1, 0, 0, 0, 0] @ string_bytes ''CONN'' @ [0, 0, 0, 0];
       b = NewStatusBody 1 ''CONN''
   in ParseBody d = Inr b \<and> (\<exists>k. length d = Body_Len b + k \<and> drop (Body_Len b) d = replicate k 0)"
proof -
  let ?d = "[0x12, 0, 0, 8, 0, 0, 0, 1, 0, 0, 0, 0] @ string_bytes ''CONN'' @ [0, 0, 0, 0] :: byte list"
  have "ParseBody ?d = Inr (NewStatusBody 1 ''CONN'')"
    by code_simp
  with parsed_len [OF this] show ?thesis by (simp add: Let_def)
qed

end
