(* ===== verification/Ptcp_Session.thy ===== *)
theory Ptcp_Session
  imports Ptcp_Types
begin

text \<open>
  The PTCP session counters (\<^verbatim>\<open>ptcp/session.go\<close>): what \<open>Session.Send\<close> puts into a header, what
  \<open>Session.Recv\<close> learns from one, and the loss statistics computed from both endpoints' views.
  The last part joins two sessions by a link that may delay, reorder and lose datagrams, and
  shows what the statistics measure.
\<close>

section \<open>The session\<close>

record Session =
  s_sent :: u32
  s_recv :: u32
  s_count :: u32
  s_id :: u32
  s_rmid :: u32
  s_peerSent :: u32
  s_peerRecv :: u32
  s_peerRMID :: u32

record Stats =
  t_Sent :: u32
  t_Recv :: u32
  t_LMID :: u32
  t_PeerSent :: u32
  t_PeerRecv :: u32
  t_PeerRMID :: u32

definition delta :: "u32 \<Rightarrow> u32 \<Rightarrow> int" where
  "delta a b = sint (a - b)"

definition OutBytes :: "Stats \<Rightarrow> int" where
  "OutBytes t = delta (t_Sent t) (t_PeerRecv t)"

definition OutMsgs :: "Stats \<Rightarrow> int" where
  "OutMsgs t = delta (t_LMID t) (t_PeerRMID t)"

definition InBytes :: "Stats \<Rightarrow> int" where
  "InBytes t = delta (t_PeerSent t) (t_Recv t)"

definition Session_Stats :: "Session \<Rightarrow> Stats" where
  "Session_Stats s =
     \<lparr>t_Sent = s_sent s, t_Recv = s_recv s, t_LMID = s_id s,
      t_PeerSent = s_peerSent s, t_PeerRecv = s_peerRecv s, t_PeerRMID = s_peerRMID s\<rparr>"

definition NewSession :: Session where
  "NewSession =
     \<lparr>s_sent = 0, s_recv = 0, s_count = 0, s_id = 0, s_rmid = 0,
      s_peerSent = 0, s_peerRecv = 0, s_peerRMID = 0\<rparr>"

definition Session_Send :: "Session \<Rightarrow> Body \<Rightarrow> Packet \<times> Session" where
  "Session_Send s body =
     (let header = \<lparr>h_Sent = s_sent s, h_Recv = s_recv s, h_PID = 0, h_LMID = s_id s, h_RMID = s_rmid s\<rparr>;
          header = (case b_Type body of
              BodyTypeSync \<Rightarrow> header\<lparr>h_PID := 0x0002FFFF\<rparr>
            | _ \<Rightarrow> header\<lparr>h_PID := 0x0000FFFF - (s_count s AND 0xFFFF)\<rparr>);
          s = s\<lparr>s_sent := s_sent s + of_nat (Body_Len body)\<rparr>;
          s = s\<lparr>s_id := s_id s + 1\<rparr>;
          s = (if b_Type body \<noteq> BodyTypeSync then s\<lparr>s_count := s_count s + 1\<rparr> else s)
      in (NewPacket header body, s))"

definition Session_Recv :: "Session \<Rightarrow> Packet \<Rightarrow> Packet \<times> Session" where
  "Session_Recv s packet =
     (let s = s\<lparr>s_recv := s_recv s + of_nat (Body_Len (p_Body packet))\<rparr>;
          s = s\<lparr>s_rmid := h_LMID (p_Header packet)\<rparr>;
          s = s\<lparr>s_peerSent := h_Sent (p_Header packet)\<rparr>;
          s = s\<lparr>s_peerRecv := h_Recv (p_Header packet)\<rparr>;
          s = s\<lparr>s_peerRMID := h_RMID (p_Header packet)\<rparr>
      in (packet, s))"

text \<open>A run of sends: the packets in order and the session afterwards.\<close>

fun send_all :: "Session \<Rightarrow> Body list \<Rightarrow> Packet list \<times> Session" where
  "send_all s [] = ([], s)"
| "send_all s (b # bs) =
     (let (p, s1) = Session_Send s b; (ps, s2) = send_all s1 bs in (p # ps, s2))"

definition non_sync :: "Body list \<Rightarrow> nat" where
  "non_sync bs = length (filter (\<lambda>b. b_Type b \<noteq> BodyTypeSync) bs)"

definition body_bytes :: "Body list \<Rightarrow> nat" where
  "body_bytes bs = sum_list (map Body_Len bs)"

section \<open>Two endpoints\<close>

text \<open>
  Two sessions, \<open>A\<close> and \<open>B\<close>, that keep their counters as \<open>ptcp.Session\<close> does, and the datagrams
  under way in each direction. Any datagram in flight may be the next one to arrive or may be
  lost. The other fields count body bytes without wrapping, for the statements below: those lost so
  far in each direction, and those each side has sent and received. No operation reads them.
\<close>

record link =
  l_a :: Session
  l_b :: Session
  l_ab :: "byte list list"
  l_ba :: "byte list list"
  l_lost_ab :: nat
  l_lost_ba :: nat
  l_sent_a :: nat
  l_sent_b :: nat
  l_got_a :: nat
  l_got_b :: nat

definition link_init :: link where
  "link_init = \<lparr>l_a = NewSession, l_b = NewSession, l_ab = [], l_ba = [], l_lost_ab = 0, l_lost_ba = 0,
     l_sent_a = 0, l_sent_b = 0, l_got_a = 0, l_got_b = 0\<rparr>"

definition transmit :: "Session \<Rightarrow> Body \<Rightarrow> byte list \<times> Session" where
  "transmit s b = (let (p, s') = Session_Send s b in (Packet_Serialize p, s'))"

definition receive :: "Session \<Rightarrow> byte list \<Rightarrow> Session" where
  "receive s d = (case ParsePacket d of Inl _ \<Rightarrow> s | Inr p \<Rightarrow> snd (Session_Recv s p))"

definition datagram_bytes :: "byte list \<Rightarrow> nat" where
  "datagram_bytes d = length d - HeaderSize"

inductive link_step :: "link \<Rightarrow> link \<Rightarrow> bool" where
  a_sends: "wf_body b \<Longrightarrow> transmit (l_a l) b = (d, s) \<Longrightarrow>
     link_step l (l\<lparr>l_a := s, l_ab := l_ab l @ [d], l_sent_a := l_sent_a l + Body_Len b\<rparr>)"
| b_sends: "wf_body b \<Longrightarrow> transmit (l_b l) b = (d, s) \<Longrightarrow>
     link_step l (l\<lparr>l_b := s, l_ba := l_ba l @ [d], l_sent_b := l_sent_b l + Body_Len b\<rparr>)"
| b_receives: "l_ab l = xs @ d # ys \<Longrightarrow>
     link_step l (l\<lparr>l_b := receive (l_b l) d, l_ab := xs @ ys, l_got_b := l_got_b l + datagram_bytes d\<rparr>)"
| a_receives: "l_ba l = xs @ d # ys \<Longrightarrow>
     link_step l (l\<lparr>l_a := receive (l_a l) d, l_ba := xs @ ys, l_got_a := l_got_a l + datagram_bytes d\<rparr>)"
| ab_loses: "l_ab l = xs @ d # ys \<Longrightarrow>
     link_step l (l\<lparr>l_ab := xs @ ys, l_lost_ab := l_lost_ab l + datagram_bytes d\<rparr>)"
| ba_loses: "l_ba l = xs @ d # ys \<Longrightarrow>
     link_step l (l\<lparr>l_ba := xs @ ys, l_lost_ba := l_lost_ba l + datagram_bytes d\<rparr>)"

inductive link_reachable :: "link \<Rightarrow> bool" where
  start: "link_reachable link_init"
| step: "link_reachable l \<Longrightarrow> link_step l l' \<Longrightarrow> link_reachable l'"

definition flight_bytes :: "byte list list \<Rightarrow> nat" where
  "flight_bytes ds = sum_list (map datagram_bytes ds)"

definition wire_packet :: "byte list \<Rightarrow> bool" where
  "wire_packet d \<longleftrightarrow>
     (case ParsePacket d of Inl _ \<Rightarrow> False | Inr p \<Rightarrow> Body_Len (p_Body p) = datagram_bytes d)"

definition link_inv :: "link \<Rightarrow> bool" where
  "link_inv l \<longleftrightarrow>
     list_all wire_packet (l_ab l) \<and> list_all wire_packet (l_ba l) \<and>
     s_sent (l_a l) = of_nat (l_sent_a l) \<and> s_recv (l_b l) = of_nat (l_got_b l) \<and>
     s_sent (l_b l) = of_nat (l_sent_b l) \<and> s_recv (l_a l) = of_nat (l_got_a l) \<and>
     l_sent_a l = l_got_b l + flight_bytes (l_ab l) + l_lost_ab l \<and>
     l_sent_b l = l_got_a l + flight_bytes (l_ba l) + l_lost_ba l"

section \<open>Effect of the operations\<close>

lemma Session_Send_simps [simp]:
  "s_sent (snd (Session_Send s b)) = s_sent s + of_nat (Body_Len b)"
  "s_id (snd (Session_Send s b)) = s_id s + 1"
  "s_count (snd (Session_Send s b)) = s_count s + (if b_Type b = BodyTypeSync then 0 else 1)"
  "s_recv (snd (Session_Send s b)) = s_recv s"
  "s_rmid (snd (Session_Send s b)) = s_rmid s"
  "s_peerSent (snd (Session_Send s b)) = s_peerSent s"
  "s_peerRecv (snd (Session_Send s b)) = s_peerRecv s"
  "s_peerRMID (snd (Session_Send s b)) = s_peerRMID s"
  "p_Body (fst (Session_Send s b)) = b"
  "h_Sent (p_Header (fst (Session_Send s b))) = s_sent s"
  "h_Recv (p_Header (fst (Session_Send s b))) = s_recv s"
  "h_LMID (p_Header (fst (Session_Send s b))) = s_id s"
  "h_RMID (p_Header (fst (Session_Send s b))) = s_rmid s"
  by (simp_all add: Session_Send_def Let_def NewPacket_def split: BodyType.splits)

lemma Session_Send_PID [simp]:
  "h_PID (p_Header (fst (Session_Send s b))) =
     (if b_Type b = BodyTypeSync then 0x0002FFFF else 0x0000FFFF - (s_count s AND 0xFFFF))"
  by (simp add: Session_Send_def Let_def NewPacket_def split: BodyType.splits)

lemma Session_Recv_simps [simp]:
  "fst (Session_Recv s p) = p"
  "s_recv (snd (Session_Recv s p)) = s_recv s + of_nat (Body_Len (p_Body p))"
  "s_rmid (snd (Session_Recv s p)) = h_LMID (p_Header p)"
  "s_peerSent (snd (Session_Recv s p)) = h_Sent (p_Header p)"
  "s_peerRecv (snd (Session_Recv s p)) = h_Recv (p_Header p)"
  "s_peerRMID (snd (Session_Recv s p)) = h_RMID (p_Header p)"
  "s_sent (snd (Session_Recv s p)) = s_sent s"
  "s_id (snd (Session_Recv s p)) = s_id s"
  "s_count (snd (Session_Recv s p)) = s_count s"
  by (simp_all add: Session_Recv_def Let_def)

lemma send_all_Cons:
  "send_all s (b # bs) =
     (fst (Session_Send s b) # fst (send_all (snd (Session_Send s b)) bs),
      snd (send_all (snd (Session_Send s b)) bs))"
  by (simp add: case_prod_beta Let_def)

declare send_all.simps(2) [simp del]

lemma length_send_all [simp]: "length (fst (send_all s bs)) = length bs"
  by (induction bs arbitrary: s) (simp_all add: send_all_Cons)

lemma non_sync_simps [simp]:
  "non_sync [] = 0" "non_sync (b # bs) = (if b_Type b = BodyTypeSync then 0 else 1) + non_sync bs"
  "non_sync (xs @ ys) = non_sync xs + non_sync ys"
  by (simp_all add: non_sync_def)

lemma body_bytes_simps [simp]:
  "body_bytes [] = 0" "body_bytes (b # bs) = Body_Len b + body_bytes bs"
  "body_bytes (xs @ ys) = body_bytes xs + body_bytes ys"
  by (simp_all add: body_bytes_def)

text \<open>The \<open>i\<close>-th packet of a run is what \<open>Send\<close> makes of the session after the first \<open>i\<close> sends.\<close>

lemma send_all_nth:
  "i < length bs \<Longrightarrow> fst (send_all s bs) ! i = fst (Session_Send (snd (send_all s (take i bs))) (bs ! i))"
proof (induction bs arbitrary: s i)
  case (Cons b bs)
  then show ?case by (cases i) (simp_all add: send_all_Cons)
qed simp

lemma send_all_session [simp]:
  "s_sent (snd (send_all s bs)) = s_sent s + of_nat (body_bytes bs)"
  "s_id (snd (send_all s bs)) = s_id s + of_nat (length bs)"
  "s_count (snd (send_all s bs)) = s_count s + of_nat (non_sync bs)"
  "s_recv (snd (send_all s bs)) = s_recv s"
  "s_rmid (snd (send_all s bs)) = s_rmid s"
  by (induction bs arbitrary: s) (simp_all add: send_all_Cons algebra_simps)

lemma unat_mask16: "unat ((w :: u32) AND 0xFFFF) = unat w mod 65536"
proof -
  have "w AND 0xFFFF = take_bit 16 w"
    by (simp add: take_bit_eq_mask mask_eq_exp_minus_1)
  moreover have "unat (take_bit 16 w) = take_bit 16 (unat w)"
    by (simp add: unsigned_take_bit_eq)
  ultimately show ?thesis by (simp add: take_bit_nat_def)
qed

lemma pid_eq_iff:
  "0xFFFF - ((c :: u32) AND 0xFFFF) = 0xFFFF - (d AND 0xFFFF) \<longleftrightarrow>
     unat c mod 65536 = unat d mod 65536"
proof -
  have "0xFFFF - (c AND 0xFFFF) = 0xFFFF - (d AND 0xFFFF) \<longleftrightarrow> c AND 0xFFFF = d AND 0xFFFF"
    by simp
  also have "\<dots> \<longleftrightarrow> unat (c AND 0xFFFF) = unat (d AND 0xFFFF)"
    by (simp add: word_unat_eq_iff)
  finally show ?thesis by (simp only: unat_mask16)
qed

lemma unat_pid: "unat (0xFFFF - ((c :: u32) AND 0xFFFF)) = 0xFFFF - unat c mod 65536"
  using unat_mask16 [of c] by (subst unat_sub) (auto simp: word_le_nat_alt)

lemma unat_add_of_nat_mod: "unat (c + of_nat n :: u32) mod 65536 = (unat c + n) mod 65536"
proof -
  have "unat (c + of_nat n :: u32) = (unat c + n) mod 2 ^ 32"
    by (simp add: unat_word_ariths unat_of_nat mod_simps)
  then show ?thesis by (simp add: mod_mod_cancel)
qed

lemma pid_repeat:
  "0xFFFF - ((c :: u32) AND 0xFFFF) = 0xFFFF - ((c + of_nat n) AND 0xFFFF) \<longleftrightarrow> 65536 dvd n"
proof -
  have "(unat c + n) mod 65536 = unat c mod 65536 \<longleftrightarrow> 65536 dvd unat c + n - unat c"
    by (rule mod_eq_dvd_iff_nat) simp
  then show ?thesis unfolding pid_eq_iff unat_add_of_nat_mod by auto
qed

lemma delta_exact:
  assumes "- (2 ^ 31) \<le> d" "d < 2 ^ 31"
  shows "delta (b + of_int d) b = d"
proof -
  have "sint (of_int d :: u32) = signed_take_bit 31 d"
    by (simp add: sint_sbintrunc')
  also have "\<dots> = d" using assms by (simp add: signed_take_bit_int_eq_self)
  finally show ?thesis by (simp add: delta_def)
qed

lemma transmit_simps: "transmit s b = (Packet_Serialize (fst (Session_Send s b)), snd (Session_Send s b))"
  by (simp add: transmit_def case_prod_beta Let_def)

lemma receive_transmit:
  "wf_body b \<Longrightarrow> receive r (fst (transmit s b)) = snd (Session_Recv r (fst (Session_Send s b)))"
  by (simp add: receive_def transmit_simps ptcp.parse_ser)

lemma datagram_bytes_transmit: "datagram_bytes (fst (transmit s b)) = Body_Len b"
  by (simp add: transmit_simps datagram_bytes_def Packet_Serialize_layout length_Body_Serialize)

lemma wire_packet_transmit: "wf_body b \<Longrightarrow> wire_packet (fst (transmit s b))"
  using datagram_bytes_transmit [of s b]
  by (simp add: wire_packet_def transmit_simps ptcp.parse_ser)

lemma flight_bytes_simps [simp]:
  "flight_bytes [] = 0" "flight_bytes (d # ds) = datagram_bytes d + flight_bytes ds"
  "flight_bytes (xs @ ys) = flight_bytes xs + flight_bytes ys"
  by (simp_all add: flight_bytes_def)

lemma receive_recv: "wire_packet d \<Longrightarrow> s_recv (receive s d) = s_recv s + of_nat (datagram_bytes d)"
  by (auto simp: wire_packet_def receive_def split: sum.splits)

lemma receive_sent [simp]: "s_sent (receive s d) = s_sent s" "s_id (receive s d) = s_id s"
  by (auto simp: receive_def split: sum.splits)

lemma link_step_inv: "link_step l l' \<Longrightarrow> link_inv l \<Longrightarrow> link_inv l'"
proof (induction rule: link_step.induct)
  case (a_sends b l d s)
  then show ?case
    using wire_packet_transmit [of b "l_a l"] datagram_bytes_transmit [of "l_a l" b]
    by (auto simp: link_inv_def transmit_simps)
next
  case (b_sends b l d s)
  then show ?case
    using wire_packet_transmit [of b "l_b l"] datagram_bytes_transmit [of "l_b l" b]
    by (auto simp: link_inv_def transmit_simps)
qed (auto simp: link_inv_def receive_recv)

lemma link_inv_init: "link_inv link_init"
  by (simp add: link_inv_def link_init_def NewSession_def)

lemma reachable_link_inv: "link_reachable l \<Longrightarrow> link_inv l"
  by (induction rule: link_reachable.induct) (auto simp: link_inv_init intro: link_step_inv)

lemma reachable_link_run: "link_step\<^sup>*\<^sup>* l l' \<Longrightarrow> link_reachable l \<Longrightarrow> link_reachable l'"
  by (induction rule: rtranclp_induct) (auto intro: link_reachable.step)

lemma link_run_mono: "link_step\<^sup>*\<^sup>* l l' \<Longrightarrow> l_got_b l \<le> l_got_b l' \<and> l_sent_b l \<le> l_sent_b l'"
proof (induction rule: rtranclp_induct)
  case (step u v)
  from step(2) have "l_got_b u \<le> l_got_b v \<and> l_sent_b u \<le> l_sent_b v" by cases simp_all
  then show ?case using step(3) by simp
qed simp

lemma delta_nats:
  assumes "int m < int n + 2 ^ 31" "int n \<le> int m + 2 ^ 31"
  shows "delta (of_nat m) (of_nat n) = int m - int n"
  using delta_exact [of "int m - int n" "of_nat n"] assms by simp

section \<open>Properties\<close>

text \<open>
  (C30) Consecutive sends are numbered consecutively: the \<open>i\<close>-th packet carries the session's
  message counter plus \<open>i\<close> (modulo \<open>2\<^sup>3\<^sup>2\<close>) and the number of body bytes sent before it, and its
  acknowledgement fields are those of the last packet received.
\<close>

theorem send_sequence:
  assumes "i < length bs"
  shows "let h = p_Header (fst (send_all s bs) ! i) in
      h_LMID h = s_id s + of_nat i \<and>
      h_Sent h = s_sent s + of_nat (body_bytes (take i bs)) \<and>
      h_Recv h = s_recv s \<and> h_RMID h = s_rmid s"
  using assms by (simp add: send_all_nth Let_def)

theorem send_sequence_witness:
  "let h = p_Header (fst (send_all NewSession [NewSyncBody, NewHeartbeatBody, NewEmptyBody]) ! 2)
   in h_LMID h = 2 \<and> h_Sent h = 16"
  using send_sequence [of 2 "[NewSyncBody, NewHeartbeatBody, NewEmptyBody]" NewSession]
  by (simp add: Let_def NewSession_def)

text \<open>
  Two packets other than SYNC of one session have the same PID exactly when the number of
  such packets from the first up to the second is a multiple of 65536; so any 65536 consecutive
  ones have distinct PIDs, and no PID ever exceeds \<open>0xFFFF\<close>.
\<close>

theorem pid_window:
  assumes "i < j" "j < length bs"
    and "b_Type (bs ! i) \<noteq> BodyTypeSync" "b_Type (bs ! j) \<noteq> BodyTypeSync"
  shows "let pid = (\<lambda>k. h_PID (p_Header (fst (send_all s bs) ! k)));
             n = non_sync (take (j - i) (drop i bs)) in
      (pid i = pid j \<longleftrightarrow> 65536 dvd n) \<and> (n < 65536 \<longrightarrow> pid i \<noteq> pid j) \<and>
      unat (pid i) \<le> 0xFFFF \<and> unat (pid j) \<le> 0xFFFF"
proof -
  let ?n = "non_sync (take (j - i) (drop i bs))"
  let ?c = "s_count s + of_nat (non_sync (take i bs))"
  have split: "take j bs = take i bs @ take (j - i) (drop i bs)"
    using assms(1) take_add [of i "j - i" bs] by simp
  have eq: "0xFFFF - (?c AND 0xFFFF) = 0xFFFF - ((?c + of_nat ?n) AND 0xFFFF) \<longleftrightarrow> 65536 dvd ?n"
    by (rule pid_repeat)
  have "take (j - i) (drop i bs) = bs ! i # take (j - i - 1) (drop (Suc i) bs)"
    using assms(1,2) Cons_nth_drop_Suc [of i bs] by (metis less_trans take_Cons' zero_less_diff not_gr0)
  then have pos: "0 < ?n" using assms(3) by simp
  have pi: "h_PID (p_Header (fst (send_all s bs) ! i)) = 0xFFFF - (?c AND 0xFFFF)"
    using assms by (simp add: send_all_nth)
  have pj: "h_PID (p_Header (fst (send_all s bs) ! j)) = 0xFFFF - ((?c + of_nat ?n) AND 0xFFFF)"
    using assms(2,4) by (simp add: send_all_nth split add.assoc)
  show ?thesis
    unfolding Let_def pi pj using eq pos by (auto simp only: unat_pid dest: dvd_imp_le)
qed

theorem pid_window_witness:
  "let bs = [NewHeartbeatBody, NewSyncBody, NewEmptyBody];
       pid = (\<lambda>k. h_PID (p_Header (fst (send_all NewSession bs) ! k)))
   in b_Type (bs ! 0) \<noteq> BodyTypeSync \<and> b_Type (bs ! 2) \<noteq> BodyTypeSync \<and> pid 0 \<noteq> pid 2 \<and>
      unat (pid 0) \<le> 0xFFFF"
  using pid_window [of 0 2 "[NewHeartbeatBody, NewSyncBody, NewEmptyBody]" NewSession]
  by (simp add: Let_def numeral_2_eq_2)

text \<open>
  The signed difference of two wrapping counters is exact whenever the true difference fits
  in 32 bits with sign, also when a counter has wrapped or has run ahead.
\<close>

theorem counter_delta:
  assumes "- (2 ^ 31) \<le> d" and "d < 2 ^ 31"
  shows "delta (b + of_int d) b = d"
  using assms by (rule delta_exact)

theorem counter_delta_witness: "delta (5 + of_int (- 1292)) 5 = - 1292"
  by (rule counter_delta) simp_all

text \<open>
  (C21) What the statistics measure, over a link that delays, reorders and loses datagrams: \<open>B\<close> sends a
  packet in the state \<open>l0\<close>, anything may happen, and when the packet arrives at \<open>A\<close>, in the state \<open>l'\<close>,
  \<open>OutBytes\<close> is the number of body bytes still under way to \<open>B\<close> or lost for good plus those \<open>B\<close> has
  received since it sent the packet, so it never understates the former; and \<open>InBytes\<close> is the number
  of bytes under way to \<open>A\<close> or lost less those \<open>B\<close> has sent since \<open>l0\<close>, this packet included, so it never
  overstates the former.
\<close>

theorem loss_measured:
  assumes "link_reachable l0" "wf_body b" "transmit (l_b l0) b = (d, s)"
    and "link_step\<^sup>*\<^sup>* (l0\<lparr>l_b := s, l_ba := l_ba l0 @ [d], l_sent_b := l_sent_b l0 + Body_Len b\<rparr>) l"
    and "l_ba l = xs @ d # ys"
    and "l' = l\<lparr>l_a := receive (l_a l) d, l_ba := xs @ ys, l_got_a := l_got_a l + datagram_bytes d\<rparr>"
    and "l_sent_a l' < l_got_b l0 + 2 ^ 31" "l_sent_b l0 < l_got_a l' + 2 ^ 31" "l_got_a l' \<le> l_sent_b l0 + 2 ^ 31"
  shows "let st = Session_Stats (l_a l') in
      OutBytes st = int (flight_bytes (l_ab l') + l_lost_ab l') + (int (l_got_b l') - int (l_got_b l0)) \<and>
      int (flight_bytes (l_ab l') + l_lost_ab l') \<le> OutBytes st \<and>
      InBytes st = int (flight_bytes (l_ba l') + l_lost_ba l') - (int (l_sent_b l') - int (l_sent_b l0)) \<and>
      InBytes st + int (Body_Len b) \<le> int (flight_bytes (l_ba l') + l_lost_ba l')"
proof -
  let ?l1 = "l0\<lparr>l_b := s, l_ba := l_ba l0 @ [d], l_sent_b := l_sent_b l0 + Body_Len b\<rparr>"
  have "link_reachable ?l1" using assms(1) link_step.b_sends [OF assms(2,3)] by (rule link_reachable.step)
  then have "link_reachable l" using assms(4) reachable_link_run by blast
  then have "link_reachable l'"
    using link_step.a_receives [OF assms(5)] unfolding assms(6) by (rule link_reachable.step)
  then have inv: "link_inv l0" "link_inv l'" using assms(1) reachable_link_inv by blast+
  have r: "l_a l' = snd (Session_Recv (l_a l) (fst (Session_Send (l_b l0) b)))"
    using receive_transmit [OF assms(2), of "l_a l" "l_b l0"] assms(3) by (simp add: assms(6))
  have mono: "l_got_b l0 \<le> l_got_b l'" "l_sent_b l0 + Body_Len b \<le> l_sent_b l'"
    using link_run_mono [OF assms(4)] by (simp_all add: assms(6))
  have st: "s_peerRecv (l_a l') = of_nat (l_got_b l0)" "s_peerSent (l_a l') = of_nat (l_sent_b l0)"
    using inv(1) by (simp_all add: r link_inv_def)
  have own: "s_sent (l_a l') = of_nat (l_sent_a l')" "s_recv (l_a l') = of_nat (l_got_a l')"
    "l_sent_a l' = l_got_b l' + flight_bytes (l_ab l') + l_lost_ab l'" "l_sent_b l' = l_got_a l' + flight_bytes (l_ba l') + l_lost_ba l'"
    using inv(2) by (simp_all add: link_inv_def)
  have "OutBytes (Session_Stats (l_a l')) = delta (of_nat (l_sent_a l')) (of_nat (l_got_b l0))"
    "InBytes (Session_Stats (l_a l')) = delta (of_nat (l_sent_b l0)) (of_nat (l_got_a l'))"
    by (simp_all add: OutBytes_def InBytes_def Session_Stats_def st own(1,2))
  moreover have "delta (of_nat (l_sent_a l')) (of_nat (l_got_b l0)) = int (l_sent_a l') - int (l_got_b l0)"
    using assms(7) mono(1) own(3) by (intro delta_nats) simp_all
  moreover have "delta (of_nat (l_sent_b l0)) (of_nat (l_got_a l')) = int (l_sent_b l0) - int (l_got_a l')"
    using assms(8,9) by (intro delta_nats) simp_all
  ultimately show ?thesis using own(3,4) mono by (simp add: Let_def)
qed

theorem loss_measured_witness:
  "\<exists>l'. link_reachable l' \<and> l_lost_ab l' = 12 \<and> OutBytes (Session_Stats (l_a l')) = 12 \<and> InBytes (Session_Stats (l_a l')) = 0"
proof -
  obtain d0 s0 where t0: "transmit NewSession NewHeartbeatBody = (d0, s0)" by fastforce
  let ?l1 = "link_init\<lparr>l_a := s0, l_ab := [d0], l_sent_a := 12\<rparr>"
  let ?l2 = "?l1\<lparr>l_ab := [], l_lost_ab := 12\<rparr>"
  have d0: "datagram_bytes d0 = 12"
    using datagram_bytes_transmit [of NewSession NewHeartbeatBody] t0 by simp
  have "link_step link_init ?l1"
    using link_step.a_sends [of NewHeartbeatBody link_init d0 s0] t0 by (simp add: link_init_def)
  then have r1: "link_reachable ?l1" using link_reachable.step [OF link_reachable.start] by blast
  have "link_step ?l1 (?l1\<lparr>l_ab := [] @ [], l_lost_ab := l_lost_ab ?l1 + datagram_bytes d0\<rparr>)"
    by (rule link_step.ab_loses) simp
  then have r2: "link_reachable ?l2"
    using link_reachable.step [OF r1] by (simp add: d0 link_init_def)
  obtain d s where t: "transmit (l_b ?l2) NewEmptyBody = (d, s)" by fastforce
  let ?l3 = "?l2\<lparr>l_b := s, l_ba := l_ba ?l2 @ [d], l_sent_b := l_sent_b ?l2 + Body_Len NewEmptyBody\<rparr>"
  let ?l4 = "?l3\<lparr>l_a := receive (l_a ?l3) d, l_ba := [] @ [], l_got_a := l_got_a ?l3 + datagram_bytes d\<rparr>"
  have ba: "l_ba ?l3 = [] @ d # []" by (simp add: link_init_def)
  have "link_reachable ?l3" using r2 link_step.b_sends [OF _ t] by (rule link_reachable.step) simp
  then have r4: "link_reachable ?l4" using link_step.a_receives [OF ba] by (rule link_reachable.step)
  have "datagram_bytes d = 0" using datagram_bytes_transmit [of "l_b ?l2" NewEmptyBody] t by simp
  then have "OutBytes (Session_Stats (l_a ?l4)) = 12 \<and> InBytes (Session_Stats (l_a ?l4)) = 0"
    using loss_measured [OF r2 _ t rtranclp.rtrancl_refl ba refl] by (simp add: link_init_def Let_def)
  moreover have "l_lost_ab ?l4 = 12" by simp
  ultimately show ?thesis using r4 by blast
qed

end
