(* ===== verification/Dh_Udp.thy ===== *)
theory Dh_Udp
  imports Prelude
begin

text \<open>
  The UDP client of \<^verbatim>\<open>dh/protocol.go\<close>: a socket, the remote address it is connected to, and the
  send and receive operations the handshake and the tunnel use. The socket is the boundary to
  the operating system: its record holds the datagrams written so far and the outcomes of the
  writes and reads to come, over which every statement quantifies.
\<close>

section \<open>Addresses\<close>

record UDPAddr =
  a_IP :: "byte list"
  a_Port :: int

definition v4InV6Prefix :: "byte list" where
  "v4InV6Prefix = replicate 10 0 @ [0xff, 0xff]"

text \<open>\<open>net.IP.Equal\<close>: an IPv4 address and its IPv6-mapped form are equal.\<close>

definition IP_Equal :: "byte list \<Rightarrow> byte list \<Rightarrow> bool" where
  "IP_Equal ip x =
     (if length ip = length x then ip = x
      else if length ip = 4 \<and> length x = 16 then take 12 x = v4InV6Prefix \<and> ip = drop 12 x
      else if length ip = 16 \<and> length x = 4 then take 12 ip = v4InV6Prefix \<and> drop 12 ip = x
      else False)"

definition sameUDPAddr :: "UDPAddr option \<Rightarrow> UDPAddr option \<Rightarrow> bool" where
  "sameUDPAddr a b =
     (case (a, b) of
        (Some a, Some b) \<Rightarrow> a_Port a = a_Port b \<and> IP_Equal (a_IP a) (a_IP b)
      | _ \<Rightarrow> False)"

section \<open>Sockets\<close>

datatype net_error = NetTimeout | NetClosed | NetNotConnected | NetOther string

text \<open>
  \<open>k_out\<close> are the datagrams written, oldest first; \<open>k_wfaults\<close> the outcomes of the coming writes
  (success when exhausted); \<open>k_in\<close> the outcomes of the coming reads (the read deadline passes
  when exhausted).
\<close>

record socket =
  k_open :: bool
  k_out :: "(byte list \<times> UDPAddr) list"
  k_wfaults :: "net_error option list"
  k_in :: "(net_error + byte list \<times> UDPAddr) list"
  k_rdeadline :: time
  k_wdeadline :: time

definition WriteToUDP :: "socket \<Rightarrow> byte list \<Rightarrow> UDPAddr \<Rightarrow> net_error option \<times> socket" where
  "WriteToUDP k data addr =
     (if \<not> k_open k then (Some NetClosed, k)
      else case k_wfaults k of
        Some e # fs \<Rightarrow> (Some e, k\<lparr>k_wfaults := fs\<rparr>)
      | _ \<Rightarrow> (None, k\<lparr>k_wfaults := tl (k_wfaults k), k_out := k_out k @ [(data, addr)]\<rparr>))"

definition ReadFromUDP :: "nat \<Rightarrow> socket \<Rightarrow> (net_error + byte list \<times> UDPAddr) \<times> socket" where
  "ReadFromUDP n k =
     (if \<not> k_open k then (Inl NetClosed, k)
      else case k_in k of
        [] \<Rightarrow> (Inl NetTimeout, k)
      | Inl e # rest \<Rightarrow> (Inl e, k\<lparr>k_in := rest\<rparr>)
      | Inr (data, addr) # rest \<Rightarrow> (Inr (take n data, addr), k\<lparr>k_in := rest\<rparr>))"

definition SetReadDeadline :: "socket \<Rightarrow> time \<Rightarrow> net_error option \<times> socket" where
  "SetReadDeadline k t = (if k_open k then (None, k\<lparr>k_rdeadline := t\<rparr>) else (Some NetClosed, k))"

definition SetWriteDeadline :: "socket \<Rightarrow> time \<Rightarrow> net_error option \<times> socket" where
  "SetWriteDeadline k t = (if k_open k then (None, k\<lparr>k_wdeadline := t\<rparr>) else (Some NetClosed, k))"

definition CloseUDP :: "socket \<Rightarrow> net_error option \<times> socket" where
  "CloseUDP k = (if k_open k then (None, k\<lparr>k_open := False\<rparr>) else (Some NetClosed, k))"

section \<open>The client\<close>

record UDPClient =
  u_conn :: socket
  u_laddr :: UDPAddr
  u_raddr :: "UDPAddr option"
  u_timeout :: duration
  u_cseq :: u32

definition LocalPort :: "UDPClient \<Rightarrow> int" where
  "LocalPort c = a_Port (u_laddr c)"

text \<open>\<open>resolve\<close> stands for \<open>net.ResolveUDPAddr\<close> on \<open>net.JoinHostPort(host, port)\<close>.\<close>

definition UDP_Connect ::
    "(string \<Rightarrow> int \<Rightarrow> net_error + UDPAddr) \<Rightarrow> UDPClient \<Rightarrow> string \<Rightarrow> int \<Rightarrow> net_error option \<times> UDPClient" where
  "UDP_Connect resolve c host port =
     (case resolve host port of
        Inl e \<Rightarrow> (Some e, c)
      | Inr raddr \<Rightarrow> (None, c\<lparr>u_raddr := Some raddr\<rparr>))"

definition UDP_Close :: "UDPClient \<Rightarrow> net_error option \<times> UDPClient" where
  "UDP_Close c = (let (e, k) = CloseUDP (u_conn c) in (e, c\<lparr>u_conn := k\<rparr>))"

definition UDP_Send :: "UDPClient \<Rightarrow> byte list \<Rightarrow> net_error option \<times> UDPClient" where
  "UDP_Send c data =
     (case u_raddr c of
        None \<Rightarrow> (Some NetNotConnected, c)
      | Some raddr \<Rightarrow> (let (e, k) = WriteToUDP (u_conn c) data raddr in (e, c\<lparr>u_conn := k\<rparr>)))"

definition UDP_SendTo :: "UDPClient \<Rightarrow> byte list \<Rightarrow> UDPAddr \<Rightarrow> net_error option \<times> UDPClient" where
  "UDP_SendTo c data addr = (let (e, k) = WriteToUDP (u_conn c) data addr in (e, c\<lparr>u_conn := k\<rparr>))"

definition UDP_SetWriteDeadline :: "UDPClient \<Rightarrow> time \<Rightarrow> net_error option \<times> UDPClient" where
  "UDP_SetWriteDeadline c t = (let (e, k) = SetWriteDeadline (u_conn c) t in (e, c\<lparr>u_conn := k\<rparr>))"

definition recv_buffer :: nat where
  "recv_buffer = 65535"

definition UDP_RecvFrom ::
    "int \<Rightarrow> UDPClient \<Rightarrow> duration \<Rightarrow> (net_error + byte list \<times> UDPAddr) \<times> UDPClient" where
  "UDP_RecvFrom now c timeout =
     (if timeout > 0 then
        (case SetReadDeadline (u_conn c) (Some (now + timeout)) of
           (Some e, k) \<Rightarrow> (Inl e, c\<lparr>u_conn := k\<rparr>)
         | (None, k) \<Rightarrow>
             (let (r, k) = ReadFromUDP recv_buffer k
              in (r, c\<lparr>u_conn := snd (SetReadDeadline k None)\<rparr>)))
      else (let (r, k) = ReadFromUDP recv_buffer (u_conn c) in (r, c\<lparr>u_conn := k\<rparr>)))"

text \<open>
  The receive loop of \<open>Recv\<close>: datagrams from other addresses are dropped. Each turn consumes one
  outcome of \<open>k_in\<close> or returns.
\<close>

function recv_loop :: "UDPAddr option \<Rightarrow> socket \<Rightarrow> (net_error + byte list) \<times> socket" where
  "recv_loop raddr k =
     (case ReadFromUDP recv_buffer k of
        (Inl e, k') \<Rightarrow> (Inl e, k')
      | (Inr (data, addr), k') \<Rightarrow>
          if sameUDPAddr (Some addr) raddr then (Inr data, k') else recv_loop raddr k')"
  by pat_completeness auto
termination
  by (relation "measure (\<lambda>(raddr, k). length (k_in k))")
    (auto simp: ReadFromUDP_def split: if_splits list.splits sum.splits)

definition UDP_Recv :: "int \<Rightarrow> UDPClient \<Rightarrow> duration \<Rightarrow> (net_error + byte list) \<times> UDPClient" where
  "UDP_Recv now c timeout =
     (if timeout > 0 then
        (case SetReadDeadline (u_conn c) (Some (now + timeout)) of
           (Some e, k) \<Rightarrow> (Inl e, c\<lparr>u_conn := k\<rparr>)
         | (None, k) \<Rightarrow>
             (let (r, k) = recv_loop (u_raddr c) k
              in (r, c\<lparr>u_conn := snd (SetReadDeadline k None)\<rparr>)))
      else (let (r, k) = recv_loop (u_raddr c) (u_conn c) in (r, c\<lparr>u_conn := k\<rparr>)))"

definition UDP_ReadRaw :: "int \<Rightarrow> UDPClient \<Rightarrow> duration \<Rightarrow> (net_error + byte list) \<times> UDPClient" where
  "UDP_ReadRaw now c timeout = UDP_Recv now c timeout"

text \<open>
  What the receive loop consumes, as a scan of the outcomes: datagrams of strangers, then either a
  datagram of the peer, which it returns, or a read error.
\<close>

definition stranger :: "UDPAddr option \<Rightarrow> net_error + byte list \<times> UDPAddr \<Rightarrow> bool" where
  "stranger raddr x = (case x of Inl _ \<Rightarrow> False | Inr (_, a) \<Rightarrow> \<not> sameUDPAddr (Some a) raddr)"

fun scan_inbox ::
    "UDPAddr option \<Rightarrow> (net_error + byte list \<times> UDPAddr) list \<Rightarrow>
       (net_error + byte list) \<times> (net_error + byte list \<times> UDPAddr) list" where
  "scan_inbox raddr [] = (Inl NetTimeout, [])"
| "scan_inbox raddr (Inl e # xs) = (Inl e, xs)"
| "scan_inbox raddr (Inr (d, a) # xs) =
     (if sameUDPAddr (Some a) raddr then (Inr (take recv_buffer d), xs) else scan_inbox raddr xs)"

declare recv_loop.simps [simp del]

section \<open>Effect of the operations\<close>

lemma sameUDPAddr_Some [simp]:
  "sameUDPAddr (Some a) (Some b) \<longleftrightarrow> a_Port a = a_Port b \<and> IP_Equal (a_IP a) (a_IP b)"
  "\<not> sameUDPAddr None x" "\<not> sameUDPAddr x None"
  by (auto simp: sameUDPAddr_def split: option.splits)

lemma IP_Equal_refl [simp]: "IP_Equal ip ip"
  by (simp add: IP_Equal_def)

lemma IP_Equal_sym: "IP_Equal x y \<longleftrightarrow> IP_Equal y x"
  by (auto simp: IP_Equal_def)

lemma IP_Equal_trans: "IP_Equal x y \<Longrightarrow> IP_Equal y z \<Longrightarrow> IP_Equal x z"
  by (auto simp: IP_Equal_def v4InV6Prefix_def split: if_splits)
    (metis append_take_drop_id)+

lemma sameUDPAddr_sym: "sameUDPAddr a b \<longleftrightarrow> sameUDPAddr b a"
  by (auto simp: sameUDPAddr_def IP_Equal_sym split: option.splits)

lemma WriteToUDP_effect:
  assumes "WriteToUDP k data addr = (e, k')"
  shows "k_open k' = k_open k" "k_in k' = k_in k" "k_wdeadline k' = k_wdeadline k"
    "e = None \<Longrightarrow> k_out k' = k_out k @ [(data, addr)]" "e \<noteq> None \<Longrightarrow> k_out k' = k_out k"
    "\<not> k_open k \<Longrightarrow> e = Some NetClosed"
  using assms by (auto simp: WriteToUDP_def split: if_splits list.splits option.splits)

lemma SetReadDeadline_effect:
  assumes "SetReadDeadline k t = (e, k')"
  shows "k_open k' = k_open k" "k_in k' = k_in k" "k_out k' = k_out k"
    "e = (if k_open k then None else Some NetClosed)"
  using assms by (auto simp: SetReadDeadline_def split: if_splits)

lemma stranger_simps [simp]:
  "\<not> stranger raddr (Inl e)" "stranger raddr (Inr (d, a)) \<longleftrightarrow> \<not> sameUDPAddr (Some a) raddr"
  by (simp_all add: stranger_def)

lemma recv_loop_scan:
  "k_open k \<Longrightarrow> recv_loop raddr k =
     (fst (scan_inbox raddr (k_in k)), k\<lparr>k_in := snd (scan_inbox raddr (k_in k))\<rparr>)"
proof (induction "k_in k" arbitrary: k)
  case Nil
  then show ?case by (simp add: recv_loop.simps [of raddr k] ReadFromUDP_def)
next
  case (Cons x xs)
  have "recv_loop raddr (k\<lparr>k_in := xs\<rparr>) =
      (fst (scan_inbox raddr xs), k\<lparr>k_in := snd (scan_inbox raddr xs)\<rparr>)"
    using Cons.hyps(1) [of "k\<lparr>k_in := xs\<rparr>"] Cons.prems by simp
  then show ?case
    using Cons.hyps(2) [symmetric] Cons.prems
    by (cases x) (auto simp: recv_loop.simps [of raddr k] ReadFromUDP_def simp del: sameUDPAddr_Some)
qed

lemma scan_inbox_Inr:
  "scan_inbox raddr xs = (Inr data, rest) \<Longrightarrow>
     \<exists>skipped d a. xs = skipped @ Inr (d, a) # rest \<and> list_all (stranger raddr) skipped \<and>
       sameUDPAddr (Some a) raddr \<and> data = take recv_buffer d"
proof (induction raddr xs rule: scan_inbox.induct)
  case (3 raddr d a xs)
  show ?case
  proof (cases "sameUDPAddr (Some a) raddr")
    case True
    with "3.prems" show ?thesis by (intro exI [of _ "[]"] exI [of _ d] exI [of _ a]) auto
  next
    case False
    with "3" obtain skipped d' a' where "xs = skipped @ Inr (d', a') # rest"
      "list_all (stranger raddr) skipped" "sameUDPAddr (Some a') raddr" "data = take recv_buffer d'"
      by auto
    with False show ?thesis
      by (intro exI [of _ "Inr (d, a) # skipped"] exI [of _ d'] exI [of _ a']) simp_all
  qed
qed simp_all

section \<open>Properties\<close>

text \<open>
  (C31) Only the connected peer is heard: a successful \<open>Recv\<close> returns the first datagram that came
  from the client's remote address, cut to the 65535-byte buffer, after dropping datagrams of other
  addresses only; and it leaves no read deadline behind.
\<close>

theorem recv_from_peer:
  assumes "UDP_Recv now c timeout = (Inr data, c')" and "0 < timeout"
  shows "\<exists>skipped d a. k_in (u_conn c) = skipped @ Inr (d, a) # k_in (u_conn c') \<and>
    list_all (stranger (u_raddr c)) skipped \<and> sameUDPAddr (Some a) (u_raddr c) \<and>
    data = take 65535 d \<and> u_raddr c' = u_raddr c \<and> k_rdeadline (u_conn c') = None"
proof -
  have op: "k_open (u_conn c)"
    using assms by (auto simp: UDP_Recv_def SetReadDeadline_def split: if_splits)
  then have "scan_inbox (u_raddr c) (k_in (u_conn c)) = (Inr data, k_in (u_conn c'))"
    and c': "u_raddr c' = u_raddr c" "k_rdeadline (u_conn c') = None"
    using assms by (auto simp: UDP_Recv_def SetReadDeadline_def recv_loop_scan prod_eq_iff)
  from scan_inbox_Inr [OF this(1)] c' show ?thesis by (auto simp: recv_buffer_def)
qed

theorem recv_from_peer_witness:
  "let peer = \<lparr>a_IP = [192, 0, 2, 1], a_Port = 8800\<rparr>; other = \<lparr>a_IP = [192, 0, 2, 2], a_Port = 8800\<rparr>;
       k = \<lparr>k_open = True, k_out = [], k_wfaults = [], k_in = [Inr ([1], other), Inr ([2], peer)],
            k_rdeadline = None, k_wdeadline = None\<rparr>;
       c = \<lparr>u_conn = k, u_laddr = other, u_raddr = Some peer, u_timeout = second, u_cseq = 0\<rparr>
   in \<exists>c'. UDP_Recv 0 c second = (Inr [2], c') \<and>
        (\<exists>skipped d a. k_in (u_conn c) = skipped @ Inr (d, a) # k_in (u_conn c') \<and>
           sameUDPAddr (Some a) (u_raddr c) \<and> [2] = take 65535 d)"
proof -
  define peer :: UDPAddr where "peer = \<lparr>a_IP = [192, 0, 2, 1], a_Port = 8800\<rparr>"
  define other :: UDPAddr where "other = \<lparr>a_IP = [192, 0, 2, 2], a_Port = 8800\<rparr>"
  define c where "c = \<lparr>u_conn = \<lparr>k_open = True, k_out = [], k_wfaults = [],
      k_in = [Inr ([1], other), Inr ([2], peer)], k_rdeadline = None, k_wdeadline = None\<rparr>,
    u_laddr = other, u_raddr = Some peer, u_timeout = second, u_cseq = 0\<rparr>"
  have h: "UDP_Recv 0 c second = (Inr [2], c\<lparr>u_conn := (u_conn c)\<lparr>k_in := []\<rparr>\<rparr>)"
    by (simp add: UDP_Recv_def SetReadDeadline_def recv_loop_scan c_def peer_def other_def
        IP_Equal_def recv_buffer_def)
  from recv_from_peer [OF h] h show ?thesis
    unfolding Let_def peer_def [symmetric] other_def [symmetric] c_def [symmetric] by auto
qed

end
