(* ===== verification/Tunnel_State.thy ===== *)
theory Tunnel_State
  imports Ptcp_Session Dh_Udp "HOL-Library.AList"
begin

text \<open>
  The state of a tunnel and of its connections (\<^verbatim>\<open>tunnel/tunnel.go\<close>), the outbound path that
  numbers and writes packets, shutdown and retirement. Connections are shared by the realm table
  and by the callers of \<open>Dial\<close>, so they live in a store and are named by references. Each
  operation is one atomic transition: it runs with the send permit free, as the handlers do
  between the points where they block.
\<close>

section \<open>Constants and errors\<close>

datatype tun_error =
  ErrTunnelClosed | ErrTunnelRetired | ErrDialTimeout | ErrDeadlineExceeded | ErrEOF
| ErrNet net_error

definition maxConsecutiveReadErrors :: nat where
  "maxConsecutiveReadErrors = 10"

definition maxConsecutiveSendErrors :: nat where
  "maxConsecutiveSendErrors = 5"

definition maxMissedHeartbeats :: nat where
  "maxMissedHeartbeats = 24"

definition dataCh_capacity :: nat where
  "dataCh_capacity = 4096"

section \<open>State\<close>

text \<open>
  \<open>c_closeCh\<close> says whether the channel has been closed. A deadline channel is named by its
  number: 0 is nil, and replacing the channel closes the one it replaces, so that a waiter holding
  an older number has been woken.
\<close>

type_synonym conn_ref = nat

record Conn =
  c_realmID :: u32
  c_remotePort :: u32
  c_dataCh :: "byte list list"
  c_closeCh :: bool
  c_closed :: bool
  c_readBuf :: "byte list"
  c_readDeadline :: time
  c_writeDeadline :: time
  c_readDeadlineChanged :: nat
  c_writeDeadlineChanged :: nat

text \<open>
  \<open>tn_realms\<close> is \<open>None\<close> once the map has been set to nil. A map is an association list with distinct
  keys; ranging over it visits the entries in list order, an order no statement relies on. The
  one-element channel a \<open>Dial\<close> attempt makes beside its connection is \<open>tn_grants\<close> at the
  connection's reference. \<open>tn_onCloseRuns\<close> counts the runs of the close callback.
\<close>

record Tunnel =
  tn_client :: UDPClient
  tn_session :: Session
  tn_rtspPort :: u32
  tn_closed :: bool
  tn_retired :: bool
  tn_done :: bool
  tn_activeWriter :: "conn_ref option"
  tn_realms :: "(u32 \<times> conn_ref) list option"
  tn_connCh :: "(u32 \<times> conn_ref) list"
  tn_conns :: "conn_ref \<Rightarrow> Conn"
  tn_next :: conn_ref
  tn_grants :: "conn_ref \<Rightarrow> nat"
  tn_bindFailures :: nat
  tn_heartbeatTicker :: bool
  tn_missedHeartbeats :: nat
  tn_consecutiveReadErrs :: nat
  tn_lastAckTime :: time
  tn_lastDrain :: u32
  tn_lastDrainTime :: time
  tn_ackPending :: bool
  tn_ackTimer :: bool
  tn_consecutiveSendErrs :: nat
  tn_onClose :: bool
  tn_onCloseRuns :: nat

text \<open>\<open>New\<close>, from the point where the handshake has delivered the client and the session.\<close>

definition zero_Conn :: Conn where
  "zero_Conn =
     \<lparr>c_realmID = 0, c_remotePort = 0, c_dataCh = [], c_closeCh = False, c_closed = False,
      c_readBuf = [], c_readDeadline = None, c_writeDeadline = None,
      c_readDeadlineChanged = 0, c_writeDeadlineChanged = 0\<rparr>"

definition Tunnel_New :: "UDPClient \<Rightarrow> Session \<Rightarrow> u32 \<Rightarrow> Tunnel" where
  "Tunnel_New client session rtspPort =
     \<lparr>tn_client = client, tn_session = session, tn_rtspPort = rtspPort,
      tn_closed = False, tn_retired = False, tn_done = False,
      tn_activeWriter = None, tn_realms = Some [], tn_connCh = [],
      tn_conns = (\<lambda>_. zero_Conn), tn_next = 0, tn_grants = (\<lambda>_. 0), tn_bindFailures = 0,
      tn_heartbeatTicker = True, tn_missedHeartbeats = 0, tn_consecutiveReadErrs = 0,
      tn_lastAckTime = None, tn_lastDrain = 0, tn_lastDrainTime = None,
      tn_ackPending = False, tn_ackTimer = False, tn_consecutiveSendErrs = 0,
      tn_onClose = False, tn_onCloseRuns = 0\<rparr>"

definition Tunnel_Stats :: "Tunnel \<Rightarrow> Stats" where
  "Tunnel_Stats t = Session_Stats (tn_session t)"

definition Tunnel_RTSPPort :: "Tunnel \<Rightarrow> u32" where
  "Tunnel_RTSPPort t = tn_rtspPort t"

text \<open>Reading and deleting in a map that may be nil.\<close>

definition realm_lookup :: "Tunnel \<Rightarrow> u32 \<Rightarrow> conn_ref option" where
  "realm_lookup t r = (case tn_realms t of None \<Rightarrow> None | Some m \<Rightarrow> map_of m r)"

definition realm_delete :: "u32 \<Rightarrow> Tunnel \<Rightarrow> Tunnel" where
  "realm_delete r t = t\<lparr>tn_realms := map_option (AList.delete r) (tn_realms t)\<rparr>"

definition connCh_delete :: "u32 \<Rightarrow> Tunnel \<Rightarrow> Tunnel" where
  "connCh_delete r t = t\<lparr>tn_connCh := AList.delete r (tn_connCh t)\<rparr>"

definition update_conn :: "conn_ref \<Rightarrow> (Conn \<Rightarrow> Conn) \<Rightarrow> Tunnel \<Rightarrow> Tunnel" where
  "update_conn c f t = t\<lparr>tn_conns := (tn_conns t)(c := f (tn_conns t c))\<rparr>"

definition ActiveRealms :: "Tunnel \<Rightarrow> nat" where
  "ActiveRealms t = (case tn_realms t of None \<Rightarrow> 0 | Some m \<Rightarrow> length m)"

section \<open>Sending\<close>

definition deadline_passed :: "int \<Rightarrow> time \<Rightarrow> bool" where
  "deadline_passed now d = (case d of None \<Rightarrow> False | Some x \<Rightarrow> x - now \<le> 0)"

text \<open>
  \<open>acquireSendPermit\<close> with the permit free: without a writer it is taken; a writer gets it unless
  its connection or the tunnel is closed or its deadline has passed. The wait for a permit another
  goroutine holds is not modelled: a send is one transition, and between transitions there is no
  active writer.
\<close>

definition acquireSendPermit :: "int \<Rightarrow> conn_ref option \<Rightarrow> Tunnel \<Rightarrow> tun_error option \<times> Tunnel" where
  "acquireSendPermit now writer t =
     (case writer of
        None \<Rightarrow> (None, t)
      | Some c \<Rightarrow>
          (let t = update_conn c (\<lambda>conn. if c_writeDeadlineChanged conn = 0
                                    then conn\<lparr>c_writeDeadlineChanged := 1\<rparr> else conn) t;
               conn = tn_conns t c
           in if c_closed conn then (Some ErrTunnelClosed, t)
              else if deadline_passed now (c_writeDeadline conn) then (Some ErrDeadlineExceeded, t)
              else if c_closeCh conn then (Some ErrTunnelClosed, t)
              else if tn_done t then (Some ErrTunnelClosed, t)
              else (None, t)))"

text \<open>The last two lines of \<open>sendPacketFor\<close>: number the packet, then write it.\<close>

definition send_body :: "Body \<Rightarrow> Tunnel \<Rightarrow> tun_error option \<times> Tunnel" where
  "send_body body t =
     (let (packet, s) = Session_Send (tn_session t) body;
          (e, cl) = UDP_Send (tn_client t) (Packet_Serialize packet)
      in (map_option ErrNet e, t\<lparr>tn_session := s, tn_client := cl\<rparr>))"

definition sendPacketFor :: "int \<Rightarrow> Body \<Rightarrow> conn_ref option \<Rightarrow> Tunnel \<Rightarrow> tun_error option \<times> Tunnel" where
  "sendPacketFor now body writer t =
     (case acquireSendPermit now writer t of
        (Some e, t) \<Rightarrow> (Some e, t)
      | (None, t) \<Rightarrow>
          (case writer of
             None \<Rightarrow> send_body body t
           | Some c \<Rightarrow>
               (let closed = c_closed (tn_conns t c); deadline = c_writeDeadline (tn_conns t c)
                in if closed then (Some ErrTunnelClosed, t)
                   else if deadline_passed now deadline then (Some ErrDeadlineExceeded, t)
                   else
                     (let t = t\<lparr>tn_activeWriter := Some c\<rparr>
                      in case UDP_SetWriteDeadline (tn_client t) deadline of
                           (Some e, cl) \<Rightarrow>
                             (Some (ErrNet e), t\<lparr>tn_activeWriter := None, tn_client := cl\<rparr>)
                         | (None, cl) \<Rightarrow>
                             (let (e, t) = send_body body (t\<lparr>tn_client := cl\<rparr>);
                                  t = t\<lparr>tn_activeWriter := None\<rparr>;
                                  t = t\<lparr>tn_client := snd (UDP_SetWriteDeadline (tn_client t) None)\<rparr>
                              in (e, t))))))"

definition sendPacket :: "int \<Rightarrow> Body \<Rightarrow> Tunnel \<Rightarrow> tun_error option \<times> Tunnel" where
  "sendPacket now body t = sendPacketFor now body None t"

definition updateWriteDeadline :: "conn_ref \<Rightarrow> time \<Rightarrow> Tunnel \<Rightarrow> tun_error option \<times> Tunnel" where
  "updateWriteDeadline writer deadline t =
     (if c_closed (tn_conns t writer) then (Some ErrTunnelClosed, t)
      else if tn_activeWriter t = Some writer then
        (let (e, cl) = UDP_SetWriteDeadline (tn_client t) deadline
         in (map_option ErrNet e, t\<lparr>tn_client := cl\<rparr>))
      else (None, t))"

definition interruptWrite :: "int \<Rightarrow> conn_ref \<Rightarrow> Tunnel \<Rightarrow> Tunnel" where
  "interruptWrite now writer t =
     (if tn_activeWriter t = Some writer
      then t\<lparr>tn_client := snd (UDP_SetWriteDeadline (tn_client t) (Some now))\<rparr>
      else t)"

definition signalClosed :: "int \<Rightarrow> conn_ref \<Rightarrow> Tunnel \<Rightarrow> Tunnel" where
  "signalClosed now c t =
     (let t = update_conn c (\<lambda>conn. conn\<lparr>c_closed := True\<rparr>) t;
          t = update_conn c (\<lambda>conn. conn\<lparr>c_closeCh := True\<rparr>) t
      in interruptWrite now c t)"

section \<open>Shutdown and retirement\<close>

definition Tunnel_Close :: "int \<Rightarrow> Tunnel \<Rightarrow> tun_error option \<times> Tunnel" where
  "Tunnel_Close now t =
     (if tn_closed t then (None, t)
      else
        (let t = t\<lparr>tn_closed := True\<rparr>;
             t = t\<lparr>tn_done := True\<rparr>;
             t = t\<lparr>tn_heartbeatTicker := False\<rparr>;
             t = t\<lparr>tn_ackTimer := False\<rparr>;
             realms = (case tn_realms t of None \<Rightarrow> [] | Some m \<Rightarrow> m);
             t = t\<lparr>tn_realms := None\<rparr>;
             t = fold (\<lambda>(id, conn) t. signalClosed now conn t) realms t;
             t = fold (\<lambda>(id, conn) t. snd (sendPacket now (NewStatusBody id StatusDisconnect) t)) realms t;
             (e, cl) = UDP_Close (tn_client t);
             t = t\<lparr>tn_client := cl\<rparr>;
             t = (if tn_onClose t then t\<lparr>tn_onCloseRuns := Suc (tn_onCloseRuns t)\<rparr> else t)
         in (map_option ErrNet e, t)))"

definition Tunnel_IsClosed :: "Tunnel \<Rightarrow> bool" where
  "Tunnel_IsClosed t = tn_closed t"

definition Tunnel_Retire :: "Tunnel \<Rightarrow> Tunnel" where
  "Tunnel_Retire t = t\<lparr>tn_retired := True\<rparr>"

definition Tunnel_IsRetired :: "Tunnel \<Rightarrow> bool" where
  "Tunnel_IsRetired t \<longleftrightarrow> tn_retired t \<or> tn_closed t"

definition Tunnel_SetOnClose :: "Tunnel \<Rightarrow> Tunnel" where
  "Tunnel_SetOnClose t =
     (if tn_closed t then t\<lparr>tn_onCloseRuns := Suc (tn_onCloseRuns t)\<rparr>
      else t\<lparr>tn_onClose := True\<rparr>)"

section \<open>The effect of closing, and the invariant\<close>

text \<open>
  \<open>close_conns\<close> is what signalling a set of connections amounts to, and \<open>udp_send_all\<close> what a run
  of writes does to the socket; the facts below reduce the loops of the code to them.
\<close>

definition shut :: "bool \<Rightarrow> Conn \<Rightarrow> Conn" where
  "shut b conn = conn\<lparr>c_closed := b \<or> c_closed conn, c_closeCh := b \<or> c_closeCh conn\<rparr>"

definition close_conns :: "conn_ref set \<Rightarrow> Tunnel \<Rightarrow> Tunnel" where
  "close_conns cs t = t\<lparr>tn_conns := \<lambda>c. shut (c \<in> cs) (tn_conns t c)\<rparr>"

fun udp_send_all :: "UDPClient \<Rightarrow> byte list list \<Rightarrow> UDPClient" where
  "udp_send_all cl [] = cl"
| "udp_send_all cl (d # ds) = udp_send_all (snd (UDP_Send cl d)) ds"

text \<open>
  The invariant of a tunnel between two handlers, in four parts: the flags, the map and the socket
  agree on whether the tunnel is open and no write is in progress; the two tables have distinct
  keys, each entry filed under its connection's realm ID, and a waiting dial has an empty grant
  channel, so that the reader's send to it cannot block; a connection's queue is within its
  capacity and its close channel agrees with its flag; the failure counters of an open tunnel are
  below the thresholds that close it.
\<close>

definition life_inv :: "Tunnel \<Rightarrow> bool" where
  "life_inv t \<longleftrightarrow>
     tn_done t = tn_closed t \<and> (tn_realms t = None \<longleftrightarrow> tn_closed t) \<and>
     (k_open (u_conn (tn_client t)) \<longleftrightarrow> \<not> tn_closed t) \<and> tn_activeWriter t = None"

definition realm_entries :: "Tunnel \<Rightarrow> (u32 \<times> conn_ref) list" where
  "realm_entries t = (case tn_realms t of None \<Rightarrow> [] | Some m \<Rightarrow> m)"

definition table_inv :: "Tunnel \<Rightarrow> bool" where
  "table_inv t \<longleftrightarrow>
     distinct (map fst (realm_entries t)) \<and> distinct (map fst (tn_connCh t)) \<and>
     (\<forall>r c. (r, c) \<in> set (realm_entries t) \<longrightarrow> c < tn_next t \<and> c_realmID (tn_conns t c) = r) \<and>
     (\<forall>r c. (r, c) \<in> set (tn_connCh t) \<longrightarrow>
        c < tn_next t \<and> c_realmID (tn_conns t c) = r \<and> tn_grants t c = 0) \<and>
     (\<forall>c. tn_grants t c \<le> 1) \<and> (\<forall>c \<ge> tn_next t. tn_grants t c = 0)"

definition conn_ok :: "Conn \<Rightarrow> bool" where
  "conn_ok conn \<longleftrightarrow> length (c_dataCh conn) \<le> dataCh_capacity \<and> c_closeCh conn = c_closed conn"

definition health_inv :: "Tunnel \<Rightarrow> bool" where
  "health_inv t \<longleftrightarrow> tn_closed t \<or>
     tn_consecutiveReadErrs t < maxConsecutiveReadErrors \<and>
     tn_consecutiveSendErrs t < maxConsecutiveSendErrors \<and>
     tn_missedHeartbeats t \<le> maxMissedHeartbeats"

definition tunnel_inv :: "Tunnel \<Rightarrow> bool" where
  "tunnel_inv t \<longleftrightarrow> life_inv t \<and> table_inv t \<and> (\<forall>c. conn_ok (tn_conns t c)) \<and> health_inv t"

text \<open>A tunnel with the given realms open, on which statements are evaluated.\<close>

definition sample_peer :: UDPAddr where
  "sample_peer = \<lparr>a_IP = [10, 0, 0, 1], a_Port = 8800\<rparr>"

definition sample_client :: UDPClient where
  "sample_client =
     \<lparr>u_conn = \<lparr>k_open = True, k_out = [], k_wfaults = [], k_in = [], k_rdeadline = None, k_wdeadline = None\<rparr>,
      u_laddr = \<lparr>a_IP = [], a_Port = 40000\<rparr>, u_raddr = Some sample_peer, u_timeout = 0, u_cseq = 0\<rparr>"

definition sample_tunnel :: "u32 list \<Rightarrow> Tunnel" where
  "sample_tunnel rs =
     (Tunnel_New sample_client NewSession 554)
       \<lparr>tn_realms := Some (zip rs [0..<length rs]),
        tn_conns := (\<lambda>c. zero_Conn\<lparr>c_realmID := if c < length rs then rs ! c else 0\<rparr>),
        tn_next := length rs\<rparr>"

lemma update_conn_simps [simp]:
  "tn_conns (update_conn c f t) = (tn_conns t)(c := f (tn_conns t c))"
  "tn_client (update_conn c f t) = tn_client t"
  "tn_session (update_conn c f t) = tn_session t"
  "tn_closed (update_conn c f t) = tn_closed t"
  "tn_retired (update_conn c f t) = tn_retired t"
  "tn_done (update_conn c f t) = tn_done t"
  "tn_activeWriter (update_conn c f t) = tn_activeWriter t"
  "tn_realms (update_conn c f t) = tn_realms t"
  "tn_connCh (update_conn c f t) = tn_connCh t"
  "tn_next (update_conn c f t) = tn_next t"
  "tn_grants (update_conn c f t) = tn_grants t"
  by (simp_all add: update_conn_def)

lemma sendPacket_eq:
  "sendPacket now body t =
     (map_option ErrNet (fst (UDP_Send (tn_client t) (Packet_Serialize (fst (Session_Send (tn_session t) body))))),
      t\<lparr>tn_session := snd (Session_Send (tn_session t) body),
        tn_client := snd (UDP_Send (tn_client t) (Packet_Serialize (fst (Session_Send (tn_session t) body))))\<rparr>)"
  by (simp add: sendPacket_def sendPacketFor_def acquireSendPermit_def send_body_def case_prod_beta Let_def)

lemma shut_simps [simp]:
  "c_closed (shut b conn) \<longleftrightarrow> b \<or> c_closed conn" "c_closeCh (shut b conn) \<longleftrightarrow> b \<or> c_closeCh conn"
  "c_realmID (shut b conn) = c_realmID conn" "c_remotePort (shut b conn) = c_remotePort conn"
  "c_dataCh (shut b conn) = c_dataCh conn" "c_readBuf (shut b conn) = c_readBuf conn"
  "c_readDeadline (shut b conn) = c_readDeadline conn"
  "c_writeDeadline (shut b conn) = c_writeDeadline conn"
  "shut False conn = conn" "shut a (shut b conn) = shut (a \<or> b) conn"
  by (simp_all add: shut_def)

lemma close_conns_simps [simp]:
  "tn_conns (close_conns cs t) = (\<lambda>c. shut (c \<in> cs) (tn_conns t c))"
  "tn_client (close_conns cs t) = tn_client t"
  "tn_session (close_conns cs t) = tn_session t"
  "tn_rtspPort (close_conns cs t) = tn_rtspPort t"
  "tn_closed (close_conns cs t) = tn_closed t"
  "tn_retired (close_conns cs t) = tn_retired t"
  "tn_done (close_conns cs t) = tn_done t"
  "tn_activeWriter (close_conns cs t) = tn_activeWriter t"
  "tn_realms (close_conns cs t) = tn_realms t"
  "tn_connCh (close_conns cs t) = tn_connCh t"
  "tn_next (close_conns cs t) = tn_next t"
  "tn_grants (close_conns cs t) = tn_grants t"
  "tn_bindFailures (close_conns cs t) = tn_bindFailures t"
  "tn_missedHeartbeats (close_conns cs t) = tn_missedHeartbeats t"
  "tn_consecutiveReadErrs (close_conns cs t) = tn_consecutiveReadErrs t"
  "tn_consecutiveSendErrs (close_conns cs t) = tn_consecutiveSendErrs t"
  "tn_onClose (close_conns cs t) = tn_onClose t"
  "tn_onCloseRuns (close_conns cs t) = tn_onCloseRuns t"
  by (simp_all add: close_conns_def)

lemma close_conns_close_conns [simp]: "close_conns A (close_conns B t) = close_conns (A \<union> B) t"
  by (simp add: close_conns_def Un_def)

lemma close_conns_empty [simp]: "close_conns {} t = t"
  by (simp add: close_conns_def)

lemma signalClosed_eq: "tn_activeWriter t = None \<Longrightarrow> signalClosed now c t = close_conns {c} t"
proof -
  have "(tn_conns t)(c := (tn_conns t c)\<lparr>c_closed := True, c_closeCh := True\<rparr>) =
      (\<lambda>d. shut (d \<in> {c}) (tn_conns t d))"
    by (auto simp: shut_def)
  then show "tn_activeWriter t = None \<Longrightarrow> ?thesis"
    by (simp add: signalClosed_def interruptWrite_def Let_def update_conn_def close_conns_def)
qed

lemma fold_signalClosed:
  "tn_activeWriter t = None \<Longrightarrow>
     fold (\<lambda>(id, conn) t. signalClosed now conn t) m t = close_conns (snd ` set m) t"
  by (induction m arbitrary: t) (auto simp: signalClosed_eq)

lemma UDP_Send_frame [simp]:
  "k_open (u_conn (snd (UDP_Send cl d))) = k_open (u_conn cl)"
  "u_raddr (snd (UDP_Send cl d)) = u_raddr cl"
  "u_laddr (snd (UDP_Send cl d)) = u_laddr cl"
  "k_in (u_conn (snd (UDP_Send cl d))) = k_in (u_conn cl)"
  by (auto simp: UDP_Send_def WriteToUDP_def case_prod_beta Let_def split: option.splits list.splits)

lemma fold_sendPacket:
  "fold (\<lambda>(id, conn) t. snd (sendPacket now (NewStatusBody id StatusDisconnect) t)) m t =
     (let bs = map (\<lambda>(id, conn). NewStatusBody id StatusDisconnect) m
      in t\<lparr>tn_session := snd (send_all (tn_session t) bs),
           tn_client := udp_send_all (tn_client t) (map Packet_Serialize (fst (send_all (tn_session t) bs)))\<rparr>)"
  by (induction m arbitrary: t) (auto simp: Let_def sendPacket_eq send_all_Cons)

lemma udp_send_all_frame [simp]:
  "k_open (u_conn (udp_send_all cl ds)) = k_open (u_conn cl)"
  "u_raddr (udp_send_all cl ds) = u_raddr cl"
  by (induction ds arbitrary: cl) simp_all

lemma udp_send_all_ok:
  "k_open (u_conn cl) \<Longrightarrow> k_wfaults (u_conn cl) = [] \<Longrightarrow> u_raddr cl = Some a \<Longrightarrow>
   udp_send_all cl ds = cl\<lparr>u_conn := (u_conn cl)\<lparr>k_out := k_out (u_conn cl) @ map (\<lambda>d. (d, a)) ds\<rparr>\<rparr>"
  by (induction ds arbitrary: cl) (simp_all add: UDP_Send_def WriteToUDP_def)

lemma Tunnel_Close_open:
  assumes "\<not> tn_closed t" "tn_activeWriter t = None"
  shows "snd (Tunnel_Close now t) =
    (let m = (case tn_realms t of None \<Rightarrow> [] | Some m \<Rightarrow> m);
         bs = map (\<lambda>(id, conn). NewStatusBody id StatusDisconnect) m
     in (close_conns (snd ` set m) t)
      \<lparr>tn_closed := True, tn_done := True, tn_heartbeatTicker := False, tn_ackTimer := False, tn_realms := None,
       tn_session := snd (send_all (tn_session t) bs),
       tn_client := snd (UDP_Close (udp_send_all (tn_client t) (map Packet_Serialize (fst (send_all (tn_session t) bs))))),
       tn_onCloseRuns := (if tn_onClose t then Suc (tn_onCloseRuns t) else tn_onCloseRuns t)\<rparr>)"
  using assms
  by (cases t) (simp add: Tunnel_Close_def Let_def fold_signalClosed fold_sendPacket case_prod_beta close_conns_def)

lemmas inv_defs = tunnel_inv_def life_inv_def table_inv_def conn_ok_def health_inv_def realm_entries_def

section \<open>The contract of a handler\<close>

text \<open>
  Every operation a goroutine runs on the tunnel keeps the invariant and moves the tunnel forward:
  it never undoes a closing or a retirement, never renames a connection, and when it closes a
  tunnel that has a close callback, it runs the callback.
\<close>

definition advances :: "Tunnel \<Rightarrow> Tunnel \<Rightarrow> bool" where
  "advances t t' \<longleftrightarrow>
     (tn_closed t \<longrightarrow> tn_closed t') \<and> (tn_retired t \<longrightarrow> tn_retired t') \<and> tn_next t \<le> tn_next t' \<and>
     (tn_onClose t \<longrightarrow> tn_onClose t') \<and> tn_onCloseRuns t \<le> tn_onCloseRuns t' \<and>
     (\<not> tn_closed t' \<longrightarrow> tn_onCloseRuns t' = tn_onCloseRuns t) \<and>
     (\<not> tn_closed t \<and> tn_closed t' \<and> tn_onClose t \<longrightarrow> tn_onCloseRuns t < tn_onCloseRuns t') \<and>
     (\<forall>c < tn_next t. (c_closed (tn_conns t c) \<longrightarrow> c_closed (tn_conns t' c)) \<and>
        c_realmID (tn_conns t' c) = c_realmID (tn_conns t c))"

lemma advancesD:
  assumes "advances t t'"
  shows "tn_closed t \<Longrightarrow> tn_closed t'" "tn_retired t \<Longrightarrow> tn_retired t'" "tn_next t \<le> tn_next t'"
    "c < tn_next t \<Longrightarrow> c_closed (tn_conns t c) \<Longrightarrow> c_closed (tn_conns t' c)"
    "c < tn_next t \<Longrightarrow> c_realmID (tn_conns t' c) = c_realmID (tn_conns t c)"
  using assms by (simp_all add: advances_def)

lemma advances_refl [simp, intro]: "advances t t"
  by (simp add: advances_def)

lemma advances_trans [trans]: "advances t u \<Longrightarrow> advances u v \<Longrightarrow> advances t v"
  by (auto simp: advances_def)

locale tunnel_handler =
  fixes handle :: "'e \<Rightarrow> Tunnel \<Rightarrow> Tunnel"
  assumes keeps_inv: "tunnel_inv t \<Longrightarrow> tunnel_inv (handle e t)"
    and moves_on: "tunnel_inv t \<Longrightarrow> advances t (handle e t)"
begin

text \<open>The contract carries over to a run of the handler on any sequence of events.\<close>

lemma run_inv: "tunnel_inv t \<Longrightarrow> tunnel_inv (fold handle es t)"
  by (induction es arbitrary: t) (simp_all add: keeps_inv)

lemma run_advances: "tunnel_inv t \<Longrightarrow> advances t (fold handle es t)"
proof (induction es arbitrary: t)
  case (Cons e es)
  have "advances t (handle e t)" using Cons.prems by (rule moves_on)
  also have "advances \<dots> (fold handle es (handle e t))"
    using Cons.IH keeps_inv [OF Cons.prems] .
  finally show ?case by simp
qed simp

lemma run_closed: "tunnel_inv t \<Longrightarrow> tn_closed t \<Longrightarrow> tn_closed (fold handle es t)"
  using run_advances [of t es] by (simp add: advances_def)

end

lemma sendPacket_frame [simp]:
  "tn_conns (snd (sendPacket now b t)) = tn_conns t"
  "tn_closed (snd (sendPacket now b t)) = tn_closed t"
  "tn_retired (snd (sendPacket now b t)) = tn_retired t"
  "tn_onClose (snd (sendPacket now b t)) = tn_onClose t"
  "tn_onCloseRuns (snd (sendPacket now b t)) = tn_onCloseRuns t"
  "tn_done (snd (sendPacket now b t)) = tn_done t"
  "tn_activeWriter (snd (sendPacket now b t)) = tn_activeWriter t"
  "tn_realms (snd (sendPacket now b t)) = tn_realms t"
  "tn_connCh (snd (sendPacket now b t)) = tn_connCh t"
  "tn_next (snd (sendPacket now b t)) = tn_next t"
  "tn_grants (snd (sendPacket now b t)) = tn_grants t"
  "tn_bindFailures (snd (sendPacket now b t)) = tn_bindFailures t"
  "tn_missedHeartbeats (snd (sendPacket now b t)) = tn_missedHeartbeats t"
  "tn_consecutiveReadErrs (snd (sendPacket now b t)) = tn_consecutiveReadErrs t"
  "tn_consecutiveSendErrs (snd (sendPacket now b t)) = tn_consecutiveSendErrs t"
  "tn_ackPending (snd (sendPacket now b t)) = tn_ackPending t"
  "tn_lastDrain (snd (sendPacket now b t)) = tn_lastDrain t"
  "tn_lastDrainTime (snd (sendPacket now b t)) = tn_lastDrainTime t"
  "k_open (u_conn (tn_client (snd (sendPacket now b t)))) = k_open (u_conn (tn_client t))"
  "tn_session (snd (sendPacket now b t)) = snd (Session_Send (tn_session t) b)"
  by (simp_all add: sendPacket_eq)

lemma sendPacket_inv: "tunnel_inv t \<Longrightarrow> tunnel_inv (snd (sendPacket now b t))"
  by (simp add: inv_defs)

lemma close_conns_inv: "tunnel_inv t \<Longrightarrow> tunnel_inv (close_conns cs t)"
  by (simp add: inv_defs)

lemma UDP_Close_closed [simp]: "\<not> k_open (u_conn (snd (UDP_Close cl)))"
  by (simp add: UDP_Close_def CloseUDP_def)

lemma Tunnel_Close_closed: "tn_closed t \<Longrightarrow> Tunnel_Close now t = (None, t)"
  by (simp add: Tunnel_Close_def)

text \<open>Closing restores the invariant for a handler that has just driven a counter to its threshold.\<close>

lemma Tunnel_Close_inv:
  assumes "life_inv t" "table_inv t" "\<forall>c. conn_ok (tn_conns t c)"
  shows "tunnel_inv (snd (Tunnel_Close now t))"
proof (cases "tn_closed t")
  case True
  with assms show ?thesis by (simp add: Tunnel_Close_closed tunnel_inv_def health_inv_def)
next
  case False
  have "tn_activeWriter t = None" using assms(1) by (simp add: life_inv_def)
  then show ?thesis
    using assms False by (simp add: Tunnel_Close_open Let_def inv_defs)
qed

lemma Tunnel_Close_closes: "tn_activeWriter t = None \<Longrightarrow> tn_closed (snd (Tunnel_Close now t))"
  by (cases "tn_closed t"; simp add: Tunnel_Close_closed Tunnel_Close_open Let_def)

lemma Tunnel_Close_advances: "tn_activeWriter t = None \<Longrightarrow> advances t (snd (Tunnel_Close now t))"
  by (cases "tn_closed t"; simp add: Tunnel_Close_closed Tunnel_Close_open Let_def advances_def)

lemma sendPacket_advances: "advances t (snd (sendPacket now b t))"
  by (simp add: advances_def)

lemma close_conns_advances: "advances t (close_conns cs t)"
  by (simp add: advances_def)

lemma tunnel_invD:
  assumes "tunnel_inv t"
  shows "life_inv t" "table_inv t" "\<forall>c. conn_ok (tn_conns t c)" "health_inv t" "tn_activeWriter t = None"
  using assms by (simp_all add: tunnel_inv_def life_inv_def)

interpretation close: tunnel_handler "\<lambda>now t. snd (Tunnel_Close now t)"
  by unfold_locales (simp_all add: Tunnel_Close_inv Tunnel_Close_advances tunnel_invD)

interpretation retire: tunnel_handler "\<lambda>_ :: unit. Tunnel_Retire"
  by unfold_locales (auto simp: Tunnel_Retire_def inv_defs advances_def)

interpretation set_on_close: tunnel_handler "\<lambda>_ :: unit. Tunnel_SetOnClose"
  by unfold_locales (auto simp: Tunnel_SetOnClose_def inv_defs advances_def)

lemma mem_delete: "(k, v) \<in> set (AList.delete r m) \<longleftrightarrow> k \<noteq> r \<and> (k, v) \<in> set m"
  by (auto simp: AList.delete_eq)

lemma distinct_map_delete: "distinct (map fst m) \<Longrightarrow> distinct (map fst (AList.delete r m))"
  by (rule AList.distinct_delete)

lemma realm_delete_simps [simp]:
  "tn_conns (realm_delete r t) = tn_conns t" "tn_closed (realm_delete r t) = tn_closed t"
  "tn_retired (realm_delete r t) = tn_retired t" "tn_activeWriter (realm_delete r t) = tn_activeWriter t"
  "tn_connCh (realm_delete r t) = tn_connCh t" "tn_grants (realm_delete r t) = tn_grants t"
  "tn_client (realm_delete r t) = tn_client t" "tn_session (realm_delete r t) = tn_session t"
  "realm_entries (realm_delete r t) = AList.delete r (realm_entries t)"
  by (simp_all add: realm_delete_def realm_entries_def split: option.splits)

lemma realm_delete_inv: "tunnel_inv t \<Longrightarrow> tunnel_inv (realm_delete r t)"
  by (auto simp: inv_defs realm_delete_def distinct_map_delete mem_delete split: option.splits)

lemma connCh_delete_inv: "tunnel_inv t \<Longrightarrow> tunnel_inv (connCh_delete r t)"
  by (auto simp: inv_defs connCh_delete_def distinct_map_delete mem_delete split: option.splits)

lemma update_conn_inv:
  assumes "tunnel_inv t" "\<And>conn. c_realmID (f conn) = c_realmID conn" "conn_ok (f (tn_conns t c))"
  shows "tunnel_inv (update_conn c f t)"
  using assms by (auto simp: tunnel_inv_def life_inv_def table_inv_def health_inv_def realm_entries_def update_conn_def)

lemma signalClosed_inv: "tunnel_inv t \<Longrightarrow> tunnel_inv (signalClosed now c t)"
  by (simp add: signalClosed_eq close_conns_inv tunnel_invD)

lemma session_inv: "tunnel_inv (t\<lparr>tn_session := s\<rparr>) = tunnel_inv t"
  by (simp add: inv_defs)

lemma update_conn_advances:
  assumes "\<And>conn. c_realmID (f conn) = c_realmID conn" "\<And>conn. c_closed conn \<Longrightarrow> c_closed (f conn)"
  shows "advances t (update_conn c f t)"
  using assms by (simp add: advances_def update_conn_def)

lemma signalClosed_advances: "tunnel_inv t \<Longrightarrow> advances t (signalClosed now c t)"
  by (simp add: signalClosed_eq tunnel_invD close_conns_advances)

lemma realm_delete_advances: "advances t (realm_delete r t)"
  by (simp add: advances_def realm_delete_def)

lemma Tunnel_New_inv: "k_open (u_conn client) \<Longrightarrow> tunnel_inv (Tunnel_New client session port)"
  by (simp add: inv_defs Tunnel_New_def zero_Conn_def maxConsecutiveReadErrors_def maxConsecutiveSendErrors_def)

lemma sample_inv: "distinct rs \<Longrightarrow> tunnel_inv (sample_tunnel rs)"
  by (auto simp: inv_defs sample_tunnel_def Tunnel_New_def sample_client_def zero_Conn_def set_zip
      maxConsecutiveReadErrors_def maxConsecutiveSendErrors_def)

lemma send_all_bodies: "map p_Body (fst (send_all s bs)) = bs"
  by (induction bs arbitrary: s) (auto simp: send_all_Cons Session_Send_simps)

section \<open>Properties\<close>

text \<open>
  (C24) Closing an open tunnel closes its socket, empties the realm table and signals every realm,
  leaving what each has queued; it writes exactly one disconnect status per realm, in order and
  each with the next sequence numbers, runs the close callback once if it is installed, and a
  second call changes nothing.
\<close>

theorem close_signals_and_disconnects:
  assumes "tunnel_inv t" "\<not> tn_closed t" "tn_realms t = Some m"
    "k_wfaults (u_conn (tn_client t)) = []" "u_raddr (tn_client t) = Some a"
  shows "let t' = snd (Tunnel_Close now t) in
    tn_closed t' \<and> tn_done t' \<and> ActiveRealms t' = 0 \<and> \<not> k_open (u_conn (tn_client t')) \<and>
    (\<forall>c. c_closed (tn_conns t' c) \<longleftrightarrow> c_closed (tn_conns t c) \<or> c \<in> snd ` set m) \<and>
    (\<forall>c. c_dataCh (tn_conns t' c) = c_dataCh (tn_conns t c)) \<and>
    (\<exists>ps. k_out (u_conn (tn_client t')) = k_out (u_conn (tn_client t)) @ map (\<lambda>p. (Packet_Serialize p, a)) ps \<and>
       map p_Body ps = map (\<lambda>(id, c). NewStatusBody id StatusDisconnect) m) \<and>
    tn_onCloseRuns t' = tn_onCloseRuns t + (if tn_onClose t then 1 else 0) \<and>
    Tunnel_Close later t' = (None, t')"
proof -
  define t' where "t' = snd (Tunnel_Close now t)"
  let ?bs = "map (\<lambda>(id, c). NewStatusBody id StatusDisconnect) m"
  let ?ps = "fst (send_all (tn_session t) ?bs)"
  note inv = tunnel_invD [OF assms(1)]
  have op: "k_open (u_conn (tn_client t))" using inv(1) assms(2) by (simp add: life_inv_def)
  note close = Tunnel_Close_open [OF assms(2) inv(5), where now = now, unfolded assms(3) Let_def option.case, folded t'_def]
  have "k_out (u_conn (tn_client t')) = k_out (u_conn (tn_client t)) @ map (\<lambda>p. (Packet_Serialize p, a)) ?ps"
    using op assms(4,5) by (simp add: close udp_send_all_ok UDP_Close_def CloseUDP_def)
  then have "\<exists>ps. k_out (u_conn (tn_client t')) = k_out (u_conn (tn_client t)) @ map (\<lambda>p. (Packet_Serialize p, a)) ps \<and>
       map p_Body ps = ?bs"
    using send_all_bodies by blast
  then show ?thesis
    unfolding Let_def t'_def [symmetric]
    by (auto simp: close ActiveRealms_def Tunnel_Close_closed)
qed

theorem close_signals_and_disconnects_witness:
  "let t' = snd (Tunnel_Close 5 (sample_tunnel [7, 9])) in
     tn_closed t' \<and> c_closed (tn_conns t' 0) \<and> c_closed (tn_conns t' 1) \<and> \<not> c_closed (tn_conns t' 2) \<and>
     length (k_out (u_conn (tn_client t'))) = 2 \<and> Tunnel_Close 6 t' = (None, t')"
proof -
  have t: "\<not> tn_closed (sample_tunnel [7, 9])" "tn_realms (sample_tunnel [7, 9]) = Some [(7, 0), (9, 1)]"
    "k_wfaults (u_conn (tn_client (sample_tunnel [7, 9]))) = []"
    "u_raddr (tn_client (sample_tunnel [7, 9])) = Some sample_peer"
    "k_out (u_conn (tn_client (sample_tunnel [7, 9]))) = []"
    "\<not> c_closed (tn_conns (sample_tunnel [7, 9]) 2)"
    by (simp_all add: sample_tunnel_def Tunnel_New_def sample_client_def zero_Conn_def upt_rec)
  from close_signals_and_disconnects [OF sample_inv t(1-4), where now = 5 and later = 6] t(5,6)
  show ?thesis by (auto simp: Let_def dest!: arg_cong [where f = length])
qed

end
