(* ===== verification/Tunnel_Reader.thy ===== *)
theory Tunnel_Reader
  imports Tunnel_State
begin

text \<open>
  The goroutines that drive a tunnel (\<^verbatim>\<open>tunnel/tunnel.go\<close>): the reader, which dispatches inbound
  packets to realms and dials; the coalesced acknowledgements it schedules; the heartbeat with its
  two failure detectors.
\<close>

section \<open>Acknowledgements\<close>

definition scheduleACK :: "Tunnel \<Rightarrow> Tunnel" where
  "scheduleACK t =
     (if tn_ackPending t then t else t\<lparr>tn_ackPending := True, tn_ackTimer := True\<rparr>)"

definition flushACK :: "int \<Rightarrow> Tunnel \<Rightarrow> Tunnel" where
  "flushACK now t =
     (let (err, t) = sendPacket now NewEmptyBody t;
          t = (if err = None then t\<lparr>tn_consecutiveSendErrs := 0\<rparr>
               else t\<lparr>tn_consecutiveSendErrs := Suc (tn_consecutiveSendErrs t)\<rparr>);
          errs = tn_consecutiveSendErrs t;
          t = t\<lparr>tn_ackPending := False\<rparr>
      in if err = None then t
         else if errs \<ge> maxConsecutiveSendErrors then snd (Tunnel_Close now t)
         else t)"

section \<open>Liveness\<close>

definition ackHeartbeat :: "int \<Rightarrow> Tunnel \<Rightarrow> Tunnel" where
  "ackHeartbeat now t = t\<lparr>tn_missedHeartbeats := 0, tn_lastAckTime := Some now\<rparr>"

definition Tunnel_IsResponsive :: "int \<Rightarrow> duration \<Rightarrow> Tunnel \<Rightarrow> bool" where
  "Tunnel_IsResponsive now within t =
     (case tn_lastAckTime t of None \<Rightarrow> False | Some seen \<Rightarrow> now - seen < within)"

definition outboundStallTimeout :: duration where
  "outboundStallTimeout = 20 * second"

definition outboundStalled :: "int \<Rightarrow> Tunnel \<Rightarrow> bool \<times> Tunnel" where
  "outboundStalled now t =
     (let st = Session_Stats (tn_session t)
      in if OutBytes st \<le> 0 then
           (False, t\<lparr>tn_lastDrain := t_PeerRecv st, tn_lastDrainTime := Some now\<rparr>)
         else if t_PeerRecv st \<noteq> tn_lastDrain t then
           (False, t\<lparr>tn_lastDrain := t_PeerRecv st, tn_lastDrainTime := Some now\<rparr>)
         else (case tn_lastDrainTime t of
             None \<Rightarrow> (False, t\<lparr>tn_lastDrainTime := Some now\<rparr>)
           | Some since \<Rightarrow> (now - since > outboundStallTimeout, t)))"

definition sendHeartbeat :: "int \<Rightarrow> Tunnel \<Rightarrow> Tunnel" where
  "sendHeartbeat now t =
     (if tn_closed t then t
      else
        (let t = t\<lparr>tn_missedHeartbeats := Suc (tn_missedHeartbeats t)\<rparr>;
             missed = tn_missedHeartbeats t
         in if missed > maxMissedHeartbeats then snd (Tunnel_Close now t)
            else
              (let (err, t) = sendPacket now NewHeartbeatBody t;
                   (stalled, t) = outboundStalled now t
               in if stalled then snd (Tunnel_Close now t) else t)))"

section \<open>The reader\<close>

text \<open>The two kinds of status packet the reader acts on.\<close>

definition reader_connect :: "u32 \<Rightarrow> Tunnel \<Rightarrow> Tunnel" where
  "reader_connect realm t =
     (case map_of (tn_connCh t) realm of
        Some ch \<Rightarrow>
          connCh_delete realm (t\<lparr>tn_grants := (tn_grants t)(ch := Suc (tn_grants t ch))\<rparr>)
      | None \<Rightarrow> t)"

definition reader_disconnect :: "int \<Rightarrow> u32 \<Rightarrow> Tunnel \<Rightarrow> Tunnel" where
  "reader_disconnect now realm t =
     (case realm_lookup t realm of
        Some conn \<Rightarrow> signalClosed now conn (realm_delete realm t)
      | None \<Rightarrow> t)"

text \<open>A payload is queued without blocking; a realm whose queue is full is torn down.\<close>

definition reader_payload :: "int \<Rightarrow> u32 \<Rightarrow> byte list \<Rightarrow> Tunnel \<Rightarrow> Tunnel" where
  "reader_payload now realm data t =
     (case realm_lookup t realm of
        Some conn \<Rightarrow>
          if length (c_dataCh (tn_conns t conn)) < dataCh_capacity
          then update_conn conn (\<lambda>c. c\<lparr>c_dataCh := c_dataCh c @ [data]\<rparr>) t
          else
            (let t = realm_delete realm t;
                 t = signalClosed now conn t
             in snd (sendPacket now (NewStatusBody realm StatusDisconnect) t))
      | None \<Rightarrow> t)"

definition reader_packet :: "int \<Rightarrow> Packet \<Rightarrow> Tunnel \<Rightarrow> Tunnel" where
  "reader_packet now packet t =
     (let body = p_Body packet in
      case b_Type body of
        BodyTypeEmpty \<Rightarrow> t
      | BodyTypeSync \<Rightarrow> snd (sendPacket now NewSyncBody t)
      | BodyTypeStatus \<Rightarrow>
          (let realm = b_Realm body; status = b_Status body;
               t = (if status = StatusConnect then reader_connect realm t
                    else if status = StatusDisconnect then reader_disconnect now realm t
                    else t)
           in scheduleACK t)
      | BodyTypePayload \<Rightarrow> scheduleACK (reader_payload now (b_Realm body) (b_Data body) t)
      | BodyTypeHeartbeat \<Rightarrow> scheduleACK t
      | _ \<Rightarrow> t)"

text \<open>
  One turn of the reader loop, from the outcome of \<open>ReadRaw\<close>: the first component tells whether the
  loop goes on.
\<close>

definition reader_handle :: "int \<Rightarrow> net_error + byte list \<Rightarrow> Tunnel \<Rightarrow> bool \<times> Tunnel" where
  "reader_handle now res t =
     (case res of
        Inl err \<Rightarrow>
          if err = NetTimeout then (True, t)
          else if tn_done t then (False, t)
          else
            (let t = t\<lparr>tn_consecutiveReadErrs := Suc (tn_consecutiveReadErrs t)\<rparr>
             in if tn_consecutiveReadErrs t \<ge> maxConsecutiveReadErrors
                then (False, snd (Tunnel_Close now t))
                else (True, t))
      | Inr data \<Rightarrow>
          (let t = t\<lparr>tn_consecutiveReadErrs := 0\<rparr>
           in case ParsePacket data of
                Inl _ \<Rightarrow> (True, t)
              | Inr packet \<Rightarrow>
                  (let t = ackHeartbeat now t;
                       t = t\<lparr>tn_session := snd (Session_Recv (tn_session t) packet)\<rparr>
                   in (True, reader_packet now packet t))))"

definition reader_turn :: "int \<Rightarrow> Tunnel \<Rightarrow> bool \<times> Tunnel" where
  "reader_turn now t =
     (if tn_done t then (False, t)
      else
        (let (res, cl) = UDP_ReadRaw now (tn_client t) (1 * second)
         in reader_handle now res (t\<lparr>tn_client := cl\<rparr>)))"

text \<open>The loop itself: turns at the given instants, until it ends or the instants run out.\<close>

fun reader :: "int list \<Rightarrow> Tunnel \<Rightarrow> Tunnel" where
  "reader [] t = t"
| "reader (now # later) t =
     (let (go, t) = reader_turn now t in if go then reader later t else t)"

section \<open>The goroutines together\<close>

text \<open>
  What the tunnel reacts to on its own: a tick of the heartbeat, the expiry of the acknowledgement
  timer, the outcome of a read. A run is a sequence of such events in the order they are handled.
\<close>

datatype tunnel_event = Tick int | AckTimer int | Inbound int "net_error + byte list"

fun handle_event :: "tunnel_event \<Rightarrow> Tunnel \<Rightarrow> Tunnel" where
  "handle_event (Tick now) t = sendHeartbeat now t"
| "handle_event (AckTimer now) t = flushACK now t"
| "handle_event (Inbound now res) t = snd (reader_handle now res t)"

section \<open>The handlers keep their contract\<close>

lemma scheduleACK_inv: "tunnel_inv t \<Longrightarrow> tunnel_inv (scheduleACK t)"
  by (simp add: inv_defs scheduleACK_def)

lemma ackHeartbeat_inv: "tunnel_inv t \<Longrightarrow> tunnel_inv (ackHeartbeat now t)"
  by (auto simp: inv_defs ackHeartbeat_def)

text \<open>The state in which the reader dispatches a packet.\<close>

lemma reading_inv:
  "tunnel_inv t \<Longrightarrow> tunnel_inv ((ackHeartbeat now (t\<lparr>tn_consecutiveReadErrs := 0\<rparr>))\<lparr>tn_session := s\<rparr>)"
  unfolding session_inv
  by (intro ackHeartbeat_inv) (auto simp: inv_defs maxConsecutiveReadErrors_def)

lemma outboundStalled_inv: "tunnel_inv t \<Longrightarrow> tunnel_inv (snd (outboundStalled now t))"
  by (simp add: inv_defs outboundStalled_def Let_def split: option.splits)

text \<open>The grant the reader makes lands in an empty channel.\<close>

lemma reader_connect_inv: "tunnel_inv t \<Longrightarrow> tunnel_inv (reader_connect realm t)"
proof (cases "map_of (tn_connCh t) realm")
  case (Some ch)
  assume inv: "tunnel_inv t"
  have mem: "(realm, ch) \<in> set (tn_connCh t)" using Some by (rule map_of_SomeD)
  have other: "(r, c) \<in> set (AList.delete realm (tn_connCh t)) \<Longrightarrow> c \<noteq> ch" for r c
    using tunnel_invD(2) [OF inv] mem unfolding table_inv_def mem_delete by metis
  have "table_inv (reader_connect realm t)"
    using tunnel_invD(2) [OF inv] mem other Some unfolding table_inv_def
    by (auto simp: reader_connect_def connCh_delete_def realm_entries_def distinct_map_delete mem_delete) (metis leD)
  then show ?thesis
    using inv Some
    by (simp add: tunnel_inv_def life_inv_def health_inv_def reader_connect_def connCh_delete_def)
qed (simp add: reader_connect_def)

lemma reader_disconnect_inv: "tunnel_inv t \<Longrightarrow> tunnel_inv (reader_disconnect now realm t)"
  by (simp add: reader_disconnect_def signalClosed_inv realm_delete_inv split: option.splits)

lemma reader_payload_inv: "tunnel_inv t \<Longrightarrow> tunnel_inv (reader_payload now realm data t)"
  by (auto simp: reader_payload_def Let_def signalClosed_inv realm_delete_inv sendPacket_inv conn_ok_def
      tunnel_inv_def [of t] intro!: update_conn_inv split: option.splits)

lemma reader_packet_inv: "tunnel_inv t \<Longrightarrow> tunnel_inv (reader_packet now packet t)"
  by (simp add: reader_packet_def Let_def scheduleACK_inv sendPacket_inv reader_connect_inv
      reader_disconnect_inv reader_payload_inv split: BodyType.splits)

lemma flushACK_inv: assumes "tunnel_inv t" shows "tunnel_inv (flushACK now t)"
proof -
  have "life_inv (t\<lparr>tn_session := s, tn_client := c, tn_consecutiveSendErrs := n, tn_ackPending := b\<rparr>)"
    "table_inv (t\<lparr>tn_session := s, tn_client := c, tn_consecutiveSendErrs := n, tn_ackPending := b\<rparr>)"
    if "k_open (u_conn c) = k_open (u_conn (tn_client t))" for s c n b
    using that tunnel_invD(1,2) [OF assms] by (simp_all add: life_inv_def table_inv_def realm_entries_def)
  moreover have "tunnel_inv (t\<lparr>tn_session := s, tn_client := c, tn_consecutiveSendErrs := n, tn_ackPending := b\<rparr>)"
    if "k_open (u_conn c) = k_open (u_conn (tn_client t))" "n < maxConsecutiveSendErrors" for s c n b
    using that assms by (auto simp add: inv_defs)
  ultimately show ?thesis
    using tunnel_invD(3) [OF assms]
    by (simp add: flushACK_def sendPacket_eq Let_def Tunnel_Close_inv maxConsecutiveSendErrors_def not_le)
qed

lemma sendHeartbeat_inv: assumes "tunnel_inv t" shows "tunnel_inv (sendHeartbeat now t)"
proof -
  let ?t = "t\<lparr>tn_missedHeartbeats := Suc (tn_missedHeartbeats t)\<rparr>"
  have broken: "life_inv ?t" "table_inv ?t" "\<forall>c. conn_ok (tn_conns ?t c)"
    using tunnel_invD(1-3) [OF assms] by (simp_all add: life_inv_def table_inv_def realm_entries_def)
  have kept: "tunnel_inv ?t" if "tn_missedHeartbeats t < maxMissedHeartbeats"
    using assms that by (auto simp: inv_defs)
  have stalled: "tunnel_inv (snd (Tunnel_Close now u))" if "tunnel_inv u" for u
    by (rule close.keeps_inv [OF that])
  show ?thesis
    using assms broken kept stalled
    by (auto simp: sendHeartbeat_def Let_def case_prod_beta Tunnel_Close_inv sendPacket_inv outboundStalled_inv not_less Suc_le_eq)
qed

lemma reader_handle_inv: assumes "tunnel_inv t" shows "tunnel_inv (snd (reader_handle now res t))"
proof (cases res)
  case (Inl err)
  let ?t = "t\<lparr>tn_consecutiveReadErrs := Suc (tn_consecutiveReadErrs t)\<rparr>"
  have broken: "life_inv ?t" "table_inv ?t" "\<forall>c. conn_ok (tn_conns ?t c)"
    using tunnel_invD(1-3) [OF assms] by (simp_all add: life_inv_def table_inv_def realm_entries_def)
  have kept: "tunnel_inv ?t" if "Suc (tn_consecutiveReadErrs t) < maxConsecutiveReadErrors"
    using assms that by (auto simp: inv_defs)
  show ?thesis
    using assms broken kept by (simp add: reader_handle_def Inl Let_def Tunnel_Close_inv not_le)
next
  case (Inr data)
  have "tunnel_inv (t\<lparr>tn_consecutiveReadErrs := 0\<rparr>)"
    using assms by (auto simp: inv_defs maxConsecutiveReadErrors_def)
  then show ?thesis
    using reading_inv [OF assms] by (auto simp: reader_handle_def Inr Let_def intro!: reader_packet_inv split: sum.splits)
qed

lemma reader_connect_advances: "advances t (reader_connect r t)"
  by (simp add: advances_def reader_connect_def connCh_delete_def split: option.splits)

lemma reader_disconnect_advances: "tunnel_inv t \<Longrightarrow> advances t (reader_disconnect now r t)"
  by (auto simp: reader_disconnect_def split: option.splits
      intro: advances_trans [OF realm_delete_advances] signalClosed_advances realm_delete_inv)

lemma reader_payload_advances:
  assumes "tunnel_inv t" shows "advances t (reader_payload now r data t)"
proof -
  have "advances t (snd (sendPacket now b (signalClosed now c (realm_delete r t))))" for b c
  proof -
    have "advances t (realm_delete r t)" by (rule realm_delete_advances)
    also have "advances \<dots> (signalClosed now c (realm_delete r t))"
      using assms by (intro signalClosed_advances realm_delete_inv)
    also have "advances \<dots> (snd (sendPacket now b (signalClosed now c (realm_delete r t))))"
      by (rule sendPacket_advances)
    finally show ?thesis .
  qed
  then show ?thesis
    by (simp add: reader_payload_def Let_def update_conn_advances split: option.splits)
qed

lemma scheduleACK_advances: "advances t u \<Longrightarrow> advances t (scheduleACK u)"
  by (simp add: advances_def scheduleACK_def)

lemma reader_packet_advances: "tunnel_inv t \<Longrightarrow> advances t (reader_packet now packet t)"
  by (simp add: reader_packet_def Let_def scheduleACK_advances sendPacket_advances reader_connect_advances
      reader_disconnect_advances reader_payload_advances split: BodyType.splits)

lemma outboundStalled_advances: "advances t (snd (outboundStalled now t))"
  by (simp add: advances_def outboundStalled_def Let_def split: option.splits)

lemma health_advances [simp]:
  "advances (t\<lparr>tn_consecutiveReadErrs := n\<rparr>) u = advances t u"
  "advances (t\<lparr>tn_missedHeartbeats := n\<rparr>) u = advances t u"
  "advances u (t\<lparr>tn_consecutiveReadErrs := n\<rparr>) = advances u t"
  "advances u (t\<lparr>tn_missedHeartbeats := n\<rparr>) = advances u t"
  "advances u (t\<lparr>tn_consecutiveSendErrs := n\<rparr>) = advances u t"
  "advances u (t\<lparr>tn_ackPending := b\<rparr>) = advances u t"
  "advances (t\<lparr>tn_session := s\<rparr>) u = advances t u"
  "advances (ackHeartbeat now t) u = advances t u"
  by (simp_all add: advances_def ackHeartbeat_def)

lemma flushACK_advances: "tunnel_inv t \<Longrightarrow> advances t (flushACK now t)"
  by (auto simp: flushACK_def Let_def case_prod_beta sendPacket_advances tunnel_invD
      intro!: advances_trans [OF _ Tunnel_Close_advances])

lemma sendHeartbeat_advances:
  assumes "tunnel_inv t" shows "advances t (sendHeartbeat now t)"
proof -
  let ?u = "t\<lparr>tn_missedHeartbeats := Suc (tn_missedHeartbeats t)\<rparr>"
  let ?v = "snd (outboundStalled now (snd (sendPacket now NewHeartbeatBody ?u)))"
  have v: "advances t ?v"
    using advances_trans [OF sendPacket_advances [of ?u] outboundStalled_advances] by simp
  have "tn_activeWriter ?v = None"
    using tunnel_invD(5) [OF assms] by (simp add: outboundStalled_def Let_def split: option.splits)
  then have "advances t (snd (Tunnel_Close now ?v))"
    using v Tunnel_Close_advances advances_trans by blast
  moreover have "advances t (snd (Tunnel_Close now ?u))"
    using Tunnel_Close_advances [of ?u] tunnel_invD(5) [OF assms] by simp
  ultimately show ?thesis
    using v by (simp add: sendHeartbeat_def Let_def case_prod_beta)
qed

lemma reader_handle_advances:
  assumes "tunnel_inv t" shows "advances t (snd (reader_handle now res t))"
proof (cases res)
  case (Inl err)
  then show ?thesis
    using Tunnel_Close_advances [of "t\<lparr>tn_consecutiveReadErrs := Suc (tn_consecutiveReadErrs t)\<rparr>"] tunnel_invD(5) [OF assms]
    by (simp add: reader_handle_def Let_def)
next
  case (Inr data)
  have "advances t (reader_packet now packet ((ackHeartbeat now (t\<lparr>tn_consecutiveReadErrs := 0\<rparr>))\<lparr>tn_session := s\<rparr>))"
    for packet s
    using reader_packet_advances [OF reading_inv [OF assms, where now = now and s = s], where now = now and packet = packet] by simp
  then show ?thesis
    by (simp add: reader_handle_def Inr Let_def split: sum.splits)
qed

interpretation flush: tunnel_handler flushACK
  by unfold_locales (rule flushACK_inv flushACK_advances, assumption)+

interpretation heartbeat: tunnel_handler sendHeartbeat
  by unfold_locales (rule sendHeartbeat_inv sendHeartbeat_advances, assumption)+

interpretation inbound: tunnel_handler "\<lambda>(now, res) t. snd (reader_handle now res t)"
  by unfold_locales (auto intro: reader_handle_inv reader_handle_advances)

interpretation events: tunnel_handler handle_event
proof
  fix t e assume inv: "tunnel_inv t"
  show "tunnel_inv (handle_event e t)"
    using inv by (cases e) (simp_all add: sendHeartbeat_inv flushACK_inv reader_handle_inv)
  show "advances t (handle_event e t)"
    using inv by (cases e) (simp_all add: sendHeartbeat_advances flushACK_advances reader_handle_advances)
qed

end
