(* ===== verification/Tunnel_Delivery.thy ===== *)
theory Tunnel_Delivery
  imports Tunnel_Reader
begin

text \<open>
  What the reader delivers to one connection (\<^verbatim>\<open>tunnel/tunnel.go\<close>): the payloads of its realm, in
  order, up to the point where the realm is torn down.
\<close>

section \<open>Payloads and delivery\<close>

text \<open>
  The payloads for a realm in the outcomes of a socket's reads, as the wire carries them;
  \<open>delivery c pl t t'\<close> relates two states between which the payloads \<open>pl\<close> arrived for connection \<open>c\<close>:
  its queue grew by a prefix of them, by all while it stays registered, and losing the
  registration closes it.
\<close>

definition event_payloads :: "u32 \<Rightarrow> net_error + byte list \<Rightarrow> byte list list" where
  "event_payloads r res =
     (case res of
        Inl _ \<Rightarrow> []
      | Inr data \<Rightarrow>
          (case ParsePacket data of
             Inl _ \<Rightarrow> []
           | Inr p \<Rightarrow> if b_Type (p_Body p) = BodyTypePayload \<and> b_Realm (p_Body p) = r then [b_Data (p_Body p)] else []))"

definition inbox_payloads :: "UDPAddr option \<Rightarrow> u32 \<Rightarrow> (net_error + byte list \<times> UDPAddr) list \<Rightarrow> byte list list" where
  "inbox_payloads raddr r xs =
     concat (map (\<lambda>x. if stranger raddr x then [] else event_payloads r (map_sum id (\<lambda>(d, a). take recv_buffer d) x)) xs)"

text \<open>The payloads an event brings.\<close>

fun arrived :: "u32 \<Rightarrow> tunnel_event \<Rightarrow> byte list list" where
  "arrived r (Inbound now res) = event_payloads r res"
| "arrived r _ = []"

definition same_inbox :: "Tunnel \<Rightarrow> Tunnel \<Rightarrow> bool" where
  "same_inbox t t' \<longleftrightarrow> k_in (u_conn (tn_client t')) = k_in (u_conn (tn_client t)) \<and>
     u_raddr (tn_client t') = u_raddr (tn_client t)"

definition live :: "conn_ref \<Rightarrow> Tunnel \<Rightarrow> bool" where
  "live c t \<longleftrightarrow> c \<in> snd ` set (realm_entries t)"

definition delivery :: "conn_ref \<Rightarrow> byte list list \<Rightarrow> Tunnel \<Rightarrow> Tunnel \<Rightarrow> bool" where
  "delivery c pl t t' \<longleftrightarrow>
     (\<exists>n. c_dataCh (tn_conns t' c) = c_dataCh (tn_conns t c) @ take n pl \<and> (n < length pl \<longrightarrow> \<not> live c t')) \<and>
     (\<not> live c t \<longrightarrow> \<not> live c t' \<and> c_dataCh (tn_conns t' c) = c_dataCh (tn_conns t c)) \<and>
     (live c t \<longrightarrow> live c t' \<or> c_closed (tn_conns t' c)) \<and>
     c_readBuf (tn_conns t' c) = c_readBuf (tn_conns t c)"

section \<open>Each handler delivers\<close>

lemma delivery_refl: "delivery c [] t t"
  by (simp add: delivery_def)

lemma delivery_trans:
  assumes "delivery c pl t u" "delivery c pl' u v" "c_closed (tn_conns u c) \<Longrightarrow> c_closed (tn_conns v c)"
  shows "delivery c (pl @ pl') t v"
proof -
  obtain n where n: "c_dataCh (tn_conns u c) = c_dataCh (tn_conns t c) @ take n pl" "n < length pl \<longrightarrow> \<not> live c u"
    using assms(1) unfolding delivery_def by blast
  obtain n' where n': "c_dataCh (tn_conns v c) = c_dataCh (tn_conns u c) @ take n' pl'" "n' < length pl' \<longrightarrow> \<not> live c v"
    using assms(2) unfolding delivery_def by blast
  have "\<exists>k. c_dataCh (tn_conns v c) = c_dataCh (tn_conns t c) @ take k (pl @ pl') \<and> (k < length (pl @ pl') \<longrightarrow> \<not> live c v)"
  proof (cases "live c u")
    case True
    then have "take n pl = pl" using n(2) by auto
    then show ?thesis using n n' by (intro exI [of _ "length pl + n'"]) auto
  next
    case False
    then have "\<not> live c v" "c_dataCh (tn_conns v c) = c_dataCh (tn_conns u c)"
      using assms(2) by (simp_all add: delivery_def)
    then show ?thesis using n by (intro exI [of _ "min n (length pl)"]) (simp add: min_def)
  qed
  moreover have "\<not> live c t \<longrightarrow> \<not> live c v \<and> c_dataCh (tn_conns v c) = c_dataCh (tn_conns t c)"
    using assms(1,2) by (simp add: delivery_def)
  moreover have "live c t \<longrightarrow> live c v \<or> c_closed (tn_conns v c)"
    using assms by (auto simp: delivery_def)
  moreover have "c_readBuf (tn_conns v c) = c_readBuf (tn_conns t c)"
    using assms by (simp add: delivery_def)
  ultimately show ?thesis by (simp add: delivery_def)
qed

lemma delivery_same:
  assumes "c_dataCh (tn_conns t' c) = c_dataCh (tn_conns t c)" "live c t' = live c t"
    "c_readBuf (tn_conns t' c) = c_readBuf (tn_conns t c)"
  shows "delivery c [] t t'"
  using assms by (simp add: delivery_def)

lemma delivery_queued:
  assumes "c_dataCh (tn_conns t' c) = c_dataCh (tn_conns t c) @ [d]" "live c t" "live c t'"
    "c_readBuf (tn_conns t' c) = c_readBuf (tn_conns t c)"
  shows "delivery c [d] t t'"
  using assms by (auto simp: delivery_def intro: exI [of _ 1])

lemma delivery_dropped:
  assumes "c_dataCh (tn_conns t' c) = c_dataCh (tn_conns t c)" "\<not> live c t'" "live c t \<Longrightarrow> c_closed (tn_conns t' c)"
    "c_readBuf (tn_conns t' c) = c_readBuf (tn_conns t c)"
  shows "delivery c pl t t'"
  using assms by (auto simp: delivery_def intro: exI [of _ 0])

lemma realm_lookup_iff:
  "tunnel_inv t \<Longrightarrow> realm_lookup t r = Some c \<longleftrightarrow> (r, c) \<in> set (realm_entries t)"
  by (auto simp: realm_lookup_def inv_defs split: option.splits)

lemma live_realmID:
  "tunnel_inv t \<Longrightarrow> live c t \<Longrightarrow> (c_realmID (tn_conns t c), c) \<in> set (realm_entries t)"
  by (auto simp: live_def tunnel_inv_def table_inv_def)

lemma live_delete:
  "tunnel_inv t \<Longrightarrow> live c (realm_delete r t) \<longleftrightarrow> live c t \<and> c_realmID (tn_conns t c) \<noteq> r"
  using tunnel_invD(2) [of t] unfolding table_inv_def live_def
  by (simp add: image_iff Bex_def split_paired_Ex mem_delete) metis

lemma realm_lookup_live: "tunnel_inv t \<Longrightarrow> live c t \<Longrightarrow> realm_lookup t (c_realmID (tn_conns t c)) = Some c"
  using live_realmID [of t c] by (simp add: realm_lookup_iff)

lemma live_lookup:
  "tunnel_inv t \<Longrightarrow> realm_lookup t r = Some c \<Longrightarrow> live c t \<and> c_realmID (tn_conns t c) = r"
  using tunnel_invD(2) [of t] unfolding table_inv_def live_def
  by (auto simp: realm_lookup_iff intro: image_eqI [where x = "(r, c)"])

lemma signalClosed_live [simp]: "tunnel_inv t \<Longrightarrow> live c (signalClosed now d t) = live c t"
  by (simp add: signalClosed_eq tunnel_invD live_def realm_entries_def)

lemma signalClosed_conns [simp]:
  "tunnel_inv t \<Longrightarrow> tn_conns (signalClosed now d t) = (\<lambda>c. shut (c = d) (tn_conns t c))"
  by (simp add: signalClosed_eq tunnel_invD)

lemma sendPacket_live [simp]: "live c (snd (sendPacket now b t)) = live c t"
  by (simp add: live_def realm_entries_def)

lemma scheduleACK_simps [simp]:
  "tn_conns (scheduleACK t) = tn_conns t" "live c (scheduleACK t) = live c t"
  by (simp_all add: scheduleACK_def live_def realm_entries_def)

lemma reader_connect_delivery: "delivery c [] t (reader_connect r t)"
  by (rule delivery_same) (simp_all add: reader_connect_def connCh_delete_def live_def realm_entries_def split: option.splits)

lemma reader_disconnect_delivery:
  assumes "tunnel_inv t" shows "delivery c [] t (reader_disconnect now r t)"
proof (cases "realm_lookup t r")
  case (Some d)
  have "c_realmID (tn_conns t c) = r \<Longrightarrow> live c t \<Longrightarrow> c = d"
    using realm_lookup_live [OF assms, of c] Some by simp
  then show ?thesis
    using Some assms
    by (auto simp: delivery_def reader_disconnect_def realm_delete_inv live_delete)
qed (simp add: reader_disconnect_def delivery_refl)

lemma reader_payload_delivery:
  assumes "tunnel_inv t"
  shows "delivery c (if r = c_realmID (tn_conns t c) then [data] else []) t (reader_payload now r data t)"
proof (cases "realm_lookup t r")
  case (Some d)
  have d: "live d t" "c_realmID (tn_conns t d) = r" using live_lookup [OF assms Some] by simp_all
  have c: "c_realmID (tn_conns t c) = r \<Longrightarrow> live c t \<Longrightarrow> c = d"
    using realm_lookup_live [OF assms, of c] Some by simp
  show ?thesis
  proof (cases "length (c_dataCh (tn_conns t d)) < dataCh_capacity")
    case True
    then have eq: "reader_payload now r data t = update_conn d (\<lambda>c. c\<lparr>c_dataCh := c_dataCh c @ [data]\<rparr>) t"
      by (simp add: reader_payload_def Some)
    have l: "live c (reader_payload now r data t) = live c t"
      unfolding eq by (simp add: live_def realm_entries_def)
    show ?thesis
    proof (cases "c = d")
      case True
      have "delivery c [data] t (reader_payload now r data t)"
        using l d True by (intro delivery_queued) (simp_all add: eq)
      then show ?thesis using d True by simp
    next
      case False
      then have same: "tn_conns (reader_payload now r data t) c = tn_conns t c" by (simp add: eq)
      show ?thesis
      proof (cases "live c t")
        case True
        then show ?thesis using c False delivery_same [of _ c t] same l by auto
      next
        case False
        then show ?thesis using same l by (intro delivery_dropped) simp_all
      qed
    qed
  next
    case False
    let ?t = "reader_payload now r data t"
    have eq: "tn_conns ?t = (\<lambda>c. shut (c = d) (tn_conns t c))" "live c ?t \<longleftrightarrow> live c t \<and> c_realmID (tn_conns t c) \<noteq> r"
      using False Some assms by (simp_all add: reader_payload_def Let_def realm_delete_inv live_delete)
    show ?thesis
    proof (cases "r = c_realmID (tn_conns t c)")
      case True
      then show ?thesis using c eq by (intro delivery_dropped) simp_all
    next
      case False
      then show ?thesis using eq by (auto intro!: delivery_same)
    qed
  qed
next
  case None
  then have l: "c_realmID (tn_conns t c) = r \<Longrightarrow> \<not> live c t"
    using realm_lookup_live [OF assms, of c] by auto
  have eq: "reader_payload now r data t = t" by (simp add: reader_payload_def None)
  show ?thesis
    using l delivery_refl by (auto simp: eq intro!: delivery_dropped)
qed

lemma delivery_scheduleACK [simp]: "delivery c pl t (scheduleACK u) = delivery c pl t u"
  by (simp add: delivery_def)

lemma reader_packet_delivery:
  assumes "tunnel_inv t"
  shows "delivery c (if b_Type (p_Body p) = BodyTypePayload \<and> b_Realm (p_Body p) = c_realmID (tn_conns t c)
      then [b_Data (p_Body p)] else []) t (reader_packet now p t)"
proof (cases "b_Type (p_Body p)")
  case BodyTypeSync
  have "delivery c [] t (snd (sendPacket now NewSyncBody t))" by (rule delivery_same) simp_all
  then show ?thesis by (simp add: reader_packet_def BodyTypeSync)
next
  case BodyTypePayload
  show ?thesis
    using reader_payload_delivery [OF assms, of c "b_Realm (p_Body p)" "b_Data (p_Body p)" now]
    by (simp add: reader_packet_def BodyTypePayload Let_def split: if_splits)
qed (simp_all add: reader_packet_def Let_def delivery_refl reader_connect_delivery reader_disconnect_delivery [OF assms])

lemma close_delivery:
  assumes "tn_activeWriter t = None"
  shows "delivery c [] t (snd (Tunnel_Close now t))"
proof (cases "tn_closed t")
  case False
  then show ?thesis
    using assms
    by (intro delivery_dropped) (simp_all add: Tunnel_Close_open Let_def live_def realm_entries_def)
qed (simp add: Tunnel_Close_closed delivery_refl)

lemma delivery_health [simp]:
  "delivery c pl (t\<lparr>tn_consecutiveReadErrs := n\<rparr>) u = delivery c pl t u"
  "delivery c pl u (t\<lparr>tn_consecutiveReadErrs := n\<rparr>) = delivery c pl u t"
  "delivery c pl (t\<lparr>tn_session := s\<rparr>) u = delivery c pl t u"
  "delivery c pl (ackHeartbeat now t) u = delivery c pl t u"
  "delivery c pl (t\<lparr>tn_client := cl\<rparr>) u = delivery c pl t u"
  by (simp_all add: delivery_def live_def realm_entries_def ackHeartbeat_def)

lemma reader_handle_delivery:
  assumes "tunnel_inv t"
  shows "delivery c (event_payloads (c_realmID (tn_conns t c)) res) t (snd (reader_handle now res t))"
proof (cases res)
  case (Inl err)
  then show ?thesis
    using close_delivery [of "t\<lparr>tn_consecutiveReadErrs := Suc (tn_consecutiveReadErrs t)\<rparr>" c now] tunnel_invD(5) [OF assms]
    by (simp add: reader_handle_def event_payloads_def Let_def delivery_refl)
next
  case (Inr data)
  show ?thesis
  proof (cases "ParsePacket data")
    case (Inr p)
    let ?u = "(ackHeartbeat now (t\<lparr>tn_consecutiveReadErrs := 0\<rparr>))
      \<lparr>tn_session := snd (Session_Recv (tn_session (ackHeartbeat now (t\<lparr>tn_consecutiveReadErrs := 0\<rparr>))) p)\<rparr>"
    have "tunnel_inv ?u" using assms by (rule reading_inv)
    from reader_packet_delivery [OF this, of c p now] show ?thesis
      by (simp add: reader_handle_def event_payloads_def Inr \<open>res = Inr data\<close> Let_def)
        (auto simp: ackHeartbeat_def split: if_splits)
  qed (simp add: reader_handle_def event_payloads_def \<open>res = Inr data\<close> delivery_refl)
qed

lemma sendHeartbeat_delivery:
  assumes "tunnel_inv t" shows "delivery c [] t (sendHeartbeat now t)"
proof -
  let ?u = "t\<lparr>tn_missedHeartbeats := Suc (tn_missedHeartbeats t)\<rparr>"
  let ?v = "snd (outboundStalled now (snd (sendPacket now NewHeartbeatBody ?u)))"
  have same: "tn_conns ?u = tn_conns t" "live c ?u = live c t" "tn_conns ?v = tn_conns t" "live c ?v = live c t"
    by (simp_all add: outboundStalled_def Let_def live_def realm_entries_def split: option.splits)
  have close: "delivery c [] t (snd (Tunnel_Close now w))"
    if "tn_conns w = tn_conns t" "live c w = live c t" "tn_activeWriter w = None" for w
    using close_delivery [OF that(3), of c now] that(1,2) by (simp add: delivery_def)
  have "tn_activeWriter ?v = None"
    using tunnel_invD(5) [OF assms] by (simp add: outboundStalled_def Let_def split: option.splits)
  then show ?thesis
    using close [of ?u] close [of ?v] same tunnel_invD(5) [OF assms] delivery_same [of ?v c t]
    by (simp add: sendHeartbeat_def Let_def case_prod_beta delivery_refl)
qed

lemma flushACK_delivery:
  assumes "tunnel_inv t" shows "delivery c [] t (flushACK now t)"
proof -
  have "delivery c [] t (snd (Tunnel_Close now w))" "delivery c [] t w"
    if "tn_conns w = tn_conns t" "live c w = live c t" "tn_activeWriter w = None" for w
    using close_delivery [OF that(3), of c now] that(1,2) by (simp_all add: delivery_def)
  then show ?thesis using tunnel_invD(5) [OF assms]
    by (simp add: flushACK_def Let_def sendPacket_eq live_def realm_entries_def)
qed

lemma handle_event_delivery:
  "tunnel_inv t \<Longrightarrow> delivery c (arrived (c_realmID (tn_conns t c)) e) t (handle_event e t)"
  by (cases e) (simp_all add: sendHeartbeat_delivery flushACK_delivery reader_handle_delivery)

lemma inbox_payloads_simps [simp]:
  "inbox_payloads raddr r [] = []" "inbox_payloads raddr r (xs @ ys) = inbox_payloads raddr r xs @ inbox_payloads raddr r ys"
  "inbox_payloads raddr r (x # xs) = (if stranger raddr x then [] else event_payloads r (map_sum id (\<lambda>(d, a). take recv_buffer d) x)) @ inbox_payloads raddr r xs"
  by (simp_all add: inbox_payloads_def)

lemma scan_payloads:
  "\<exists>used. xs = used @ snd (scan_inbox raddr xs) \<and>
     inbox_payloads raddr r used = event_payloads r (fst (scan_inbox raddr xs))"
proof (induction raddr xs rule: scan_inbox.induct)
  case (1 raddr)
  then show ?case by (simp add: event_payloads_def)
next
  case (2 raddr e xs)
  then show ?case by (intro exI [of _ "[Inl e]"]) (simp add: event_payloads_def)
next
  case (3 raddr d a xs)
  show ?case
  proof (cases "sameUDPAddr (Some a) raddr")
    case True
    then show ?thesis by (intro exI [of _ "[Inr (d, a)]"]) simp
  next
    case False
    from "3" [OF False] obtain used where "xs = used @ snd (scan_inbox raddr xs)"
      "inbox_payloads raddr r used = event_payloads r (fst (scan_inbox raddr xs))" by blast
    then show ?thesis using False by (intro exI [of _ "Inr (d, a) # used"]) simp
  qed
qed

lemma udp_send_all_inbox [simp]: "k_in (u_conn (udp_send_all cl ds)) = k_in (u_conn cl)"
  by (induction ds arbitrary: cl) simp_all

lemma UDP_Close_inbox [simp]:
  "k_in (u_conn (snd (UDP_Close cl))) = k_in (u_conn cl)" "u_raddr (snd (UDP_Close cl)) = u_raddr cl"
  by (simp_all add: UDP_Close_def CloseUDP_def)

lemma close_same_inbox: "tn_activeWriter t = None \<Longrightarrow> same_inbox t (snd (Tunnel_Close now t))"
  by (cases "tn_closed t") (simp_all add: same_inbox_def Tunnel_Close_closed Tunnel_Close_open Let_def)

lemma reader_packet_same_inbox: "tunnel_inv t \<Longrightarrow> same_inbox t (reader_packet now p t)"
  by (simp add: same_inbox_def reader_packet_def Let_def scheduleACK_def sendPacket_eq reader_connect_def
      reader_disconnect_def reader_payload_def connCh_delete_def signalClosed_eq tunnel_invD
      split: BodyType.splits option.splits)

lemma reader_handle_same_inbox:
  assumes "tunnel_inv t" shows "same_inbox t (snd (reader_handle now res t))"
proof (cases res)
  case (Inl err)
  then show ?thesis
    using close_same_inbox [of "t\<lparr>tn_consecutiveReadErrs := Suc (tn_consecutiveReadErrs t)\<rparr>" now] tunnel_invD(5) [OF assms]
    by (simp add: reader_handle_def same_inbox_def Let_def)
next
  case (Inr data)
  from reader_packet_same_inbox [OF reading_inv [OF assms]] show ?thesis
    by (auto simp: reader_handle_def Inr Let_def same_inbox_def ackHeartbeat_def split: sum.splits)
qed

lemma UDP_ReadRaw_scan:
  assumes "k_open (u_conn cl)" "0 < d" "UDP_ReadRaw now cl d = (res, cl')"
  shows "res = fst (scan_inbox (u_raddr cl) (k_in (u_conn cl)))"
    "k_in (u_conn cl') = snd (scan_inbox (u_raddr cl) (k_in (u_conn cl)))"
    "u_raddr cl' = u_raddr cl" "k_open (u_conn cl')"
  using assms by (auto simp: UDP_ReadRaw_def UDP_Recv_def SetReadDeadline_def recv_loop_scan)

lemma tunnel_inv_client:
  "k_open (u_conn cl) = k_open (u_conn (tn_client t)) \<Longrightarrow> tunnel_inv (t\<lparr>tn_client := cl\<rparr>) = tunnel_inv t"
  by (simp add: inv_defs)

lemma reader_turn_delivery:
  assumes "tunnel_inv t" "reader_turn now t = (go, t')"
  shows "\<exists>used. k_in (u_conn (tn_client t)) = used @ k_in (u_conn (tn_client t')) \<and>
    u_raddr (tn_client t') = u_raddr (tn_client t) \<and> tunnel_inv t' \<and> advances t t' \<and>
    delivery c (inbox_payloads (u_raddr (tn_client t)) (c_realmID (tn_conns t c)) used) t t'"
proof (cases "tn_done t")
  case True
  then show ?thesis using assms by (simp add: reader_turn_def delivery_refl)
next
  case False
  obtain res cl where r: "UDP_ReadRaw now (tn_client t) (1 * second) = (res, cl)" by fastforce
  have op: "k_open (u_conn (tn_client t))" using False assms(1) by (simp add: tunnel_inv_def life_inv_def)
  have "0 < 1 * second" by simp
  note sc = UDP_ReadRaw_scan [OF op this r]
  let ?u = "t\<lparr>tn_client := cl\<rparr>"
  have u: "tunnel_inv ?u" using assms(1) sc op by (simp add: tunnel_inv_client)
  have t': "t' = snd (reader_handle now res ?u)"
    using False assms(2) r by (simp add: reader_turn_def)
  obtain used where "k_in (u_conn (tn_client t)) = used @ k_in (u_conn cl)"
    "inbox_payloads (u_raddr (tn_client t)) (c_realmID (tn_conns t c)) used = event_payloads (c_realmID (tn_conns t c)) res"
    using scan_payloads sc by metis
  moreover have "same_inbox ?u t'" unfolding t' using u by (rule reader_handle_same_inbox)
  moreover have "delivery c (event_payloads (c_realmID (tn_conns t c)) res) t t'"
    using reader_handle_delivery [OF u, of c res now] by (simp add: t')
  moreover have "tunnel_inv t'" "advances t t'"
    using reader_handle_inv [OF u] reader_handle_advances [OF u, of now res] by (simp_all add: t' advances_def)
  ultimately show ?thesis using sc by (auto simp: same_inbox_def)
qed

lemma live_less: "tunnel_inv t \<Longrightarrow> live c t \<Longrightarrow> c < tn_next t"
  by (auto simp: live_def tunnel_inv_def table_inv_def)

lemma reader_delivery:
  assumes "tunnel_inv t" "c < tn_next t"
  shows "\<exists>used. k_in (u_conn (tn_client t)) = used @ k_in (u_conn (tn_client (reader nows t))) \<and>
    delivery c (inbox_payloads (u_raddr (tn_client t)) (c_realmID (tn_conns t c)) used) t (reader nows t) \<and>
    advances t (reader nows t)"
  using assms
proof (induction nows arbitrary: t)
  case (Cons now nows)
  obtain go u where turn: "reader_turn now t = (go, u)" by fastforce
  from reader_turn_delivery [OF Cons.prems(1) turn, of c] obtain used where
    used: "k_in (u_conn (tn_client t)) = used @ k_in (u_conn (tn_client u))"
    "u_raddr (tn_client u) = u_raddr (tn_client t)" "tunnel_inv u" "advances t u"
    "delivery c (inbox_payloads (u_raddr (tn_client t)) (c_realmID (tn_conns t c)) used) t u" by blast
  have u: "c < tn_next u" "c_realmID (tn_conns u c) = c_realmID (tn_conns t c)"
    using used(4) Cons.prems(2) by (auto simp: advances_def)
  from Cons.IH [OF used(3) u(1)] obtain more where
    more: "k_in (u_conn (tn_client u)) = more @ k_in (u_conn (tn_client (reader nows u)))"
    "delivery c (inbox_payloads (u_raddr (tn_client u)) (c_realmID (tn_conns u c)) more) u (reader nows u)"
    "advances u (reader nows u)" by blast
  have "c_closed (tn_conns u c) \<Longrightarrow> c_closed (tn_conns (reader nows u) c)"
    using more(3) u(1) by (simp add: advances_def)
  from delivery_trans [OF used(5) more(2) this] more used u turn show ?case
    by (cases go) (auto intro: exI [of _ "used @ more"] advances_trans)
qed (simp add: delivery_refl)

section \<open>Properties\<close>

text \<open>
  (C23) The reader never leaves a hole in a realm's stream: whatever arrives on the socket and
  whenever the reader runs, the queue of a registered connection grows by a prefix of the payloads
  the device sent to its realm, in order, and if any payload is missing the connection has been
  closed, so that its consumer sees end of file after the prefix.
\<close>

theorem reader_leaves_no_hole:
  assumes "tunnel_inv t" "realm_lookup t r = Some c"
  shows "\<exists>used n. k_in (u_conn (tn_client t)) = used @ k_in (u_conn (tn_client (reader nows t))) \<and>
    c_dataCh (tn_conns (reader nows t) c) =
      c_dataCh (tn_conns t c) @ take n (inbox_payloads (u_raddr (tn_client t)) r used) \<and>
    (n < length (inbox_payloads (u_raddr (tn_client t)) r used) \<longrightarrow> c_closed (tn_conns (reader nows t) c))"
proof -
  have c: "live c t" "c_realmID (tn_conns t c) = r" using live_lookup [OF assms] by simp_all
  from reader_delivery [OF assms(1) live_less [OF assms(1) c(1)], of nows] c show ?thesis
    unfolding delivery_def by metis
qed

theorem reader_leaves_no_hole_witness:
  "let payload = Packet_Serialize (fst (Session_Send NewSession (NewPayloadBody 7 [1, 2])));
       t = (sample_tunnel [7])\<lparr>tn_client := sample_client\<lparr>u_conn := (u_conn sample_client)
             \<lparr>k_in := [Inr ([9], sample_peer\<lparr>a_Port := 1\<rparr>), Inr (payload, sample_peer)]\<rparr>\<rparr>\<rparr>
   in \<exists>used n. k_in (u_conn (tn_client t)) = used @ k_in (u_conn (tn_client (reader [0, 1] t))) \<and>
        c_dataCh (tn_conns (reader [0, 1] t) 0) = take n (inbox_payloads (Some sample_peer) 7 used) \<and>
        (n < length (inbox_payloads (Some sample_peer) 7 used) \<longrightarrow> c_closed (tn_conns (reader [0, 1] t) 0))"
proof -
  define cl where "cl xs = sample_client\<lparr>u_conn := (u_conn sample_client)\<lparr>k_in := xs\<rparr>\<rparr>" for xs
  have inv: "tunnel_inv ((sample_tunnel [7])\<lparr>tn_client := cl xs\<rparr>)" for xs
    using sample_inv [of "[7]"]
    by (subst tunnel_inv_client) (simp_all add: cl_def sample_tunnel_def Tunnel_New_def)
  have t: "realm_lookup ((sample_tunnel [7])\<lparr>tn_client := cl xs\<rparr>) 7 = Some 0"
    "u_raddr (cl xs) = Some sample_peer" "c_dataCh (tn_conns (sample_tunnel [7]) 0) = []" for xs
    by (simp_all add: realm_lookup_def sample_tunnel_def cl_def sample_client_def Tunnel_New_def zero_Conn_def)
  show ?thesis
    using reader_leaves_no_hole [OF inv t(1), where nows = "[0, 1]"] t(2,3)
    by (simp add: Let_def cl_def [symmetric] del: reader.simps)
qed

end
