(* ===== verification/Tunnel_Conn.thy ===== *)
theory Tunnel_Conn
  imports Tunnel_Delivery
begin

text \<open>
  The operations of a connection (\<^verbatim>\<open>tunnel/tunnel.go\<close>, type \<open>Conn\<close>): reading with its deadline,
  writing in fragments, closing, and the deadline setters.
\<close>

section \<open>Reading\<close>

text \<open>
  \<open>Read\<close> runs from the head of its loop to a return or to its select statement, where it waits with
  the deadline and the deadline channel it has captured. The result of a successful read is the
  bytes copied into the caller's buffer of length \<open>n\<close>.
\<close>

datatype read_state =
  ReadReturned "tun_error + byte list"
| ReadSelect time nat

definition readData :: "nat \<Rightarrow> conn_ref \<Rightarrow> byte list \<Rightarrow> Tunnel \<Rightarrow> read_state \<times> Tunnel" where
  "readData n c data t =
     (let k = min n (length data)
      in (ReadReturned (Inr (take k data)),
          if k < length data
          then update_conn c (\<lambda>conn. conn\<lparr>c_readBuf := c_readBuf conn @ drop k data\<rparr>) t
          else t))"

text \<open>Receiving from the data channel.\<close>

definition pop_data :: "conn_ref \<Rightarrow> Tunnel \<Rightarrow> (byte list \<times> Tunnel) option" where
  "pop_data c t =
     (case c_dataCh (tn_conns t c) of
        [] \<Rightarrow> None
      | data # rest \<Rightarrow> Some (data, update_conn c (\<lambda>conn. conn\<lparr>c_dataCh := rest\<rparr>) t))"

definition Conn_Read :: "int \<Rightarrow> nat \<Rightarrow> conn_ref \<Rightarrow> Tunnel \<Rightarrow> read_state \<times> Tunnel" where
  "Conn_Read now n c t =
     (let conn = tn_conns t c
      in if c_readBuf conn \<noteq> [] then
           (let k = min n (length (c_readBuf conn))
            in (ReadReturned (Inr (take k (c_readBuf conn))),
                update_conn c (\<lambda>conn. conn\<lparr>c_readBuf := drop k (c_readBuf conn)\<rparr>) t))
         else
           (let t = update_conn c (\<lambda>conn. if c_readDeadlineChanged conn = 0
                                     then conn\<lparr>c_readDeadlineChanged := 1\<rparr> else conn) t;
                closed = c_closed (tn_conns t c);
                deadline = c_readDeadline (tn_conns t c);
                deadlineChanged = c_readDeadlineChanged (tn_conns t c)
            in if closed then
                 (case pop_data c t of
                    Some (data, t) \<Rightarrow> readData n c data t
                  | None \<Rightarrow> (ReadReturned (Inl ErrEOF), t))
               else if deadline_passed now deadline then (ReadReturned (Inl ErrDeadlineExceeded), t)
               else (ReadSelect deadline deadlineChanged, t)))"

text \<open>
  The select statement takes any case that is ready: queued data, the close channel, a replaced
  deadline channel, the timer. \<open>None\<close> says that the chosen case is not ready.
\<close>

datatype wake = WakeData | WakeClosed | WakeDeadlineChanged | WakeTimeout

fun read_select ::
    "int \<Rightarrow> nat \<Rightarrow> conn_ref \<Rightarrow> time \<Rightarrow> nat \<Rightarrow> wake \<Rightarrow> Tunnel \<Rightarrow> (read_state \<times> Tunnel) option" where
  "read_select now n c deadline ch WakeData t =
     (case pop_data c t of Some (data, t) \<Rightarrow> Some (readData n c data t) | None \<Rightarrow> None)"
| "read_select now n c deadline ch WakeClosed t =
     (if c_closeCh (tn_conns t c) then Some (Conn_Read now n c t) else None)"
| "read_select now n c deadline ch WakeDeadlineChanged t =
     (if c_readDeadlineChanged (tn_conns t c) \<noteq> ch then Some (Conn_Read now n c t) else None)"
| "read_select now n c deadline ch WakeTimeout t =
     (if deadline_passed now deadline then Some (ReadReturned (Inl ErrDeadlineExceeded), t) else None)"

section \<open>Writing\<close>

definition maxPayloadSize :: nat where
  "maxPayloadSize = 1280"

text \<open>
  The loop of \<open>Write\<close>; \<open>clock i\<close> is the time at which the \<open>i\<close>-th fragment is sent. The result is the
  number of bytes written and the error, if any.
\<close>

function write_loop ::
    "(nat \<Rightarrow> int) \<Rightarrow> nat \<Rightarrow> conn_ref \<Rightarrow> byte list \<Rightarrow> nat \<Rightarrow> Tunnel \<Rightarrow> (nat \<times> tun_error option) \<times> Tunnel" where
  "write_loop clock i c p n t =
     (if p = [] then ((n, None), t)
      else
        (let chunk = (if length p > maxPayloadSize then take maxPayloadSize p else p);
             p = drop (length chunk) p
         in case sendPacketFor (clock i) (NewPayloadBody (c_realmID (tn_conns t c)) chunk) (Some c) t of
              (Some e, t) \<Rightarrow> ((n, Some e), t)
            | (None, t) \<Rightarrow> write_loop clock (Suc i) c p (n + length chunk) t))"
  by pat_completeness auto
termination
  by (relation "measure (\<lambda>(clock, i, c, p, n, t). length p)") (auto simp: maxPayloadSize_def)

declare write_loop.simps [simp del]

definition Conn_Write ::
    "(nat \<Rightarrow> int) \<Rightarrow> conn_ref \<Rightarrow> byte list \<Rightarrow> Tunnel \<Rightarrow> (nat \<times> tun_error option) \<times> Tunnel" where
  "Conn_Write clock c p t =
     (if c_closed (tn_conns t c) then ((0, Some ErrTunnelClosed), t)
      else if Tunnel_IsClosed t then ((0, Some ErrTunnelClosed), t)
      else write_loop clock 0 c p 0 t)"

section \<open>Closing\<close>

text \<open>The three stages of \<open>Close\<close>: mark and signal, send the disconnects, forget the realm.\<close>

definition close_mark :: "int \<Rightarrow> conn_ref \<Rightarrow> Tunnel \<Rightarrow> bool \<times> Tunnel" where
  "close_mark now c t =
     (let alreadyClosed = c_closed (tn_conns t c);
          t = update_conn c (\<lambda>conn. conn\<lparr>c_closed := True\<rparr>) t
      in (alreadyClosed, signalClosed now c t))"

definition discRetries :: nat where
  "discRetries = 3"

fun send_discs :: "int \<Rightarrow> conn_ref \<Rightarrow> nat \<Rightarrow> Tunnel \<Rightarrow> Tunnel" where
  "send_discs now c 0 t = t"
| "send_discs now c (Suc k) t =
     (case sendPacket now (NewStatusBody (c_realmID (tn_conns t c)) StatusDisconnect) t of
        (Some e, t) \<Rightarrow> t
      | (None, t) \<Rightarrow> send_discs now c k t)"

definition Conn_Close :: "int \<Rightarrow> conn_ref \<Rightarrow> Tunnel \<Rightarrow> Tunnel" where
  "Conn_Close now c t =
     (let (alreadyClosed, t) = close_mark now c t
      in if alreadyClosed then t
         else
           (let t = (if \<not> Tunnel_IsClosed t then send_discs now c discRetries t else t)
            in realm_delete (c_realmID (tn_conns t c)) t))"

section \<open>Deadlines\<close>

definition notifyReadDeadlineLocked :: "Conn \<Rightarrow> Conn" where
  "notifyReadDeadlineLocked conn = conn\<lparr>c_readDeadlineChanged := Suc (c_readDeadlineChanged conn)\<rparr>"

definition notifyWriteDeadlineLocked :: "Conn \<Rightarrow> Conn" where
  "notifyWriteDeadlineLocked conn = conn\<lparr>c_writeDeadlineChanged := Suc (c_writeDeadlineChanged conn)\<rparr>"

definition Conn_SetDeadline :: "conn_ref \<Rightarrow> time \<Rightarrow> Tunnel \<Rightarrow> tun_error option \<times> Tunnel" where
  "Conn_SetDeadline c d t =
     (let t = update_conn c (\<lambda>conn. conn\<lparr>c_readDeadline := d\<rparr>) t;
          t = update_conn c (\<lambda>conn. conn\<lparr>c_writeDeadline := d\<rparr>) t;
          t = update_conn c notifyReadDeadlineLocked t;
          t = update_conn c notifyWriteDeadlineLocked t
      in updateWriteDeadline c d t)"

definition Conn_SetReadDeadline :: "conn_ref \<Rightarrow> time \<Rightarrow> Tunnel \<Rightarrow> tun_error option \<times> Tunnel" where
  "Conn_SetReadDeadline c d t =
     (let t = update_conn c (\<lambda>conn. conn\<lparr>c_readDeadline := d\<rparr>) t
      in (None, update_conn c notifyReadDeadlineLocked t))"

definition Conn_SetWriteDeadline :: "conn_ref \<Rightarrow> time \<Rightarrow> Tunnel \<Rightarrow> tun_error option \<times> Tunnel" where
  "Conn_SetWriteDeadline c d t =
     (let t = update_conn c (\<lambda>conn. conn\<lparr>c_writeDeadline := d\<rparr>) t;
          t = update_conn c notifyWriteDeadlineLocked t
      in updateWriteDeadline c d t)"

section \<open>What a write does\<close>

text \<open>
  The write path step by step: \<open>write_refused\<close> is the error a fragment meets before the socket,
  \<open>with_wdc\<close> and \<open>written\<close> the states a refused and an attempted fragment leave, and \<open>fragments\<close> the
  reference for the fragmentation.
\<close>

definition with_wdc :: "conn_ref \<Rightarrow> Tunnel \<Rightarrow> Tunnel" where
  "with_wdc c t = update_conn c (\<lambda>conn. if c_writeDeadlineChanged conn = 0
                                    then conn\<lparr>c_writeDeadlineChanged := 1\<rparr> else conn) t"

definition write_refused :: "int \<Rightarrow> conn_ref \<Rightarrow> Tunnel \<Rightarrow> tun_error option" where
  "write_refused now c t =
     (if c_closed (tn_conns t c) then Some ErrTunnelClosed
      else if deadline_passed now (c_writeDeadline (tn_conns t c)) then Some ErrDeadlineExceeded
      else if c_closeCh (tn_conns t c) \<or> tn_done t then Some ErrTunnelClosed
      else None)"

definition written :: "conn_ref \<Rightarrow> Body \<Rightarrow> Tunnel \<Rightarrow> Tunnel" where
  "written c body t = (with_wdc c t)
     \<lparr>tn_session := snd (Session_Send (tn_session t) body),
      tn_client := snd (UDP_SetWriteDeadline
         (snd (UDP_Send (snd (UDP_SetWriteDeadline (tn_client t) (c_writeDeadline (tn_conns t c))))
            (Packet_Serialize (fst (Session_Send (tn_session t) body))))) None)\<rparr>"

function fragments :: "byte list \<Rightarrow> byte list list" where
  "fragments p = (if p = [] then [] else take 1280 p # fragments (drop 1280 p))"
  by pat_completeness auto
termination by (relation "measure length") auto

declare fragments.simps [simp del]

lemma with_wdc_simps [simp]:
  "tn_client (with_wdc c t) = tn_client t" "tn_session (with_wdc c t) = tn_session t"
  "tn_done (with_wdc c t) = tn_done t" "tn_closed (with_wdc c t) = tn_closed t"
  "tn_activeWriter (with_wdc c t) = tn_activeWriter t"
  "tn_realms (with_wdc c t) = tn_realms t" "tn_connCh (with_wdc c t) = tn_connCh t"
  "tn_next (with_wdc c t) = tn_next t" "tn_grants (with_wdc c t) = tn_grants t"
  "tn_retired (with_wdc c t) = tn_retired t"
  "tn_onClose (with_wdc c t) = tn_onClose t"
  "tn_onCloseRuns (with_wdc c t) = tn_onCloseRuns t"
  "tn_consecutiveReadErrs (with_wdc c t) = tn_consecutiveReadErrs t"
  "tn_consecutiveSendErrs (with_wdc c t) = tn_consecutiveSendErrs t"
  "tn_missedHeartbeats (with_wdc c t) = tn_missedHeartbeats t"
  by (simp_all add: with_wdc_def update_conn_def)

lemma with_wdc_conn [simp]:
  "c_closed (tn_conns (with_wdc c t) d) = c_closed (tn_conns t d)"
  "c_closeCh (tn_conns (with_wdc c t) d) = c_closeCh (tn_conns t d)"
  "c_realmID (tn_conns (with_wdc c t) d) = c_realmID (tn_conns t d)"
  "c_dataCh (tn_conns (with_wdc c t) d) = c_dataCh (tn_conns t d)"
  "c_readBuf (tn_conns (with_wdc c t) d) = c_readBuf (tn_conns t d)"
  "c_writeDeadline (tn_conns (with_wdc c t) d) = c_writeDeadline (tn_conns t d)"
  by (simp_all add: with_wdc_def update_conn_def)

lemma sendPacketFor_refused:
  "write_refused now c t = Some e \<Longrightarrow> sendPacketFor now body (Some c) t = (Some e, with_wdc c t)"
  by (auto simp: write_refused_def sendPacketFor_def acquireSendPermit_def Let_def with_wdc_def [symmetric] split: if_splits)

lemma sendPacketFor_written:
  assumes "write_refused now c t = None" "tn_activeWriter t = None" "k_open (u_conn (tn_client t))"
  shows "sendPacketFor now body (Some c) t =
    (map_option ErrNet (fst (UDP_Send (tn_client t) (Packet_Serialize (fst (Session_Send (tn_session t) body))))),
     written c body t)"
proof -
  have e: "fst (UDP_Send (snd (UDP_SetWriteDeadline cl d)) x) = fst (UDP_Send cl x)" for cl d x
    by (simp add: UDP_Send_def UDP_SetWriteDeadline_def SetWriteDeadline_def WriteToUDP_def Let_def case_prod_beta
        split: option.splits list.splits)
  have ok: "fst (UDP_SetWriteDeadline (tn_client t) d) = None" for d
    using assms(3) by (simp add: UDP_SetWriteDeadline_def SetWriteDeadline_def)
  have st: "v\<lparr>tn_activeWriter := a, tn_client := cl, tn_session := s, tn_client := cl', tn_activeWriter := None, tn_client := cl''\<rparr> =
      v\<lparr>tn_session := s, tn_client := cl''\<rparr>" if "tn_activeWriter v = None" for v :: Tunnel and a cl s cl' cl''
    using that by (cases v) simp
  from assms(1,2) show ?thesis
    unfolding write_refused_def
    by (auto simp: sendPacketFor_def acquireSendPermit_def Let_def with_wdc_def [symmetric] send_body_def case_prod_beta
       written_def e ok st split: if_splits)
qed

lemma written_simps [simp]:
  "tn_session (written c body t) = snd (Session_Send (tn_session t) body)"
  "tn_conns (written c body t) = tn_conns (with_wdc c t)"
  "tn_done (written c body t) = tn_done t" "tn_closed (written c body t) = tn_closed t"
  "tn_activeWriter (written c body t) = tn_activeWriter t"
  "tn_realms (written c body t) = tn_realms t" "tn_connCh (written c body t) = tn_connCh t"
  "tn_next (written c body t) = tn_next t" "tn_grants (written c body t) = tn_grants t"
  "tn_retired (written c body t) = tn_retired t"
  "tn_onClose (written c body t) = tn_onClose t"
  "tn_onCloseRuns (written c body t) = tn_onCloseRuns t"
  "tn_consecutiveReadErrs (written c body t) = tn_consecutiveReadErrs t"
  "tn_consecutiveSendErrs (written c body t) = tn_consecutiveSendErrs t"
  "tn_missedHeartbeats (written c body t) = tn_missedHeartbeats t"
  by (simp_all add: written_def)

lemma SetWriteDeadline_frame [simp]:
  "k_open (u_conn (snd (UDP_SetWriteDeadline cl d))) = k_open (u_conn cl)"
  "k_out (u_conn (snd (UDP_SetWriteDeadline cl d))) = k_out (u_conn cl)"
  "k_wfaults (u_conn (snd (UDP_SetWriteDeadline cl d))) = k_wfaults (u_conn cl)"
  "k_in (u_conn (snd (UDP_SetWriteDeadline cl d))) = k_in (u_conn cl)"
  "u_raddr (snd (UDP_SetWriteDeadline cl d)) = u_raddr cl"
  by (simp_all add: UDP_SetWriteDeadline_def SetWriteDeadline_def)

lemma UDP_Send_cong:
  assumes "k_open (u_conn cl) = k_open (u_conn cl')" "k_wfaults (u_conn cl) = k_wfaults (u_conn cl')"
    "k_out (u_conn cl) = k_out (u_conn cl')" "u_raddr cl = u_raddr cl'"
  shows "k_out (u_conn (snd (UDP_Send cl d))) = k_out (u_conn (snd (UDP_Send cl' d)))"
  using assms by (auto simp: UDP_Send_def WriteToUDP_def Let_def case_prod_beta split: option.splits list.splits)

lemma written_client [simp]:
  "k_open (u_conn (tn_client (written c body t))) = k_open (u_conn (tn_client t))"
  "u_raddr (tn_client (written c body t)) = u_raddr (tn_client t)"
  "k_in (u_conn (tn_client (written c body t))) = k_in (u_conn (tn_client t))"
  "k_out (u_conn (tn_client (written c body t))) =
     k_out (u_conn (snd (UDP_Send (tn_client t) (Packet_Serialize (fst (Session_Send (tn_session t) body))))))"
  by (auto simp: written_def intro!: UDP_Send_cong)

lemma written_inv: "tunnel_inv t \<Longrightarrow> tunnel_inv (written c body t)"
  by (simp add: inv_defs)

lemma with_wdc_inv: "tunnel_inv t \<Longrightarrow> tunnel_inv (with_wdc c t)"
  by (simp add: inv_defs)

lemma UDP_Send_out:
  assumes "u_raddr cl = Some a"
  shows "k_out (u_conn (snd (UDP_Send cl d))) =
    k_out (u_conn cl) @ (if fst (UDP_Send cl d) = None then [(d, a)] else [])"
  using assms by (auto simp: UDP_Send_def WriteToUDP_def Let_def split: list.splits option.splits)

lemma sendPacketFor_effect:
  assumes "tunnel_inv t" "u_raddr (tn_client t) = Some a" "sendPacketFor now body (Some c) t = (e, u)"
  shows "tunnel_inv u \<and> u_raddr (tn_client u) = Some a \<and> c_realmID (tn_conns u d) = c_realmID (tn_conns t d) \<and>
    (e = None \<longrightarrow> tn_session u = snd (Session_Send (tn_session t) body)) \<and>
    k_out (u_conn (tn_client u)) = k_out (u_conn (tn_client t)) @
      (if e = None then [(Packet_Serialize (fst (Session_Send (tn_session t) body)), a)] else [])"
proof (cases "write_refused now c t")
  case (Some e')
  then show ?thesis
    using assms sendPacketFor_refused [OF Some, of body] by (auto simp: with_wdc_inv)
next
  case None
  then have "k_open (u_conn (tn_client t))"
    using tunnel_invD(1) [OF assms(1)] by (auto simp: write_refused_def life_inv_def split: if_splits)
  from sendPacketFor_written [OF None tunnel_invD(5) [OF assms(1)] this, of body] assms
  show ?thesis by (auto simp: written_inv UDP_Send_out)
qed

lemma concat_fragments: "concat (fragments p) = p"
  by (induction p rule: fragments.induct) (subst fragments.simps, auto)

lemma fragment_size: "f \<in> set (fragments p) \<Longrightarrow> 0 < length f \<and> length f \<le> 1280"
proof (induction p rule: fragments.induct)
  case (1 p)
  then show ?case by (subst (asm) (2) fragments.simps) (auto split: if_splits)
qed

lemma write_loop_fragments:
  assumes "tunnel_inv t" "u_raddr (tn_client t) = Some a" "write_loop clock i c p n0 t = ((n, err), t')"
  shows "\<exists>k \<le> length (fragments p). n = n0 + length (concat (take k (fragments p))) \<and>
    (err = None \<longleftrightarrow> k = length (fragments p)) \<and>
    k_out (u_conn (tn_client t')) = k_out (u_conn (tn_client t)) @
      map (\<lambda>q. (Packet_Serialize q, a))
        (fst (send_all (tn_session t) (map (NewPayloadBody (c_realmID (tn_conns t c))) (take k (fragments p)))))"
  using assms
proof (induction clock i c p n0 t arbitrary: n err t' rule: write_loop.induct)
  case (1 clock i c p n0 t)
  show ?case
  proof (cases "p = []")
    case True
    then show ?thesis using "1.prems" by (simp add: write_loop.simps fragments.simps)
  next
    case False
    let ?chunk = "take 1280 p"
    let ?body = "NewPayloadBody (c_realmID (tn_conns t c)) ?chunk"
    have chunk: "(if length p > maxPayloadSize then take maxPayloadSize p else p) = ?chunk"
      by (simp add: maxPayloadSize_def)
    have rest: "drop (length ?chunk) p = drop 1280 p" by (simp add: min_def)
    have frag: "fragments p = ?chunk # fragments (drop 1280 p)"
      using False by (subst fragments.simps) simp
    obtain e u where send: "sendPacketFor (clock i) ?body (Some c) t = (e, u)" by fastforce
    note eff = sendPacketFor_effect [OF "1.prems"(1,2) send]
    have step: "write_loop clock i c p n0 t =
        (case e of Some x \<Rightarrow> ((n0, Some x), u)
         | None \<Rightarrow> write_loop clock (Suc i) c (drop 1280 p) (n0 + length ?chunk) u)"
      by (subst write_loop.simps) (simp only: False chunk rest send Let_def if_False split: option.split prod.split, simp)
    show ?thesis
    proof (cases e)
      case (Some x)
      then show ?thesis using "1.prems"(3) eff unfolding step
        by (intro exI [of _ 0]) (auto simp: frag)
    next
      case None
      have loop: "write_loop clock (Suc i) c (drop 1280 p) (n0 + length ?chunk) u = ((n, err), t')"
        using "1.prems"(3) None step by simp
      from "1.IH" [OF False chunk [symmetric] rest [symmetric] send [symmetric] None _ _ loop] eff
      obtain k where k: "k \<le> length (fragments (drop 1280 p))"
        "n = n0 + length ?chunk + length (concat (take k (fragments (drop 1280 p))))"
        "err = None \<longleftrightarrow> k = length (fragments (drop 1280 p))"
        "k_out (u_conn (tn_client t')) = k_out (u_conn (tn_client u)) @
          map (\<lambda>q. (Packet_Serialize q, a))
            (fst (send_all (tn_session u) (map (NewPayloadBody (c_realmID (tn_conns u c))) (take k (fragments (drop 1280 p))))))"
        by auto
      show ?thesis
        using k eff None by (intro exI [of _ "Suc k"]) (auto simp: frag send_all_Cons)
    qed
  qed
qed

lemma write_loop_ok:
  assumes "tunnel_inv t" "\<not> c_closed (tn_conns t c)" "\<not> tn_closed t" "u_raddr (tn_client t) \<noteq> None"
    "k_wfaults (u_conn (tn_client t)) = []" "\<And>i. \<not> deadline_passed (clock i) (c_writeDeadline (tn_conns t c))"
  shows "fst (write_loop clock i c p n t) = (n + length p, None)"
  using assms
proof (induction clock i c p n t rule: write_loop.induct)
  case (1 clock i c p n t)
  show ?case
  proof (cases "p = []")
    case True
    then show ?thesis by (simp add: write_loop.simps)
  next
    case False
    let ?chunk = "if length p > maxPayloadSize then take maxPayloadSize p else p"
    let ?body = "NewPayloadBody (c_realmID (tn_conns t c)) ?chunk"
    have op: "k_open (u_conn (tn_client t))" "write_refused (clock i) c t = None"
      using "1.prems" by (auto simp: tunnel_inv_def life_inv_def conn_ok_def write_refused_def)
    have send: "sendPacketFor (clock i) ?body (Some c) t = (None, written c ?body t)"
      using sendPacketFor_written [OF op(2) tunnel_invD(5) op(1)] op "1.prems" by (auto simp: UDP_Send_def WriteToUDP_def)
    have "k_wfaults (u_conn (tn_client (written c ?body t))) = []"
      using "1.prems" op by (auto simp: written_def UDP_Send_def WriteToUDP_def)
    then have "fst (write_loop clock (Suc i) c (drop (length ?chunk) p) (n + length ?chunk) (written c ?body t)) =
        (n + length ?chunk + length (drop (length ?chunk) p), None)"
      using "1.prems" by (intro "1.IH" [OF False refl refl send [symmetric] refl]) (auto simp: written_inv)
    moreover have "write_loop clock i c p n t =
        write_loop clock (Suc i) c (drop (length ?chunk) p) (n + length ?chunk) (written c ?body t)"
      using False by (subst write_loop.simps) (simp only: send Let_def if_False split: option.split prod.split, simp)
    ultimately show ?thesis by simp
  qed
qed

lemma payload_datagram_size:
  assumes "q \<in> set (fst (send_all s (map (NewPayloadBody r) (fragments p))))"
  shows "length (Packet_Serialize q) \<le> 1316"
proof -
  have "p_Body q \<in> set (map p_Body (fst (send_all s (map (NewPayloadBody r) (fragments p)))))"
    using assms by simp
  then obtain f where "p_Body q = NewPayloadBody r f" "f \<in> set (fragments p)"
    by (auto simp: send_all_bodies)
  then show ?thesis
    using fragment_size [of f p]
    by (simp add: Packet_Serialize_layout length_Body_Serialize HeaderSize_def Body_Len_def NewPayloadBody_def zero_Body_def)
qed

lemma close_mark_eq:
  assumes "tunnel_inv t"
  shows "close_mark now c t = (c_closed (tn_conns t c), close_conns {c} t)"
proof -
  have "shut True (tn_conns t c\<lparr>c_closed := True\<rparr>) = shut True (tn_conns t c)" by (simp add: shut_def)
  then have "(\<lambda>d. shut (d = c) (((tn_conns t)(c := tn_conns t c\<lparr>c_closed := True\<rparr>)) d)) = (\<lambda>d. shut (d = c) (tn_conns t d))"
    by (auto simp: fun_eq_iff)
  then show ?thesis
    using tunnel_invD(5) [OF assms]
    by (simp add: close_mark_def signalClosed_eq close_conns_def) (simp add: update_conn_def)
qed

lemma send_discs_frame:
  "tn_conns (send_discs now c k t) = tn_conns t \<and> tn_realms (send_discs now c k t) = tn_realms t \<and>
   tn_closed (send_discs now c k t) = tn_closed t \<and> (tunnel_inv t \<longrightarrow> tunnel_inv (send_discs now c k t)) \<and>
   advances t (send_discs now c k t)"
proof (induction k arbitrary: t)
  case (Suc k)
  obtain e u where s: "sendPacket now (NewStatusBody (c_realmID (tn_conns t c)) StatusDisconnect) t = (e, u)" by fastforce
  then have u: "u = snd (sendPacket now (NewStatusBody (c_realmID (tn_conns t c)) StatusDisconnect) t)" by simp
  have "tn_conns u = tn_conns t" "tn_realms u = tn_realms t" "tn_closed u = tn_closed t"
    "tunnel_inv t \<longrightarrow> tunnel_inv u" "advances t u"
    by (simp_all add: u sendPacket_inv sendPacket_advances)
  with Suc [of u] show ?case using s advances_trans [of t u] by (auto split: option.splits)
qed simp

lemma send_discs_ok:
  assumes "k_open (u_conn (tn_client t))" "k_wfaults (u_conn (tn_client t)) = []" "u_raddr (tn_client t) = Some a"
  shows "k_out (u_conn (tn_client (send_discs now c k t))) = k_out (u_conn (tn_client t)) @
    map (\<lambda>q. (Packet_Serialize q, a))
      (fst (send_all (tn_session t) (replicate k (NewStatusBody (c_realmID (tn_conns t c)) StatusDisconnect))))"
  using assms
proof (induction k arbitrary: t)
  case (Suc k)
  let ?b = "NewStatusBody (c_realmID (tn_conns t c)) StatusDisconnect"
  let ?u = "snd (sendPacket now ?b t)"
  have ok: "fst (sendPacket now ?b t) = None" "k_open (u_conn (tn_client ?u))"
    "k_wfaults (u_conn (tn_client ?u)) = []" "u_raddr (tn_client ?u) = Some a"
    "k_out (u_conn (tn_client ?u)) = k_out (u_conn (tn_client t)) @ [(Packet_Serialize (fst (Session_Send (tn_session t) ?b)), a)]"
    using Suc.prems by (simp_all add: sendPacket_eq UDP_Send_def WriteToUDP_def)
  have "send_discs now c (Suc k) t = send_discs now c k ?u"
    using ok(1) by (auto split: prod.split option.split)
  then show ?case using Suc.IH [OF ok(2-4)] ok(5) by (simp add: send_all_Cons)
qed simp

lemma Conn_Close_eq:
  assumes "tunnel_inv t"
  shows "Conn_Close now c t =
    (if c_closed (tn_conns t c) then t
     else if tn_closed t then realm_delete (c_realmID (tn_conns t c)) (close_conns {c} t)
     else realm_delete (c_realmID (tn_conns t c)) (send_discs now c 3 (close_conns {c} t)))"
proof -
  have "close_conns {c} t = t" if "c_closed (tn_conns t c)"
  proof -
    have "c_closeCh (tn_conns t c)" using that tunnel_invD(3) [OF assms] by (simp add: conn_ok_def)
    then have "shut True (tn_conns t c) = tn_conns t c" using that by (simp add: shut_def)
    then have "shut (d = c) (tn_conns t d) = tn_conns t d" for d by (cases "d = c") simp_all
    then show ?thesis by (simp add: close_conns_def)
  qed
  then show ?thesis
    using send_discs_frame [of now c 3 "close_conns {c} t"]
    by (simp add: Conn_Close_def close_mark_eq [OF assms] Tunnel_IsClosed_def discRetries_def Let_def)
qed

lemma Conn_Close_inv: "tunnel_inv t \<Longrightarrow> tunnel_inv (Conn_Close now c t)"
  using send_discs_frame [of now c 3 "close_conns {c} t"]
  by (simp add: Conn_Close_eq realm_delete_inv close_conns_inv)

lemma Conn_Close_advances: "tunnel_inv t \<Longrightarrow> advances t (Conn_Close now c t)"
  using send_discs_frame [of now c 3 "close_conns {c} t"] close_conns_advances [of t "{c}"]
  by (auto simp: Conn_Close_eq intro: advances_trans realm_delete_advances)

lemma set_deadline_conn:
  assumes "tunnel_inv t"
  shows "snd (Conn_SetDeadline c d t) = update_conn c (\<lambda>conn. notifyWriteDeadlineLocked (notifyReadDeadlineLocked
      (conn\<lparr>c_readDeadline := d, c_writeDeadline := d\<rparr>))) t"
    "snd (Conn_SetReadDeadline c d t) = update_conn c (\<lambda>conn. notifyReadDeadlineLocked (conn\<lparr>c_readDeadline := d\<rparr>)) t"
    "snd (Conn_SetWriteDeadline c d t) = update_conn c (\<lambda>conn. notifyWriteDeadlineLocked (conn\<lparr>c_writeDeadline := d\<rparr>)) t"
  using tunnel_invD(5) [OF assms]
  by (simp_all add: Conn_SetDeadline_def Conn_SetReadDeadline_def Conn_SetWriteDeadline_def Let_def
      updateWriteDeadline_def) (simp_all add: update_conn_def)

lemma sendPacketFor_state:
  assumes "tunnel_inv t"
  shows "snd (sendPacketFor now body (Some c) t) \<in> {with_wdc c t, written c body t}"
proof (cases "write_refused now c t")
  case None
  then have "k_open (u_conn (tn_client t))"
    using tunnel_invD(1) [OF assms] by (auto simp: write_refused_def life_inv_def split: if_splits)
  from sendPacketFor_written [OF None tunnel_invD(5) [OF assms] this] show ?thesis by simp
next
  case (Some x)
  from sendPacketFor_refused [OF this] show ?thesis by simp
qed

text \<open>A write moves the tunnel only as its fragments do.\<close>

lemma write_loop_rel:
  assumes rel_refl: "\<And>t. R t t" and trans: "\<And>t u v. R t u \<Longrightarrow> R u v \<Longrightarrow> R t v"
    and wdc: "\<And>t. R t (with_wdc c t)" and wr: "\<And>t body. R t (written c body t)"
  shows "tunnel_inv t \<Longrightarrow> tunnel_inv (snd (write_loop clock i c p n t)) \<and> R t (snd (write_loop clock i c p n t))"
  using wdc wr
proof (induction clock i c p n t rule: write_loop.induct)
  case (1 clock i c p n t)
  let ?chunk = "if length p > maxPayloadSize then take maxPayloadSize p else p"
  obtain e u where send: "sendPacketFor (clock i) (NewPayloadBody (c_realmID (tn_conns t c)) ?chunk) (Some c) t = (e, u)"
    by fastforce
  have u: "tunnel_inv u \<and> R t u"
    using sendPacketFor_state [OF "1.prems"(1), of "clock i" "NewPayloadBody (c_realmID (tn_conns t c)) ?chunk" c]
      "1.prems" send by (auto simp: with_wdc_inv written_inv)
  have step: "write_loop clock i c p n t =
      (if p = [] then ((n, None), t)
       else case e of Some x \<Rightarrow> ((n, Some x), u)
            | None \<Rightarrow> write_loop clock (Suc i) c (drop (length ?chunk) p) (n + length ?chunk) u)"
    by (subst write_loop.simps) (simp only: send Let_def split: option.split prod.split, simp)
  show ?case
  proof (cases "p = [] \<or> e \<noteq> None")
    case True
    then show ?thesis using "1.prems"(1) u step rel_refl by auto
  next
    case False
    then have "tunnel_inv (snd (write_loop clock (Suc i) c (drop (length ?chunk) p) (n + length ?chunk) u)) \<and>
        R u (snd (write_loop clock (Suc i) c (drop (length ?chunk) p) (n + length ?chunk) u))"
      using u send by (intro "1.IH" [OF _ refl refl send [symmetric]] "1.prems"(2,3)) auto
    then show ?thesis using False u step trans [of t u] by auto
  qed
qed

lemma write_loop_handler:
  "tunnel_inv t \<Longrightarrow> tunnel_inv (snd (write_loop clock i c p n t)) \<and> advances t (snd (write_loop clock i c p n t))"
  by (rule write_loop_rel [OF advances_refl advances_trans]) (assumption+ | simp add: advances_def)+

section \<open>Properties\<close>

text \<open>
  (C22) A write on an open connection of an open tunnel whose socket accepts the datagrams and whose
  deadline does not pass returns the full length: the data is cut into fragments of 1 to 1280 bytes
  whose concatenation is the data, each goes out once, in order and with consecutive numbers, as a
  payload of the connection's realm, and no datagram exceeds 1316 bytes.
\<close>

theorem write_completes:
  assumes "tunnel_inv t" "\<not> tn_closed t" "\<not> c_closed (tn_conns t c)" "u_raddr (tn_client t) = Some a"
    "k_wfaults (u_conn (tn_client t)) = []" "\<forall>i. \<not> deadline_passed (clock i) (c_writeDeadline (tn_conns t c))"
  shows "\<exists>t'. Conn_Write clock c p t = ((length p, None), t') \<and> concat (fragments p) = p \<and>
    (\<forall>f \<in> set (fragments p). 0 < length f \<and> length f \<le> 1280) \<and>
    k_out (u_conn (tn_client t')) = k_out (u_conn (tn_client t)) @
      map (\<lambda>q. (Packet_Serialize q, a))
        (fst (send_all (tn_session t) (map (NewPayloadBody (c_realmID (tn_conns t c))) (fragments p)))) \<and>
    (\<forall>q \<in> set (fst (send_all (tn_session t) (map (NewPayloadBody (c_realmID (tn_conns t c))) (fragments p)))).
       length (Packet_Serialize q) \<le> 1316)"
proof -
  have ok: "fst (write_loop clock 0 c p 0 t) = (length p, None)"
    using write_loop_ok [of t c clock 0 p 0] assms by simp
  then obtain t' where t': "write_loop clock 0 c p 0 t = ((length p, None), t')" by (cases "write_loop clock 0 c p 0 t") simp
  from write_loop_fragments [OF assms(1,4) t'] obtain k where
    "k = length (fragments p)" "k_out (u_conn (tn_client t')) = k_out (u_conn (tn_client t)) @
      map (\<lambda>q. (Packet_Serialize q, a))
        (fst (send_all (tn_session t) (map (NewPayloadBody (c_realmID (tn_conns t c))) (take k (fragments p)))))" by auto
  then show ?thesis
    using t' assms(2,3) concat_fragments fragment_size payload_datagram_size
    by (intro exI [of _ t']) (simp add: Conn_Write_def Tunnel_IsClosed_def)
qed

theorem write_completes_witness:
  "\<exists>t'. Conn_Write (\<lambda>_. 0) 0 (replicate 3000 1) (sample_tunnel [7]) = ((3000, None), t') \<and>
     k_out (u_conn (tn_client t')) = map (\<lambda>q. (Packet_Serialize q, sample_peer))
       (fst (send_all NewSession (map (NewPayloadBody 7) (fragments (replicate 3000 1)))))"
proof -
  have t: "\<not> tn_closed (sample_tunnel [7])" "\<not> c_closed (tn_conns (sample_tunnel [7]) 0)"
    "u_raddr (tn_client (sample_tunnel [7])) = Some sample_peer"
    "k_wfaults (u_conn (tn_client (sample_tunnel [7]))) = []"
    "\<forall>i. \<not> deadline_passed ((\<lambda>_. 0) i) (c_writeDeadline (tn_conns (sample_tunnel [7]) 0))"
    "k_out (u_conn (tn_client (sample_tunnel [7]))) = []" "tn_session (sample_tunnel [7]) = NewSession"
    "c_realmID (tn_conns (sample_tunnel [7]) 0) = 7"
    by (simp_all add: sample_tunnel_def Tunnel_New_def sample_client_def zero_Conn_def deadline_passed_def)
  have "distinct [7 :: u32]" by simp
  from write_completes [OF sample_inv [OF this] t(1-5), of "replicate 3000 1"] t(6-8)
  show ?thesis by (simp del: replicate.simps) blast
qed

text \<open>
  (C25) Whatever fails, a write reports exactly what it sent: the count is the length of the fragments
  whose datagrams were written, these are the first fragments of the data, and no error means that
  all of them were.
\<close>

theorem write_reports_what_it_sent:
  assumes "tunnel_inv t" "u_raddr (tn_client t) = Some a" "Conn_Write clock c p t = ((n, err), t')"
  shows "\<exists>k \<le> length (fragments p). n = length (concat (take k (fragments p))) \<and>
    (err = None \<longrightarrow> k = length (fragments p)) \<and>
    k_out (u_conn (tn_client t')) = k_out (u_conn (tn_client t)) @
      map (\<lambda>q. (Packet_Serialize q, a))
        (fst (send_all (tn_session t) (map (NewPayloadBody (c_realmID (tn_conns t c))) (take k (fragments p)))))"
proof (cases "c_closed (tn_conns t c) \<or> tn_closed t")
  case True
  then show ?thesis using assms(3) by (intro exI [of _ 0]) (auto simp: Conn_Write_def Tunnel_IsClosed_def split: if_splits)
next
  case False
  then have "write_loop clock 0 c p 0 t = ((n, err), t')"
    using assms(3) by (simp add: Conn_Write_def Tunnel_IsClosed_def)
  from write_loop_fragments [OF assms(1,2) this] show ?thesis by auto
qed

theorem write_reports_what_it_sent_witness:
  "\<exists>n err t'. Conn_Write (\<lambda>_. 0) 0 [1, 2] (sample_tunnel [7]) = ((n, err), t') \<and>
     (\<exists>k \<le> length (fragments [1, 2]). n = length (concat (take k (fragments [1, 2]))) \<and>
        (err = None \<longrightarrow> k = length (fragments [1, 2])))"
proof -
  obtain n err t' where w: "Conn_Write (\<lambda>_. 0) 0 [1, 2] (sample_tunnel [7]) = ((n, err), t')"
    by (metis prod.exhaust)
  have "u_raddr (tn_client (sample_tunnel [7])) = Some sample_peer" "distinct [7 :: u32]"
    by (simp_all add: sample_tunnel_def Tunnel_New_def sample_client_def)
  from write_reports_what_it_sent [OF sample_inv [OF this(2)] this(1) w] w show ?thesis by blast
qed

text \<open>
  (C27) Closing a connection closes it, removes its realm and no other, sends three disconnect
  statuses for it, and leaves its unread bytes and every other connection alone; closing it again
  changes nothing and writing to it fails.
\<close>

theorem conn_close_effect:
  assumes "tunnel_inv t" "realm_lookup t r = Some c" "\<not> c_closed (tn_conns t c)"
    "k_wfaults (u_conn (tn_client t)) = []" "u_raddr (tn_client t) = Some a"
  shows "let t' = Conn_Close now c t in
    c_closed (tn_conns t' c) \<and> realm_lookup t' r = None \<and>
    (\<forall>q. q \<noteq> r \<longrightarrow> realm_lookup t' q = realm_lookup t q) \<and> (\<forall>d. d \<noteq> c \<longrightarrow> tn_conns t' d = tn_conns t d) \<and>
    c_dataCh (tn_conns t' c) = c_dataCh (tn_conns t c) \<and> c_readBuf (tn_conns t' c) = c_readBuf (tn_conns t c) \<and>
    k_out (u_conn (tn_client t')) = k_out (u_conn (tn_client t)) @ map (\<lambda>q. (Packet_Serialize q, a))
      (fst (send_all (tn_session t) (replicate 3 (NewStatusBody r StatusDisconnect)))) \<and>
    Conn_Close later c t' = t' \<and> fst (Conn_Write clock c p t') = (0, Some ErrTunnelClosed)"
proof -
  define t' where "t' = Conn_Close now c t"
  have c: "live c t" "c_realmID (tn_conns t c) = r" using live_lookup [OF assms(1,2)] by simp_all
  have op: "\<not> tn_closed t" "k_open (u_conn (tn_client t))"
    using assms(1,2) by (auto simp: tunnel_inv_def life_inv_def realm_lookup_def split: option.splits)
  let ?u = "send_discs now c 3 (close_conns {c} t)"
  have t': "t' = realm_delete r ?u" using assms op c by (simp add: t'_def Conn_Close_eq)
  note fr = send_discs_frame [of now c 3 "close_conns {c} t"]
  have conns: "tn_conns t' = (\<lambda>d. shut (d = c) (tn_conns t d))" using fr by (simp add: t')
  have look: "realm_lookup t' q = (if q = r then None else realm_lookup t q)" for q
    using fr by (simp add: t' realm_lookup_def realm_delete_def delete_conv' split: option.splits)
  have out: "k_out (u_conn (tn_client t')) = k_out (u_conn (tn_client t)) @ map (\<lambda>q. (Packet_Serialize q, a))
      (fst (send_all (tn_session t) (replicate 3 (NewStatusBody r StatusDisconnect))))"
    using send_discs_ok [of "close_conns {c} t" a now c 3] op assms c by (simp add: t')
  have "Conn_Close later c t' = t'"
    using Conn_Close_eq [OF Conn_Close_inv [OF assms(1), of now c], of later c] conns by (simp add: t'_def)
  then show ?thesis
    unfolding t'_def [symmetric] Let_def using conns look out by (simp add: Conn_Write_def)
qed

theorem conn_close_effect_witness:
  "let t' = Conn_Close 5 0 (sample_tunnel [7, 9]) in
     realm_lookup t' 7 = None \<and> realm_lookup t' 9 = Some 1 \<and> length (k_out (u_conn (tn_client t'))) = 3 \<and>
     fst (Conn_Write (\<lambda>_. 6) 0 [1] t') = (0, Some ErrTunnelClosed)"
proof -
  have t: "realm_lookup (sample_tunnel [7, 9]) 7 = Some 0" "\<not> c_closed (tn_conns (sample_tunnel [7, 9]) 0)"
    "k_wfaults (u_conn (tn_client (sample_tunnel [7, 9]))) = []"
    "u_raddr (tn_client (sample_tunnel [7, 9])) = Some sample_peer"
    "k_out (u_conn (tn_client (sample_tunnel [7, 9]))) = []" "realm_lookup (sample_tunnel [7, 9]) 9 = Some 1"
    by (simp_all add: sample_tunnel_def Tunnel_New_def sample_client_def zero_Conn_def realm_lookup_def upt_rec)
  have "distinct [7 :: u32, 9]" by simp
  from conn_close_effect [OF sample_inv [OF this] t(1-4), where now = 5 and later = 6 and clock = "\<lambda>_. 6" and p = "[1]"] t(5,6)
  show ?thesis by (auto simp: Let_def)
qed

text \<open>
  (C35) Setting a deadline that has passed interrupts both directions: a write fails with the deadline
  error without touching socket or session; a read of a connection without buffered bytes fails
  with it, and so does a read already waiting, which the replaced channel wakes.
\<close>

theorem passed_deadline_interrupts:
  assumes "tunnel_inv t" "\<not> c_closed (tn_conns t c)" "\<not> tn_closed t" "d \<le> now" "clock 0 = now" "p \<noteq> []"
  shows "let t' = snd (Conn_SetDeadline c (Some d) t) in
    fst (Conn_Write clock c p t') = (0, Some ErrDeadlineExceeded) \<and>
    k_out (u_conn (tn_client (snd (Conn_Write clock c p t')))) = k_out (u_conn (tn_client t)) \<and>
    tn_session (snd (Conn_Write clock c p t')) = tn_session t \<and>
    (c_readBuf (tn_conns t c) = [] \<longrightarrow> fst (Conn_Read now n c t') = ReadReturned (Inl ErrDeadlineExceeded)) \<and>
    (c_readBuf (tn_conns t c) = [] \<longrightarrow>
       map_option fst (read_select now n c deadline (c_readDeadlineChanged (tn_conns t c)) WakeDeadlineChanged t') =
         Some (ReadReturned (Inl ErrDeadlineExceeded)))"
proof -
  define t' where "t' = snd (Conn_SetDeadline c (Some d) t)"
  have conn: "tn_conns t' c = notifyWriteDeadlineLocked (notifyReadDeadlineLocked
      (tn_conns t c\<lparr>c_readDeadline := Some d, c_writeDeadline := Some d\<rparr>))"
    "tn_client t' = tn_client t" "tn_session t' = tn_session t" "tn_closed t' = tn_closed t"
    by (simp_all add: t'_def set_deadline_conn [OF assms(1)] update_conn_def)
  have "write_refused now c t' = Some ErrDeadlineExceeded"
    using assms by (simp add: write_refused_def conn notifyWriteDeadlineLocked_def notifyReadDeadlineLocked_def deadline_passed_def)
  then have "write_loop clock 0 c p 0 t' = ((0, Some ErrDeadlineExceeded), with_wdc c t')"
    using assms by (subst write_loop.simps) (simp add: sendPacketFor_refused Let_def)
  moreover have "fst (Conn_Read now n c t') = ReadReturned (Inl ErrDeadlineExceeded)" if "c_readBuf (tn_conns t c) = []"
    using that assms
    by (simp add: Conn_Read_def Let_def conn notifyWriteDeadlineLocked_def notifyReadDeadlineLocked_def deadline_passed_def)
  ultimately show ?thesis
    unfolding t'_def [symmetric] Let_def
    using assms by (simp add: Conn_Write_def Tunnel_IsClosed_def conn notifyWriteDeadlineLocked_def notifyReadDeadlineLocked_def)
qed

theorem passed_deadline_interrupts_witness:
  "let t' = snd (Conn_SetDeadline 0 (Some 3) (sample_tunnel [7])) in
     fst (Conn_Write (\<lambda>_. 4) 0 [1] t') = (0, Some ErrDeadlineExceeded) \<and>
     fst (Conn_Read 4 10 0 t') = ReadReturned (Inl ErrDeadlineExceeded)"
proof -
  have t: "\<not> c_closed (tn_conns (sample_tunnel [7]) 0)" "\<not> tn_closed (sample_tunnel [7])"
    "c_readBuf (tn_conns (sample_tunnel [7]) 0) = []"
    by (simp_all add: sample_tunnel_def Tunnel_New_def zero_Conn_def)
  have "distinct [7 :: u32]" "(3 :: int) \<le> 4" "(\<lambda>_. 4) (0 :: nat) = (4 :: int)" "[1 :: byte] \<noteq> []" by simp_all
  from passed_deadline_interrupts [OF sample_inv [OF this(1)] t(1,2) this(2-4), where n = 10] t(3)
  show ?thesis by (simp add: Let_def)
qed

end
