(* ===== verification/Tunnel_Stream.thy ===== *)
theory Tunnel_Stream
  imports Tunnel_Conn
begin

text \<open>
  One consumer reading a connection while the tunnel's goroutines run (\<^verbatim>\<open>tunnel/tunnel.go\<close>): the
  bytes its reads return, whatever the interleaving and the buffer sizes, are the bytes the device
  sent. The calls of a connection's user are also shown to be handlers of the tunnel.
\<close>

section \<open>A consumer beside the goroutines\<close>

text \<open>
  The state of a run is where the consumer's \<open>Read\<close> stands (\<open>None\<close> between calls, otherwise waiting
  in the select statement with its buffer length and what it captured), the bytes returned so far,
  and the tunnel. A wake-up whose case is not ready, or a call while one is waiting, changes nothing.
  \<open>pending\<close> are the bytes received and not yet returned; \<open>flow\<close> extends \<open>delivery\<close> to them.
\<close>

type_synonym read_pc = "(nat \<times> time \<times> nat) option"

datatype stream_event = Env tunnel_event | ReadCall int nat | ReadWake int wake

fun after_read :: "nat \<Rightarrow> byte list \<Rightarrow> read_state \<times> Tunnel \<Rightarrow> read_pc \<times> byte list \<times> Tunnel" where
  "after_read n out (ReadReturned (Inr data), t) = (None, out @ data, t)"
| "after_read n out (ReadReturned (Inl e), t) = (None, out, t)"
| "after_read n out (ReadSelect d ch, t) = (Some (n, d, ch), out, t)"

fun stream_step :: "conn_ref \<Rightarrow> stream_event \<Rightarrow> read_pc \<times> byte list \<times> Tunnel \<Rightarrow> read_pc \<times> byte list \<times> Tunnel" where
  "stream_step c (Env e) (pc, out, t) = (pc, out, handle_event e t)"
| "stream_step c (ReadCall now n) (pc, out, t) =
     (case pc of None \<Rightarrow> after_read n out (Conn_Read now n c t) | Some _ \<Rightarrow> (pc, out, t))"
| "stream_step c (ReadWake now w) (pc, out, t) =
     (case pc of
        None \<Rightarrow> (pc, out, t)
      | Some (n, d, ch) \<Rightarrow>
          (case read_select now n c d ch w t of
             None \<Rightarrow> (pc, out, t)
           | Some res \<Rightarrow> after_read n out res))"

definition arrivals :: "u32 \<Rightarrow> stream_event list \<Rightarrow> byte list list" where
  "arrivals r es = concat (map (\<lambda>e. case e of Env e \<Rightarrow> arrived r e | _ \<Rightarrow> []) es)"

definition pending :: "conn_ref \<Rightarrow> Tunnel \<Rightarrow> byte list" where
  "pending c t = c_readBuf (tn_conns t c) @ concat (c_dataCh (tn_conns t c))"

definition read_bytes :: "read_state \<Rightarrow> byte list" where
  "read_bytes st = (case st of ReadReturned (Inr d) \<Rightarrow> d | _ \<Rightarrow> [])"

definition read_frame :: "conn_ref \<Rightarrow> Tunnel \<Rightarrow> Tunnel \<Rightarrow> bool" where
  "read_frame c t t' \<longleftrightarrow> (tunnel_inv t \<longrightarrow> tunnel_inv t') \<and> tn_realms t' = tn_realms t \<and> advances t t' \<and>
     c_closed (tn_conns t' c) = c_closed (tn_conns t c)"

definition flow :: "conn_ref \<Rightarrow> byte list list \<Rightarrow> byte list \<times> Tunnel \<Rightarrow> byte list \<times> Tunnel \<Rightarrow> bool" where
  "flow c pl = (\<lambda>(out, t) (out', t').
     (\<exists>k. out' @ pending c t' = out @ pending c t @ concat (take k pl) \<and> (k < length pl \<longrightarrow> \<not> live c t')) \<and>
     (\<not> live c t \<longrightarrow> \<not> live c t' \<and> out' @ pending c t' = out @ pending c t) \<and>
     (live c t \<longrightarrow> live c t' \<or> c_closed (tn_conns t' c)) \<and> advances t t')"

text \<open>The calls on a connection.\<close>

datatype conn_call =
  CallWrite "nat \<Rightarrow> int" "byte list" | CallClose int | CallSetDeadline time
| CallSetReadDeadline time | CallSetWriteDeadline time | CallRead int nat

fun call :: "conn_ref \<times> conn_call \<Rightarrow> Tunnel \<Rightarrow> Tunnel" where
  "call (c, CallWrite clock p) t = snd (Conn_Write clock c p t)"
| "call (c, CallClose now) t = Conn_Close now c t"
| "call (c, CallSetDeadline d) t = snd (Conn_SetDeadline c d t)"
| "call (c, CallSetReadDeadline d) t = snd (Conn_SetReadDeadline c d t)"
| "call (c, CallSetWriteDeadline d) t = snd (Conn_SetWriteDeadline c d t)"
| "call (c, CallRead now n) t = snd (Conn_Read now n c t)"

section \<open>What a read does\<close>

lemma read_frame_update:
  assumes "\<And>conn. c_realmID (f conn) = c_realmID conn" "\<And>conn. c_closed (f conn) = c_closed conn"
    "\<And>conn. c_closeCh (f conn) = c_closeCh conn" "length (c_dataCh (f (tn_conns t c))) \<le> length (c_dataCh (tn_conns t c))"
  shows "read_frame c t (update_conn c f t)"
proof -
  have "conn_ok (tn_conns t c) \<Longrightarrow> conn_ok (f (tn_conns t c))" using assms by (simp add: conn_ok_def)
  then have "tunnel_inv t \<Longrightarrow> tunnel_inv (update_conn c f t)"
    using assms(1) by (intro update_conn_inv) (simp_all add: tunnel_invD)
  then show ?thesis
    using assms update_conn_advances [of f t c] by (simp add: read_frame_def)
qed

lemma read_frame_refl: "read_frame c t t"
  by (simp add: read_frame_def)

lemma read_frame_trans: "read_frame c t u \<Longrightarrow> read_frame c u v \<Longrightarrow> read_frame c t v"
  using advances_trans [of t u v] by (auto simp: read_frame_def)

lemma readData_effect:
  assumes "readData n c data t = (st, t')" "c_readBuf (tn_conns t c) = []"
  shows "read_bytes st @ pending c t' = data @ pending c t" "read_frame c t t'" "\<exists>d. st = ReadReturned (Inr d)"
  using assms by (auto simp: readData_def Let_def read_bytes_def pending_def intro!: read_frame_refl read_frame_update split: if_splits)

lemma pop_data_effect:
  assumes "pop_data c t = Some (data, t')"
  shows "pending c t = c_readBuf (tn_conns t c) @ data @ concat (c_dataCh (tn_conns t' c))" "read_frame c t t'"
    "c_readBuf (tn_conns t' c) = c_readBuf (tn_conns t c)"
  using assms by (auto simp: pop_data_def pending_def intro!: read_frame_update split: list.splits)

lemma pop_readData:
  assumes "pop_data c t = Some (data, u)" "readData n c data u = (st, t')" "c_readBuf (tn_conns t c) = []"
  shows "read_bytes st @ pending c t' = pending c t \<and> read_frame c t t' \<and> (\<exists>d. st = ReadReturned (Inr d))"
  using pop_data_effect [OF assms(1)] readData_effect [OF assms(2)] assms(3) read_frame_trans
  by (auto simp: pending_def)

lemma Conn_Read_effect:
  assumes "Conn_Read now n c t = (st, t')"
  shows "read_bytes st @ pending c t' = pending c t \<and> read_frame c t t' \<and>
    (\<forall>d ch. st = ReadSelect d ch \<longrightarrow> c_readBuf (tn_conns t' c) = []) \<and>
    (st = ReadReturned (Inl ErrEOF) \<longrightarrow> pending c t' = [] \<and> c_closed (tn_conns t' c))"
proof (cases "c_readBuf (tn_conns t c) = []")
  case False
  then show ?thesis using assms
    by (auto simp: Conn_Read_def Let_def read_bytes_def pending_def intro!: read_frame_update)
next
  case True
  define u where "u = update_conn c (\<lambda>conn. if c_readDeadlineChanged conn = 0
                                     then conn\<lparr>c_readDeadlineChanged := 1\<rparr> else conn) t"
  have u: "pending c u = pending c t" "read_frame c t u" "c_readBuf (tn_conns u c) = []"
    using True by (auto simp: u_def pending_def intro!: read_frame_update split: if_splits)
  show ?thesis
  proof (cases "pop_data c u")
    case None
    then have "c_dataCh (tn_conns u c) = []" by (auto simp: pop_data_def split: list.splits)
    then show ?thesis using assms True u None
      by (auto simp: Conn_Read_def Let_def u_def [symmetric] read_bytes_def pending_def split: if_splits)
  next
    case (Some dv)
    obtain data v where dv: "dv = (data, v)" by fastforce
    show ?thesis
    proof (cases "c_closed (tn_conns u c)")
      case cl: True
      then have "readData n c data v = (st, t')"
        using assms True Some dv by (simp add: Conn_Read_def Let_def u_def [symmetric])
      from pop_readData [OF Some [unfolded dv] this u(3)] u read_frame_trans [OF u(2)] show ?thesis by auto
    next
      case False
      then show ?thesis using assms True u
        by (auto simp: Conn_Read_def Let_def u_def [symmetric] read_bytes_def split: if_splits)
    qed
  qed
qed

lemma read_select_effect:
  assumes "read_select now n c d ch w t = Some (st, t')" "c_readBuf (tn_conns t c) = []"
  shows "read_bytes st @ pending c t' = pending c t \<and> read_frame c t t' \<and>
    (\<forall>d ch. st = ReadSelect d ch \<longrightarrow> c_readBuf (tn_conns t' c) = [])"
proof (cases w)
  case WakeData
  then obtain data u where "pop_data c t = Some (data, u)" "readData n c data u = (st, t')"
    using assms(1) by (auto split: option.splits)
  from pop_readData [OF this assms(2)] show ?thesis by auto
next
  case WakeTimeout
  then show ?thesis using assms by (auto simp: read_bytes_def read_frame_refl split: if_splits)
qed (use assms Conn_Read_effect [of now n c t st t'] in \<open>auto split: if_splits\<close>)

lemma flow_trans:
  assumes "flow c pl (out, t) (mid, u)" "flow c pl' (mid, u) (out', v)" "c < tn_next t"
  shows "flow c (pl @ pl') (out, t) (out', v)"
proof -
  obtain n where n: "mid @ pending c u = out @ pending c t @ concat (take n pl)" "n < length pl \<longrightarrow> \<not> live c u"
    using assms(1) unfolding flow_def by blast
  obtain n' where n': "out' @ pending c v = mid @ pending c u @ concat (take n' pl')" "n' < length pl' \<longrightarrow> \<not> live c v"
    using assms(2) unfolding flow_def by blast
  have adv: "advances t u" "advances u v" "c < tn_next u"
    using assms advancesD(3) [of t u] by (simp_all add: flow_def)
  have "\<exists>k. out' @ pending c v = out @ pending c t @ concat (take k (pl @ pl')) \<and> (k < length (pl @ pl') \<longrightarrow> \<not> live c v)"
  proof (cases "live c u")
    case True
    then have "take n pl = pl" using n(2) by auto
    then have "out' @ pending c v = (out @ pending c t @ concat pl) @ concat (take n' pl')"
      using n(1) n'(1) by (simp flip: append_assoc)
    then show ?thesis using n'(2) by (intro exI [of _ "length pl + n'"]) auto
  next
    case False
    then have "\<not> live c v" "out' @ pending c v = mid @ pending c u"
      using assms(2) by (simp_all add: flow_def)
    then show ?thesis using n by (intro exI [of _ "min n (length pl)"]) (simp add: min_def)
  qed
  moreover have "\<not> live c t \<longrightarrow> \<not> live c v \<and> out' @ pending c v = out @ pending c t"
    using assms(1,2) by (simp add: flow_def)
  moreover have "live c t \<longrightarrow> live c v \<or> c_closed (tn_conns v c)"
    using assms(1,2) advancesD(4) [OF adv(2), of c] adv(3) by (auto simp: flow_def)
  ultimately show ?thesis using advances_trans [OF adv(1,2)] by (simp add: flow_def)
qed

lemma delivery_flow:
  assumes "delivery c pl t t'" "advances t t'" shows "flow c pl (out, t) (out, t')"
  using assms unfolding delivery_def flow_def pending_def by force

lemma read_flow:
  assumes "d @ pending c t' = pending c t" "read_frame c t t'"
  shows "flow c [] (out, t) (out @ d, t')"
  using assms by (auto simp: flow_def read_frame_def live_def realm_entries_def)

lemma after_read_flow:
  assumes "read_bytes st @ pending c t' = pending c t" "read_frame c t t'"
    "\<forall>d ch. st = ReadSelect d ch \<longrightarrow> c_readBuf (tn_conns t' c) = []" "tunnel_inv t"
    "after_read n out (st, t') = (pc', out', v)"
  shows "flow c [] (out, t) (out', v) \<and> tunnel_inv v \<and> (pc' \<noteq> None \<longrightarrow> c_readBuf (tn_conns v c) = [])"
proof -
  have "pc' \<noteq> None \<longrightarrow> (\<exists>d ch. st = ReadSelect d ch)" "out' = out @ read_bytes st" "v = t'"
    using assms(5) by (cases st; cases "case st of ReadReturned r \<Rightarrow> r | _ \<Rightarrow> Inl ErrEOF"; force simp: read_bytes_def)+
  then show ?thesis
    using read_flow [OF assms(1,2), of out] assms(2,3,4) by (auto simp: read_frame_def)
qed

lemma stream_step_flow:
  assumes "stream_step c e (pc, out, t) = (pc', out', t')" "tunnel_inv t"
    "pc \<noteq> None \<longrightarrow> c_readBuf (tn_conns t c) = []"
  shows "flow c (arrivals (c_realmID (tn_conns t c)) [e]) (out, t) (out', t') \<and> tunnel_inv t' \<and>
    (pc' \<noteq> None \<longrightarrow> c_readBuf (tn_conns t' c) = [])"
proof (cases e)
  case (Env x)
  have d: "delivery c (arrived (c_realmID (tn_conns t c)) x) t (handle_event x t)"
    using assms(2) by (rule handle_event_delivery)
  then have "c_readBuf (tn_conns (handle_event x t) c) = c_readBuf (tn_conns t c)"
    by (simp add: delivery_def)
  then show ?thesis
    using assms Env delivery_flow [OF d] events.keeps_inv events.moves_on by (auto simp: arrivals_def)
next
  case (ReadCall now n)
  obtain st u where r: "Conn_Read now n c t = (st, u)" by fastforce
  show ?thesis
  proof (cases pc)
    case None
    then have "after_read n out (st, u) = (pc', out', t')" using assms(1) ReadCall r by simp
    then show ?thesis
      using after_read_flow [of st c u t n out pc' out' t'] Conn_Read_effect [OF r] assms(2) ReadCall
      by (simp add: arrivals_def)
  next
    case (Some a)
    then show ?thesis using assms ReadCall read_flow [of "[]" c t t] by (auto simp: arrivals_def read_frame_refl)
  qed
next
  case (ReadWake now w)
  show ?thesis
  proof (cases pc)
    case None
    then show ?thesis using assms ReadWake read_flow [of "[]" c t t] by (auto simp: arrivals_def read_frame_refl)
  next
    case (Some q)
    obtain n d ch where q: "q = (n, d, ch)" by (cases q)
    show ?thesis
    proof (cases "read_select now n c d ch w t")
      case None
      then show ?thesis
        using assms Some q ReadWake read_flow [of "[]" c t t] by (auto simp: arrivals_def read_frame_refl)
    next
      case sel: (Some res)
      obtain st u where res: "res = (st, u)" by fastforce
      have "after_read n out (st, u) = (pc', out', t')" using assms(1) ReadWake Some q sel res by simp
      moreover have "c_readBuf (tn_conns t c) = []" using assms(3) Some by simp
      ultimately show ?thesis
        using after_read_flow [of st c u t n out pc' out' t'] read_select_effect [OF sel [unfolded res]] assms(2) ReadWake
        by (simp add: arrivals_def)
    qed
  qed
qed

lemma stream_run:
  assumes "fold (stream_step c) es (pc, out, t) = (pc', out', t')" "tunnel_inv t" "c < tn_next t"
    "pc \<noteq> None \<longrightarrow> c_readBuf (tn_conns t c) = []"
  shows "flow c (arrivals (c_realmID (tn_conns t c)) es) (out, t) (out', t')"
  using assms
proof (induction es arbitrary: pc out t)
  case Nil
  then show ?case by (simp add: flow_def arrivals_def)
next
  case (Cons e es)
  obtain pc1 mid u where s: "stream_step c e (pc, out, t) = (pc1, mid, u)" by (cases "stream_step c e (pc, out, t)") auto
  note st = stream_step_flow [OF s Cons.prems(2,4)]
  then have u: "c < tn_next u" "c_realmID (tn_conns u c) = c_realmID (tn_conns t c)"
    using Cons.prems(3) advancesD(3,5) [of t u] by (auto simp: flow_def)
  have "flow c (arrivals (c_realmID (tn_conns u c)) es) (mid, u) (out', t')"
    using Cons.IH [of pc1 mid u] Cons.prems(1) s st u by simp
  from flow_trans [OF _ this Cons.prems(3)] st u(2) show ?case by (simp add: arrivals_def)
qed

interpretation calls: tunnel_handler call
proof
  fix t and ev :: "conn_ref \<times> conn_call" assume inv: "tunnel_inv t"
  obtain c k where ev: "ev = (c, k)" by fastforce
  have upd: "tunnel_inv (update_conn c f t) \<and> advances t (update_conn c f t)"
    if "\<And>conn. c_realmID (f conn) = c_realmID conn" "\<And>conn. c_closed (f conn) = c_closed conn"
      "\<And>conn. c_closeCh (f conn) = c_closeCh conn" "\<And>conn. c_dataCh (f conn) = c_dataCh conn" for f
    using read_frame_update [of f t c] that inv by (simp add: read_frame_def)
  have "tunnel_inv (call ev t) \<and> advances t (call ev t)"
  proof (cases k)
    case (CallWrite clock p)
    then show ?thesis using ev inv write_loop_handler [OF inv] by (simp add: Conn_Write_def)
  next
    case (CallClose now)
    then show ?thesis using ev inv by (simp add: Conn_Close_inv Conn_Close_advances)
  next
    case (CallRead now n)
    then show ?thesis
      using ev inv Conn_Read_effect [of now n c t "fst (Conn_Read now n c t)" "snd (Conn_Read now n c t)"]
      by (simp add: read_frame_def)
  qed (use ev inv in \<open>simp_all add: set_deadline_conn upd notifyReadDeadlineLocked_def notifyWriteDeadlineLocked_def\<close>)
  then show "tunnel_inv (call ev t)" "advances t (call ev t)" by simp_all
qed

section \<open>Properties\<close>

text \<open>
  (C2) A connection delivers its stream intact: however the consumer's reads are interleaved with
  heartbeats, acknowledgements and inbound packets, and whatever buffer sizes it reads with, the
  bytes returned followed by the bytes still pending are the bytes pending at the start followed by
  the first of the payloads that arrived for the realm, in order; all of them unless the connection
  was closed; and when \<open>Read\<close> reports end of file nothing is pending, so no received byte is lost.
\<close>

theorem stream_integrity:
  assumes "tunnel_inv t" "realm_lookup t r = Some c"
    "fold (stream_step c) es (None, [], t) = (pc, out, t')"
  shows "\<exists>k. out @ pending c t' = pending c t @ concat (take k (arrivals r es)) \<and>
    (k < length (arrivals r es) \<longrightarrow> c_closed (tn_conns t' c)) \<and>
    (fst (Conn_Read now n c t') = ReadReturned (Inl ErrEOF) \<longrightarrow>
       c_closed (tn_conns t' c) \<and> out = pending c t @ concat (take k (arrivals r es)))"
proof -
  have c: "live c t" "c_realmID (tn_conns t c) = r" using live_lookup [OF assms(1,2)] by simp_all
  from stream_run [OF assms(3,1) live_less [OF assms(1) c(1)]] c
  obtain k where k: "out @ pending c t' = pending c t @ concat (take k (arrivals r es))"
    "k < length (arrivals r es) \<longrightarrow> \<not> live c t'" "live c t' \<or> c_closed (tn_conns t' c)"
    by (auto simp: flow_def)
  have "pending c t' = [] \<and> c_closed (tn_conns t' c)" if "fst (Conn_Read now n c t') = ReadReturned (Inl ErrEOF)"
    using Conn_Read_effect [of now n c t' "ReadReturned (Inl ErrEOF)" "snd (Conn_Read now n c t')"] that
    by (auto simp: prod_eq_iff read_bytes_def read_frame_def)
  with k show ?thesis by (intro exI [of _ k]) auto
qed

theorem stream_integrity_witness:
  "let payload = Packet_Serialize (fst (Session_Send NewSession (NewPayloadBody 7 [1, 2, 3])));
       es = [ReadCall 0 2, Env (Inbound 1 (Inr payload)), ReadWake 1 WakeData, ReadCall 2 2]
   in \<exists>pc out t'. fold (stream_step 0) es (None, [], sample_tunnel [7]) = (pc, out, t') \<and>
        (\<exists>k. out @ pending 0 t' = concat (take k (arrivals 7 es)) \<and>
           (k < length (arrivals 7 es) \<longrightarrow> c_closed (tn_conns t' 0)))"
proof -
  have t: "realm_lookup (sample_tunnel [7]) 7 = Some 0" "pending 0 (sample_tunnel [7]) = []" "distinct [7 :: u32]"
    by (simp_all add: realm_lookup_def pending_def sample_tunnel_def Tunnel_New_def zero_Conn_def)
  define es where "es = [ReadCall 0 2, Env (Inbound 1 (Inr (Packet_Serialize
    (fst (Session_Send NewSession (NewPayloadBody 7 [1, 2, 3])))))), ReadWake 1 WakeData, ReadCall 2 2]"
  obtain pc out t' where run: "fold (stream_step 0) es (None, [], sample_tunnel [7]) = (pc, out, t')"
    by (metis prod.exhaust)
  from stream_integrity [OF sample_inv [OF t(3)] t(1) run] run t(2) show ?thesis
    unfolding es_def Let_def by force
qed

end
