(* ===== verification/Tunnel_Dial.thy ===== *)
theory Tunnel_Dial
  imports Tunnel_Stream
begin

text \<open>
  Opening a realm (\<^verbatim>\<open>tunnel/tunnel.go\<close>, \<open>Dial\<close>): the steps of a dial between the points where it
  takes a lock or waits, interleaved with the tunnel's goroutines, with the calls on connections
  already handed out (closing one step by step), and with shutdown and retirement.
\<close>

section \<open>The pieces of Dial\<close>

text \<open>
  The random source is the list of the numbers it will yield; \<open>None\<close> says that it ran out before a
  free one was drawn.
\<close>

fun randomRealmID :: "u32 list \<Rightarrow> Tunnel \<Rightarrow> (u32 \<times> u32 list) option" where
  "randomRealmID [] t = None"
| "randomRealmID (x # draws) t = (if realm_lookup t x = None then Some (x, draws) else randomRealmID draws t)"

definition BindFailures :: "Tunnel \<Rightarrow> nat" where
  "BindFailures t = tn_bindFailures t"

definition Dial_check :: "Tunnel \<Rightarrow> tun_error option" where
  "Dial_check t =
     (if tn_closed t then Some ErrTunnelClosed
      else if tn_retired t then Some ErrTunnelRetired
      else None)"

lemma Dial_check_None: "Dial_check t = None \<longleftrightarrow> \<not> tn_closed t \<and> \<not> tn_retired t"
  by (simp add: Dial_check_def)

text \<open>
  One attempt: install the connection under its realm ID unless the map is nil, register the
  channel the grant will arrive on, send the BIND; on failure both entries are removed.
\<close>

definition new_Conn :: "u32 \<Rightarrow> u32 \<Rightarrow> Conn" where
  "new_Conn realmID port =
     zero_Conn\<lparr>c_realmID := realmID, c_remotePort := port, c_readDeadlineChanged := 1, c_writeDeadlineChanged := 1\<rparr>"

definition dial_install :: "u32 \<Rightarrow> u32 \<Rightarrow> Tunnel \<Rightarrow> tun_error + conn_ref \<times> Tunnel" where
  "dial_install realmID port t =
     (let c = tn_next t;
          t = t\<lparr>tn_conns := (tn_conns t)(c := new_Conn realmID port), tn_next := Suc c\<rparr>
      in case tn_realms t of
           None \<Rightarrow> Inl ErrTunnelClosed
         | Some m \<Rightarrow> Inr (c, t\<lparr>tn_realms := Some (AList.update realmID c m)\<rparr>))"

definition dial_register :: "u32 \<Rightarrow> conn_ref \<Rightarrow> Tunnel \<Rightarrow> Tunnel" where
  "dial_register realmID c t = t\<lparr>tn_connCh := AList.update realmID c (tn_connCh t)\<rparr>"

definition dial_cleanup :: "u32 \<Rightarrow> Tunnel \<Rightarrow> Tunnel" where
  "dial_cleanup realmID t = connCh_delete realmID (realm_delete realmID t)"

definition dial_bind :: "int \<Rightarrow> u32 \<Rightarrow> u32 \<Rightarrow> Tunnel \<Rightarrow> tun_error option \<times> Tunnel" where
  "dial_bind now realmID port t =
     (case sendPacket now (NewBindBody realmID port) t of
        (Some err, t) \<Rightarrow> (Some err, dial_cleanup realmID t)
      | (None, t) \<Rightarrow> (None, t))"

definition dial_granted :: "conn_ref \<Rightarrow> Tunnel \<Rightarrow> Tunnel" where
  "dial_granted c t = t\<lparr>tn_grants := (tn_grants t)(c := tn_grants t c - 1), tn_bindFailures := 0\<rparr>"

definition dial_exhausted :: "Tunnel \<Rightarrow> Tunnel" where
  "dial_exhausted t = t\<lparr>tn_bindFailures := Suc (tn_bindFailures t)\<rparr>"

definition maxRetries :: nat where
  "maxRetries = 3"

section \<open>A dial among the other goroutines\<close>

text \<open>
  \<open>ds_queue\<close> are the callers that passed the first check and wait for the dial mutex; \<open>ds_pc\<close> is where
  the one holding it stands, with its attempt, port, realm ID and connection; \<open>ds_results\<close> are the
  results of the calls that have returned and \<open>ds_trace\<close> the events the goroutines handled.
  \<open>ds_closing\<close> are the calls of \<open>Conn.Close\<close> under way, with the disconnects each still has to send, or
  \<open>None\<close> before it has looked whether the tunnel is closed.
\<close>

datatype dial_pc =
  DialIdle
| DialAttempt nat u32
| DialInstalled nat u32 u32 conn_ref
| DialRegistered nat u32 u32 conn_ref
| DialWaiting nat u32 u32 conn_ref

record dialer =
  ds_tunnel :: Tunnel
  ds_queue :: "u32 list"
  ds_pc :: dial_pc
  ds_draws :: "u32 list"
  ds_results :: "(tun_error + conn_ref) list"
  ds_trace :: "tunnel_event list"
  ds_closing :: "(conn_ref \<times> nat option) list"

definition finish_dial :: "(tun_error + conn_ref) \<Rightarrow> Tunnel \<Rightarrow> dialer \<Rightarrow> dialer" where
  "finish_dial res t s = s\<lparr>ds_tunnel := t, ds_pc := DialIdle, ds_results := ds_results s @ [res]\<rparr>"

definition handed_out :: "dialer \<Rightarrow> conn_ref set" where
  "handed_out s = {c. Inr c \<in> set (ds_results s)}"

text \<open>
  In the select statement a dial takes the grant, the tunnel's end or its timer, whichever is ready;
  the timer may fire at any time. Calls are made only on connections that were handed out.
  \<open>Conn.Close\<close> sleeps between its disconnects and removes the realm last, so that it is a sequence of
  steps here: everything else may run in between. The other calls and the handlers of the three
  goroutines are one step each.
\<close>

fun is_close :: "conn_call \<Rightarrow> bool" where
  "is_close (CallClose now) = True"
| "is_close _ = False"

definition next_closing :: "conn_ref \<times> nat option \<Rightarrow> nat option \<Rightarrow> dialer \<Rightarrow> dialer" where
  "next_closing x k s = s\<lparr>ds_closing := (fst x, k) # remove1 x (ds_closing s)\<rparr>"

inductive dial_step :: "dialer \<Rightarrow> dialer \<Rightarrow> bool" where
  call_refused: "Dial_check (ds_tunnel s) = Some e \<Longrightarrow> dial_step s (s\<lparr>ds_results := ds_results s @ [Inl e]\<rparr>)"
| call_queued: "Dial_check (ds_tunnel s) = None \<Longrightarrow> dial_step s (s\<lparr>ds_queue := ds_queue s @ [port]\<rparr>)"
| lock_refused: "ds_pc s = DialIdle \<Longrightarrow> port \<in> set (ds_queue s) \<Longrightarrow> Dial_check (ds_tunnel s) = Some e \<Longrightarrow>
    dial_step s (finish_dial (Inl e) (ds_tunnel s) (s\<lparr>ds_queue := remove1 port (ds_queue s)\<rparr>))"
| lock: "ds_pc s = DialIdle \<Longrightarrow> port \<in> set (ds_queue s) \<Longrightarrow> Dial_check (ds_tunnel s) = None \<Longrightarrow>
    dial_step s (s\<lparr>ds_queue := remove1 port (ds_queue s), ds_pc := DialAttempt 0 port\<rparr>)"
| install: "ds_pc s = DialAttempt n port \<Longrightarrow> n < maxRetries \<Longrightarrow>
    randomRealmID (ds_draws s) (ds_tunnel s) = Some (r, draws) \<Longrightarrow>
    dial_install r port (ds_tunnel s) = Inr (c, t) \<Longrightarrow>
    dial_step s (s\<lparr>ds_tunnel := t, ds_draws := draws, ds_pc := DialInstalled n port r c\<rparr>)"
| install_refused: "ds_pc s = DialAttempt n port \<Longrightarrow> n < maxRetries \<Longrightarrow>
    randomRealmID (ds_draws s) (ds_tunnel s) = Some (r, draws) \<Longrightarrow>
    dial_install r port (ds_tunnel s) = Inl e \<Longrightarrow>
    dial_step s (finish_dial (Inl e) (ds_tunnel s) (s\<lparr>ds_draws := draws\<rparr>))"
| register: "ds_pc s = DialInstalled n port r c \<Longrightarrow>
    dial_step s (s\<lparr>ds_tunnel := dial_register r c (ds_tunnel s), ds_pc := DialRegistered n port r c\<rparr>)"
| bind: "ds_pc s = DialRegistered n port r c \<Longrightarrow> dial_bind now r port (ds_tunnel s) = (None, t) \<Longrightarrow>
    dial_step s (s\<lparr>ds_tunnel := t, ds_pc := DialWaiting n port r c\<rparr>)"
| bind_failed: "ds_pc s = DialRegistered n port r c \<Longrightarrow> dial_bind now r port (ds_tunnel s) = (Some e, t) \<Longrightarrow>
    dial_step s (finish_dial (Inl e) t s)"
| granted: "ds_pc s = DialWaiting n port r c \<Longrightarrow> 0 < tn_grants (ds_tunnel s) c \<Longrightarrow>
    dial_step s (finish_dial (Inr c) (dial_granted c (ds_tunnel s)) s)"
| tunnel_done: "ds_pc s = DialWaiting n port r c \<Longrightarrow> tn_done (ds_tunnel s) \<Longrightarrow>
    dial_step s (finish_dial (Inl ErrTunnelClosed) (dial_cleanup r (ds_tunnel s)) s)"
| timeout: "ds_pc s = DialWaiting n port r c \<Longrightarrow>
    dial_step s (s\<lparr>ds_tunnel := dial_cleanup r (ds_tunnel s), ds_pc := DialAttempt (Suc n) port\<rparr>)"
| exhausted: "ds_pc s = DialAttempt n port \<Longrightarrow> \<not> n < maxRetries \<Longrightarrow>
    dial_step s (finish_dial (Inl ErrDialTimeout) (dial_exhausted (ds_tunnel s)) s)"
| event: "dial_step s (s\<lparr>ds_tunnel := handle_event e (ds_tunnel s), ds_trace := ds_trace s @ [e]\<rparr>)"
| conn_call: "c \<in> handed_out s \<Longrightarrow> \<not> is_close k \<Longrightarrow> dial_step s (s\<lparr>ds_tunnel := call (c, k) (ds_tunnel s)\<rparr>)"
| conn_close: "c \<in> handed_out s \<Longrightarrow> close_mark now c (ds_tunnel s) = (alreadyClosed, t) \<Longrightarrow>
    dial_step s (s\<lparr>ds_tunnel := t, ds_closing := (if alreadyClosed then ds_closing s else (c, None) # ds_closing s)\<rparr>)"
| conn_check: "(c, None) \<in> set (ds_closing s) \<Longrightarrow>
    dial_step s (next_closing (c, None) (Some (if Tunnel_IsClosed (ds_tunnel s) then 0 else discRetries)) s)"
| conn_disc: "(c, Some (Suc k)) \<in> set (ds_closing s) \<Longrightarrow>
    sendPacket now (NewStatusBody (c_realmID (tn_conns (ds_tunnel s) c)) StatusDisconnect) (ds_tunnel s) = (e, t) \<Longrightarrow>
    dial_step s (next_closing (c, Some (Suc k)) (Some (if e = None then k else 0)) (s\<lparr>ds_tunnel := t\<rparr>))"
| conn_forget: "(c, Some 0) \<in> set (ds_closing s) \<Longrightarrow>
    dial_step s (s\<lparr>ds_tunnel := realm_delete (c_realmID (tn_conns (ds_tunnel s) c)) (ds_tunnel s),
      ds_closing := remove1 (c, Some 0) (ds_closing s)\<rparr>)"
| close: "dial_step s (s\<lparr>ds_tunnel := snd (Tunnel_Close now (ds_tunnel s))\<rparr>)"
| retire: "dial_step s (s\<lparr>ds_tunnel := Tunnel_Retire (ds_tunnel s)\<rparr>)"
| set_on_close: "dial_step s (s\<lparr>ds_tunnel := Tunnel_SetOnClose (ds_tunnel s)\<rparr>)"

inductive dial_reachable :: "dialer \<Rightarrow> bool" where
  init: "k_open (u_conn client) \<Longrightarrow>
    dial_reachable \<lparr>ds_tunnel = Tunnel_New client session port, ds_queue = [], ds_pc = DialIdle,
      ds_draws = draws, ds_results = [], ds_trace = [], ds_closing = []\<rparr>"
| step: "dial_reachable s \<Longrightarrow> dial_step s s' \<Longrightarrow> dial_reachable s'"

section \<open>The invariant\<close>

text \<open>
  \<open>quiet\<close> operations leave the two dial tables alone, up to realms that disappear; under
  \<open>undisturbed\<close> ones a pending entry may turn into a grant. \<open>kept\<close> connections are registered until
  they are closed, unless their realm ID is \<open>reused\<close>: an earlier connection had it, and the end of a
  \<open>Close\<close> of that one removes the realm by its ID.
\<close>

definition quiet :: "Tunnel \<Rightarrow> Tunnel \<Rightarrow> bool" where
  "quiet t t' \<longleftrightarrow> tn_next t' = tn_next t \<and> tn_bindFailures t' = tn_bindFailures t \<and>
     tn_connCh t' = tn_connCh t \<and> tn_grants t' = tn_grants t \<and> set (realm_entries t') \<subseteq> set (realm_entries t)"

definition undisturbed :: "Tunnel \<Rightarrow> Tunnel \<Rightarrow> bool" where
  "undisturbed t t' \<longleftrightarrow> tn_next t' = tn_next t \<and> tn_bindFailures t' = tn_bindFailures t \<and>
     set (realm_entries t') \<subseteq> set (realm_entries t) \<and> set (tn_connCh t') \<subseteq> set (tn_connCh t) \<and>
     (\<forall>r c. (r, c) \<in> set (tn_connCh t) \<longrightarrow> (r, c) \<notin> set (tn_connCh t') \<longrightarrow> tn_grants t' c = 1) \<and>
     (\<forall>c. c \<notin> snd ` set (tn_connCh t) \<longrightarrow> tn_grants t' c = tn_grants t c)"

fun current :: "dial_pc \<Rightarrow> (u32 \<times> conn_ref) option" where
  "current (DialInstalled n port r c) = Some (r, c)"
| "current (DialRegistered n port r c) = Some (r, c)"
| "current (DialWaiting n port r c) = Some (r, c)"
| "current _ = None"

fun awaiting :: "dial_pc \<Rightarrow> (u32 \<times> conn_ref) option" where
  "awaiting (DialRegistered n port r c) = Some (r, c)"
| "awaiting (DialWaiting n port r c) = Some (r, c)"
| "awaiting _ = None"

definition reused :: "conn_ref \<Rightarrow> Tunnel \<Rightarrow> bool" where
  "reused c t \<longleftrightarrow> (\<exists>d < c. c_realmID (tn_conns t d) = c_realmID (tn_conns t c))"

definition kept :: "conn_ref \<Rightarrow> Tunnel \<Rightarrow> bool" where
  "kept c t \<longleftrightarrow> c < tn_next t \<and> (live c t \<or> c_closed (tn_conns t c) \<or> reused c t)"

text \<open>A registered connection is the last one that was given its realm ID.\<close>

definition newest :: "Tunnel \<Rightarrow> bool" where
  "newest t \<longleftrightarrow> (\<forall>c d. live c t \<longrightarrow> c < d \<longrightarrow> d < tn_next t \<longrightarrow> c_realmID (tn_conns t d) \<noteq> c_realmID (tn_conns t c))"

definition dial_inv :: "dialer \<Rightarrow> bool" where
  "dial_inv s \<longleftrightarrow> (let t = ds_tunnel s; pc = ds_pc s in
     tunnel_inv t \<and> set (tn_connCh t) \<subseteq> set_option (awaiting pc) \<and>
     (\<forall>r c. current pc = Some (r, c) \<longrightarrow> kept c t \<and> c_realmID (tn_conns t c) = r \<and> c \<notin> handed_out s \<and>
        (\<forall>d. (r, d) \<in> set (realm_entries t) \<longrightarrow> d = c) \<and>
        (if awaiting pc = None then tn_grants t c = 0 else (r, c) \<in> set (tn_connCh t) \<or> tn_grants t c = 1)) \<and>
     (\<forall>c \<in> handed_out s. kept c t) \<and>
     (\<forall>c. live c t \<longrightarrow> c \<in> handed_out s \<or> (\<exists>r. current pc = Some (r, c))) \<and>
     newest t \<and> (\<forall>c \<in> fst ` set (ds_closing s). c \<in> handed_out s \<and> c_closed (tn_conns t c)))"

text \<open>The status packet that grants a realm, and the history behind the grants.\<close>

definition connects :: "u32 \<Rightarrow> tunnel_event \<Rightarrow> bool" where
  "connects r e = (case e of
     Inbound now (Inr d) \<Rightarrow>
       (case ParsePacket d of
          Inr p \<Rightarrow> b_Type (p_Body p) = BodyTypeStatus \<and> b_Status (p_Body p) = StatusConnect \<and> b_Realm (p_Body p) = r
        | Inl _ \<Rightarrow> False)
   | _ \<Rightarrow> False)"

definition granted_inv :: "dialer \<Rightarrow> bool" where
  "granted_inv s \<longleftrightarrow> (\<forall>c < tn_next (ds_tunnel s). 0 < tn_grants (ds_tunnel s) c \<or> c \<in> handed_out s \<longrightarrow>
     (\<exists>e \<in> set (ds_trace s). connects (c_realmID (tn_conns (ds_tunnel s) c)) e))"

text \<open>The failures a sequence of results amounts to, and what is left of a dial.\<close>

fun count_failures :: "(tun_error + conn_ref) list \<Rightarrow> nat \<Rightarrow> nat" where
  "count_failures [] n = n"
| "count_failures (Inr c # rs) n = count_failures rs 0"
| "count_failures (Inl e # rs) n = count_failures rs (if e = ErrDialTimeout then Suc n else n)"

fun dial_rank :: "dial_pc \<Rightarrow> nat" where
  "dial_rank DialIdle = 0"
| "dial_rank (DialAttempt n port) = 4 * (3 - n) + 1"
| "dial_rank (DialInstalled n port r c) = 4 * (3 - n)"
| "dial_rank (DialRegistered n port r c) = 4 * (3 - n) - 1"
| "dial_rank (DialWaiting n port r c) = 4 * (3 - n) - 2"

fun attempt_ok :: "dial_pc \<Rightarrow> bool" where
  "attempt_ok (DialInstalled n port r c) = (n < 3)"
| "attempt_ok (DialRegistered n port r c) = (n < 3)"
| "attempt_ok (DialWaiting n port r c) = (n < 3)"
| "attempt_ok _ = True"

section \<open>The other goroutines leave a dial undisturbed\<close>

lemma quiet_refl [simp, intro]: "quiet t t"
  by (simp add: quiet_def)

lemma quiet_trans: "quiet t u \<Longrightarrow> quiet u v \<Longrightarrow> quiet t v"
  by (auto simp: quiet_def)

lemma quiet_undisturbed: "quiet t t' \<Longrightarrow> undisturbed t t'"
  by (auto simp: quiet_def undisturbed_def)

lemma undisturbed_quiet: "undisturbed t u \<Longrightarrow> quiet u v \<Longrightarrow> undisturbed t v"
  by (auto simp: quiet_def undisturbed_def)

lemma quiet_then_undisturbed: "quiet t u \<Longrightarrow> undisturbed u v \<Longrightarrow> undisturbed t v"
  by (auto simp: quiet_def undisturbed_def)

lemma quiet_sendPacket: "quiet t (snd (sendPacket now b t))"
  by (simp add: quiet_def realm_entries_def)

lemma quiet_update_conn: "quiet t (update_conn c f t)"
  by (simp add: quiet_def realm_entries_def update_conn_def)

lemma quiet_realm_delete: "quiet t (realm_delete r t)"
  by (auto simp: quiet_def mem_delete) (simp_all add: realm_delete_def)

lemma quiet_signalClosed: "tunnel_inv t \<Longrightarrow> quiet t (signalClosed now c t)"
  by (simp add: signalClosed_eq tunnel_invD quiet_def realm_entries_def)

lemma quiet_close: "tn_activeWriter t = None \<Longrightarrow> quiet t (snd (Tunnel_Close now t))"
  by (cases "tn_closed t") (simp_all add: Tunnel_Close_closed Tunnel_Close_open Let_def quiet_def realm_entries_def)

lemma quiet_outboundStalled: "quiet t (snd (outboundStalled now t))"
  by (simp add: quiet_def realm_entries_def outboundStalled_def Let_def split: option.splits)

lemma quiet_fields [simp]:
  "quiet t (u\<lparr>tn_missedHeartbeats := n\<rparr>) = quiet t u" "quiet (u\<lparr>tn_missedHeartbeats := n\<rparr>) t = quiet u t"
  "quiet t (u\<lparr>tn_consecutiveReadErrs := n\<rparr>) = quiet t u" "quiet (u\<lparr>tn_consecutiveReadErrs := n\<rparr>) t = quiet u t"
  "quiet t (u\<lparr>tn_consecutiveSendErrs := n\<rparr>) = quiet t u" "quiet t (u\<lparr>tn_ackPending := b\<rparr>) = quiet t u"
  "quiet t (u\<lparr>tn_session := x\<rparr>) = quiet t u" "quiet t (ackHeartbeat now u) = quiet t u"
  "quiet t (scheduleACK u) = quiet t u"
  by (simp_all add: quiet_def realm_entries_def ackHeartbeat_def scheduleACK_def)

lemma quiet_sendHeartbeat:
  assumes "tunnel_inv t" shows "quiet t (sendHeartbeat now t)"
proof -
  let ?u = "t\<lparr>tn_missedHeartbeats := Suc (tn_missedHeartbeats t)\<rparr>"
  let ?v = "snd (outboundStalled now (snd (sendPacket now NewHeartbeatBody ?u)))"
  have v: "quiet t ?v" using quiet_trans [OF quiet_sendPacket [of ?u] quiet_outboundStalled] by simp
  have "tn_activeWriter ?v = None"
    using tunnel_invD(5) [OF assms] by (simp add: outboundStalled_def Let_def split: option.splits)
  then have "quiet t (snd (Tunnel_Close now ?v))" using quiet_trans [OF v quiet_close] by blast
  moreover have "quiet t (snd (Tunnel_Close now ?u))"
    using quiet_close [of ?u] tunnel_invD(5) [OF assms] by simp
  ultimately show ?thesis using v by (simp add: sendHeartbeat_def Let_def case_prod_beta)
qed

lemma quiet_flushACK: "tunnel_inv t \<Longrightarrow> quiet t (flushACK now t)"
  by (auto simp: flushACK_def Let_def case_prod_beta quiet_sendPacket tunnel_invD
      intro!: quiet_trans [OF _ quiet_close])

lemma reader_connect_undisturbed:
  assumes "tunnel_inv t" shows "undisturbed t (reader_connect r t)"
proof (cases "map_of (tn_connCh t) r")
  case (Some ch)
  let ?t = "reader_connect r t"
  have mem: "(r, ch) \<in> set (tn_connCh t)" using Some by (rule map_of_SomeD)
  have d: "distinct (map fst (tn_connCh t))" "tn_grants t ch = 0"
    using tunnel_invD(2) [OF assms] mem by (auto simp: table_inv_def)
  have t: "tn_next ?t = tn_next t" "tn_bindFailures ?t = tn_bindFailures t" "realm_entries ?t = realm_entries t"
    "tn_connCh ?t = AList.delete r (tn_connCh t)" "tn_grants ?t = (tn_grants t)(ch := 1)"
    using Some d(2) by (simp_all add: reader_connect_def connCh_delete_def realm_entries_def)
  have one: "tn_grants ?t c = 1" if "(q, c) \<in> set (tn_connCh t)" "(q, c) \<notin> set (tn_connCh ?t)" for q c
    using that mem eq_key_imp_eq_value [OF d(1), of r] by (auto simp: t mem_delete)
  have "tn_grants ?t c = tn_grants t c" if "c \<notin> snd ` set (tn_connCh t)" for c
    using that mem by (auto simp: t intro: image_eqI [where x = "(r, ch)"])
  with one show ?thesis by (auto simp: undisturbed_def t mem_delete)
qed (simp add: reader_connect_def quiet_undisturbed)

lemma quiet_reader_disconnect: "tunnel_inv t \<Longrightarrow> quiet t (reader_disconnect now r t)"
  using quiet_trans [OF quiet_realm_delete quiet_signalClosed [OF realm_delete_inv]]
  by (simp add: reader_disconnect_def split: option.splits)

lemma quiet_reader_payload:
  assumes "tunnel_inv t" shows "quiet t (reader_payload now r data t)"
proof -
  have "quiet t (snd (sendPacket now b (signalClosed now c (realm_delete r t))))" for b c
    using quiet_trans [OF quiet_trans [OF quiet_realm_delete quiet_signalClosed [OF realm_delete_inv [OF assms]]] quiet_sendPacket] .
  then show ?thesis by (simp add: reader_payload_def Let_def quiet_update_conn split: option.splits)
qed

lemma undisturbed_scheduleACK: "undisturbed t (scheduleACK u) = undisturbed t u"
  by (simp add: undisturbed_def realm_entries_def scheduleACK_def)

lemma reader_packet_undisturbed: "tunnel_inv t \<Longrightarrow> undisturbed t (reader_packet now p t)"
  by (simp add: reader_packet_def Let_def undisturbed_scheduleACK quiet_undisturbed quiet_sendPacket
      reader_connect_undisturbed quiet_reader_disconnect quiet_reader_payload split: BodyType.splits)

lemma reader_handle_undisturbed:
  assumes "tunnel_inv t" shows "undisturbed t (snd (reader_handle now res t))"
proof (cases res)
  case (Inl err)
  then show ?thesis
    using quiet_close [of "t\<lparr>tn_consecutiveReadErrs := Suc (tn_consecutiveReadErrs t)\<rparr>"] tunnel_invD(5) [OF assms]
    by (simp add: reader_handle_def Let_def quiet_undisturbed)
next
  case (Inr data)
  have "undisturbed t (reader_packet now p ((ackHeartbeat now (t\<lparr>tn_consecutiveReadErrs := 0\<rparr>))\<lparr>tn_session := x\<rparr>))" for p x
    by (rule quiet_then_undisturbed [OF _ reader_packet_undisturbed [OF reading_inv [OF assms]]]) simp
  then show ?thesis
    by (simp add: reader_handle_def Inr Let_def quiet_undisturbed split: sum.splits)
qed

lemma handle_event_undisturbed: "tunnel_inv t \<Longrightarrow> undisturbed t (handle_event e t)"
  by (cases e) (simp_all add: quiet_undisturbed quiet_sendHeartbeat quiet_flushACK reader_handle_undisturbed)

lemma quiet_write_loop: "tunnel_inv t \<Longrightarrow> quiet t (snd (write_loop clock i c p n t))"
proof -
  have "quiet t (with_wdc c t)" "quiet t (written c body t)" for t body
    by (simp_all add: quiet_def realm_entries_def with_wdc_def written_def update_conn_def)
  then show "tunnel_inv t \<Longrightarrow> ?thesis"
    using write_loop_rel [of quiet c t clock i p n] quiet_trans by blast
qed

lemma quiet_send_discs: "quiet t (send_discs now c k t)"
proof (induction k arbitrary: t)
  case (Suc k)
  show ?case
    using quiet_sendPacket [of t now "NewStatusBody (c_realmID (tn_conns t c)) StatusDisconnect"] quiet_trans [OF _ Suc]
    by (auto split: prod.split option.split)
qed simp

lemma quiet_close_conns: "quiet t (close_conns cs t)"
  by (simp add: quiet_def realm_entries_def)

lemma quiet_Conn_Close: "tunnel_inv t \<Longrightarrow> quiet t (Conn_Close now c t)"
  using quiet_trans [OF quiet_trans [OF quiet_close_conns quiet_send_discs] quiet_realm_delete]
    quiet_trans [OF quiet_close_conns quiet_realm_delete]
  by (auto simp: Conn_Close_eq)

lemma quiet_readData: "quiet t (snd (readData n c data t))"
  by (simp add: readData_def Let_def quiet_update_conn)

lemma quiet_pop_data: "pop_data c t = Some (d, u) \<Longrightarrow> quiet t u"
  by (auto simp: pop_data_def quiet_update_conn split: list.splits)

lemma quiet_Conn_Read: "quiet t (snd (Conn_Read now n c t))"
proof -
  define u where "u = update_conn c (\<lambda>conn. if c_readDeadlineChanged conn = 0
                                     then conn\<lparr>c_readDeadlineChanged := 1\<rparr> else conn) t"
  have u: "quiet t u" by (simp add: u_def quiet_update_conn)
  have "quiet t (snd (readData n c data v))" if "pop_data c u = Some (data, v)" for data v
    using quiet_trans [OF quiet_trans [OF u quiet_pop_data [OF that]] quiet_readData] .
  then show ?thesis
    using u by (auto simp: Conn_Read_def Let_def u_def [symmetric] quiet_update_conn split: option.splits)
qed

lemma quiet_call: "tunnel_inv t \<Longrightarrow> quiet t (call (c, k) t)"
  by (cases k) (simp_all add: Conn_Write_def quiet_write_loop quiet_Conn_Close quiet_Conn_Read
      set_deadline_conn quiet_update_conn)

lemma next_closing_simps [simp]:
  "ds_tunnel (next_closing x k s) = ds_tunnel s" "ds_pc (next_closing x k s) = ds_pc s"
  "ds_results (next_closing x k s) = ds_results s" "ds_trace (next_closing x k s) = ds_trace s"
  "ds_queue (next_closing x k s) = ds_queue s" "ds_draws (next_closing x k s) = ds_draws s"
  "handed_out (next_closing x k s) = handed_out s"
  by (simp_all add: next_closing_def handed_out_def)

lemma close_mark_quiet:
  assumes "tunnel_inv t" "close_mark now c t = (b, t')"
  shows "quiet t t' \<and> advances t t'"
  using assms quiet_close_conns close_conns_advances by (auto simp: close_mark_eq)

lemma sendPacket_quiet: "sendPacket now b t = (e, t') \<Longrightarrow> quiet t t' \<and> advances t t'"
  using quiet_sendPacket [of t now b] sendPacket_advances [of t now b] by simp

section \<open>Every step keeps the invariant\<close>

lemma awaiting_current: "awaiting pc = Some x \<Longrightarrow> current pc = Some x"
  by (cases pc) simp_all

lemma reused_mono:
  assumes "advances t t'" "c < tn_next t"
  shows "reused c t' \<longleftrightarrow> reused c t"
proof -
  have "c_realmID (tn_conns t' d) = c_realmID (tn_conns t d)" if "d \<le> c" for d
    using that assms(2) advancesD(5) [OF assms(1), of d] by simp
  then show ?thesis by (auto simp: reused_def)
qed

lemma kept_mono:
  assumes "kept c t" "advances t t'" "live c t \<Longrightarrow> live c t' \<or> c_closed (tn_conns t' c) \<or> reused c t"
  shows "kept c t'"
  using assms(1,3) advancesD(3) [OF assms(2)] advancesD(4) [OF assms(2), of c] reused_mono [OF assms(2), of c]
  by (auto simp: kept_def)

lemma newest_mono:
  assumes "newest t" "advances t t'" "tn_next t' = tn_next t" "set (realm_entries t') \<subseteq> set (realm_entries t)" "tunnel_inv t"
  shows "newest t'"
proof -
  have "live c t \<and> c < tn_next t" if "live c t'" for c
    using that assms(4) tunnel_invD(2) [OF assms(5)] by (auto simp: live_def table_inv_def)
  then show ?thesis using assms(1,3) advancesD(5) [OF assms(2)] by (simp add: newest_def)
qed

lemma closing_mono:
  assumes "dial_inv s" "fst ` set cl \<subseteq> fst ` set (ds_closing s)"
  shows "dial_inv (s\<lparr>ds_closing := cl\<rparr>)"
proof -
  have "\<forall>c \<in> fst ` set (ds_closing s). c \<in> handed_out s \<and> c_closed (tn_conns (ds_tunnel s) c)"
    using assms(1) by (simp add: dial_inv_def Let_def)
  then have cl: "\<forall>c \<in> fst ` set cl. c \<in> handed_out s \<and> c_closed (tn_conns (ds_tunnel s) c)" using assms(2) by blast
  have eq: "handed_out (s\<lparr>ds_closing := cl\<rparr>) = handed_out s" "ds_tunnel (s\<lparr>ds_closing := cl\<rparr>) = ds_tunnel s"
    "ds_pc (s\<lparr>ds_closing := cl\<rparr>) = ds_pc s" "ds_closing (s\<lparr>ds_closing := cl\<rparr>) = cl" by (simp_all add: handed_out_def)
  show ?thesis
    using assms(1) cl unfolding dial_inv_def Let_def eq by (elim conjE) (intro conjI; assumption)
qed

lemma environment_inv:
  assumes inv: "dial_inv s" and u: "undisturbed (ds_tunnel s) t'" "tunnel_inv t'" "advances (ds_tunnel s) t'"
    and l: "\<And>d. kept d (ds_tunnel s) \<Longrightarrow> live d (ds_tunnel s) \<Longrightarrow> live d t' \<or> c_closed (tn_conns t' d) \<or> reused d (ds_tunnel s)"
  shows "dial_inv (s\<lparr>ds_tunnel := t', ds_trace := tr\<rparr>)"
proof -
  let ?t = "ds_tunnel s"
  have k: "kept d t'" if "kept d ?t" for d
    using kept_mono [OF that u(3) l [OF that]] .
  have rid: "c_realmID (tn_conns t' d) = c_realmID (tn_conns ?t d)" if "kept d ?t" for d
    using that advancesD(5) [OF u(3)] by (simp add: kept_def)
  have sub: "set (realm_entries t') \<subseteq> set (realm_entries ?t)" "set (tn_connCh t') \<subseteq> set (tn_connCh ?t)"
    using u(1) by (simp_all add: undisturbed_def)
  have lv: "live d ?t" if "live d t'" for d using that sub(1) by (auto simp: live_def)
  have gr: "if awaiting (ds_pc s) = None then tn_grants t' c = 0 else (r, c) \<in> set (tn_connCh t') \<or> tn_grants t' c = 1"
    if cur: "current (ds_pc s) = Some (r, c)" for r c
  proof (cases "awaiting (ds_pc s)")
    case None
    then have "tn_connCh ?t = []" "tn_grants ?t c = 0" using inv cur by (auto simp: dial_inv_def Let_def)
    then show ?thesis using u(1) None by (simp add: undisturbed_def)
  next
    case (Some x)
    then have x: "x = (r, c)" using awaiting_current cur by fastforce
    have c: "set (tn_connCh ?t) \<subseteq> {(r, c)}" "(r, c) \<in> set (tn_connCh ?t) \<or> tn_grants ?t c = 1"
      using inv cur Some x by (auto simp: dial_inv_def Let_def)
    show ?thesis
    proof (cases "(r, c) \<in> set (tn_connCh ?t)")
      case True
      then show ?thesis using u(1) Some by (auto simp: undisturbed_def)
    next
      case False
      then have "set (tn_connCh ?t) = {}" using c(1) by (metis empty_iff insert_iff subset_singletonD)
      then show ?thesis using u(1) Some c(2) False by (simp add: undisturbed_def)
    qed
  qed
  have "tunnel_inv ?t" "newest ?t" "tn_next t' = tn_next ?t" using inv u(1) by (simp_all add: dial_inv_def Let_def undisturbed_def)
  then have new: "newest t'" using newest_mono [OF _ u(3)] sub(1) by blast
  have cl: "c_closed (tn_conns t' c)" if "c \<in> fst ` set (ds_closing s)" for c
  proof -
    have "kept c ?t" "c_closed (tn_conns ?t c)" using that inv by (auto simp: dial_inv_def Let_def)
    then show ?thesis using advancesD(4) [OF u(3), of c] by (simp add: kept_def)
  qed
  have "handed_out (s\<lparr>ds_tunnel := t', ds_trace := tr\<rparr>) = handed_out s" by (simp add: handed_out_def)
  then show ?thesis
    using inv u(2) k rid sub lv gr new cl by (auto simp: dial_inv_def Let_def subset_iff)
qed

lemma event_kept:
  "tunnel_inv t \<Longrightarrow> live d t \<Longrightarrow> live d (handle_event e t) \<or> c_closed (tn_conns (handle_event e t) d)"
  using handle_event_delivery [of t d e] by (simp add: delivery_def)

lemma live_cong: "tn_realms t = tn_realms u \<Longrightarrow> live c t = live c u"
  by (simp add: live_def realm_entries_def)

lemma write_loop_live: "tunnel_inv t \<Longrightarrow> tn_realms (snd (write_loop clock i c p n t)) = tn_realms t"
  using write_loop_rel [of "\<lambda>t u. tn_realms u = tn_realms t" c t clock i p n] by simp

lemma call_kept:
  assumes "tunnel_inv t" "\<not> is_close k" "live d t"
  shows "live d (call (c, k) t)"
proof (cases k)
  case (CallWrite clock p)
  have "tn_realms (call (c, k) t) = tn_realms t"
    using CallWrite write_loop_live [OF assms(1)] by (simp add: Conn_Write_def)
  then show ?thesis using assms(3) live_cong by blast
next
  case (CallRead now n)
  have "tn_realms (call (c, k) t) = tn_realms t"
    using CallRead Conn_Read_effect [of now n c t "fst (Conn_Read now n c t)" "snd (Conn_Read now n c t)"]
    by (simp add: read_frame_def)
  then show ?thesis using assms(3) live_cong by blast
qed (use assms in \<open>simp_all add: set_deadline_conn live_def realm_entries_def\<close>)

lemma close_kept:
  "tunnel_inv t \<Longrightarrow> live d t \<Longrightarrow> live d (snd (Tunnel_Close now t)) \<or> c_closed (tn_conns (snd (Tunnel_Close now t)) d)"
  using close_delivery [of t d now] by (simp add: delivery_def tunnel_invD)

lemma randomRealmID_fresh: "randomRealmID draws t = Some (r, rest) \<Longrightarrow> realm_lookup t r = None"
  by (induction draws t rule: randomRealmID.induct) (auto split: if_splits)

lemma update_fresh: "k \<notin> fst ` set m \<Longrightarrow> AList.update k v m = m @ [(k, v)]"
  by (induction m) auto

lemma dial_install_effect:
  assumes "tunnel_inv t" "realm_lookup t r = None" "dial_install r port t = Inr (c, t')"
  shows "tunnel_inv t'" "c = tn_next t" "tn_next t' = Suc c" "tn_conns t' = (tn_conns t)(c := new_Conn r port)"
    "set (realm_entries t') = insert (r, c) (set (realm_entries t))" "tn_connCh t' = tn_connCh t" "tn_grants t' = tn_grants t"
    "tn_bindFailures t' = tn_bindFailures t" "advances t t'"
proof -
  obtain m where m: "tn_realms t = Some m" "c = tn_next t"
    "t' = t\<lparr>tn_conns := (tn_conns t)(c := new_Conn r port), tn_next := Suc c, tn_realms := Some (AList.update r c m)\<rparr>"
    using assms(3) by (auto simp: dial_install_def Let_def split: option.splits)
  have fresh: "r \<notin> fst ` set m" using assms(2) m(1) by (simp add: realm_lookup_def map_of_eq_None_iff)
  have upd: "AList.update r c m = m @ [(r, c)]" using fresh by (rule update_fresh)
  show "c = tn_next t" "tn_next t' = Suc c" "tn_conns t' = (tn_conns t)(c := new_Conn r port)"
    "tn_connCh t' = tn_connCh t" "tn_grants t' = tn_grants t" "tn_bindFailures t' = tn_bindFailures t"
    using m by simp_all
  show "set (realm_entries t') = insert (r, c) (set (realm_entries t))"
    using m upd by (simp add: realm_entries_def)
  have table: "table_inv t" "conn_ok (new_Conn r port)"
    using tunnel_invD(2) [OF assms(1)] by (simp_all add: conn_ok_def new_Conn_def zero_Conn_def)
  have ents: "realm_entries t' = m @ [(r, c)]" "realm_entries t = m" using m upd by (simp_all add: realm_entries_def)
  have old: "d < c" if "(q, d) \<in> set m \<or> (q, d) \<in> set (tn_connCh t)" for q d
    using that table m(2) ents(2) by (auto simp: table_inv_def)
  have "table_inv t'"
    unfolding table_inv_def ents
    using table old fresh m ents(2) by (auto simp: table_inv_def new_Conn_def image_iff less_Suc_eq)
  then show "tunnel_inv t'"
    using assms(1) m table(2) by (auto simp: tunnel_inv_def life_inv_def health_inv_def)
  show "advances t t'" using m by (simp add: advances_def)
qed

lemma dial_register_inv:
  assumes "tunnel_inv t" "c < tn_next t" "c_realmID (tn_conns t c) = r" "tn_grants t c = 0" "tn_connCh t = []"
  shows "tunnel_inv (dial_register r c t)"
  using assms by (simp add: inv_defs dial_register_def)

lemma dial_cleanup_effect:
  assumes "tunnel_inv t"
  shows "tunnel_inv (dial_cleanup r t)" "tn_conns (dial_cleanup r t) = tn_conns t"
    "live d (dial_cleanup r t) \<longleftrightarrow> live d t \<and> c_realmID (tn_conns t d) \<noteq> r"
    "tn_connCh (dial_cleanup r t) = AList.delete r (tn_connCh t)" "tn_next (dial_cleanup r t) = tn_next t"
    "tn_grants (dial_cleanup r t) = tn_grants t" "tn_bindFailures (dial_cleanup r t) = tn_bindFailures t"
    "tn_closed (dial_cleanup r t) = tn_closed t" "tn_retired (dial_cleanup r t) = tn_retired t"
proof -
  show "tunnel_inv (dial_cleanup r t)"
    by (simp add: dial_cleanup_def connCh_delete_inv realm_delete_inv assms)
  have "live d (dial_cleanup r t) = live d (realm_delete r t)"
    by (simp add: dial_cleanup_def connCh_delete_def live_def realm_entries_def)
  then show "live d (dial_cleanup r t) \<longleftrightarrow> live d t \<and> c_realmID (tn_conns t d) \<noteq> r"
    by (simp add: live_delete [OF assms])
qed (simp_all add: dial_cleanup_def connCh_delete_def realm_delete_def)

text \<open>The last step of a \<open>Close\<close> takes away the realm of whichever connection has the ID now.\<close>

lemma forget_kept:
  assumes "tunnel_inv t" "newest t" "c < tn_next t" "c_closed (tn_conns t c)" "live d t"
  shows "live d (realm_delete (c_realmID (tn_conns t c)) t) \<or> c_closed (tn_conns (realm_delete (c_realmID (tn_conns t c)) t) d) \<or> reused d t"
proof -
  have "c < d" if "c_realmID (tn_conns t d) = c_realmID (tn_conns t c)" "d \<noteq> c"
    using that assms(2,3,5) by (metis newest_def linorder_neqE_nat)
  then show ?thesis using assms(4,5) by (auto simp: live_delete [OF assms(1)] reused_def)
qed

lemma cleanup_idle:
  assumes inv: "dial_inv s" and pc: "awaiting (ds_pc s) = Some (r, c)" and pc': "current pc' = None"
    and res: "handed_out s' = handed_out s" "ds_tunnel s' = dial_cleanup r (ds_tunnel s)" "ds_pc s' = pc'"
      "ds_closing s' = ds_closing s"
  shows "dial_inv s'"
proof -
  let ?t = "ds_tunnel s"
  have t: "tunnel_inv ?t" using inv by (simp add: dial_inv_def Let_def)
  note cl = dial_cleanup_effect [OF t, where r = r]
  have cur: "current (ds_pc s) = Some (r, c)" using pc by (rule awaiting_current)
  have c: "set (tn_connCh ?t) \<subseteq> {(r, c)}" "c \<notin> handed_out s" "\<forall>d. (r, d) \<in> set (realm_entries ?t) \<longrightarrow> d = c"
    using inv pc cur by (auto simp: dial_inv_def Let_def)
  have empty: "set (tn_connCh (ds_tunnel s')) = {}" using c(1) by (intro equals0I) (auto simp: res cl(4) mem_delete)
  have other: "c_realmID (tn_conns ?t d) \<noteq> r" if "live d ?t" "d \<noteq> c" for d
    using that live_realmID [OF t, of d] c(3) by auto
  have k: "kept d (ds_tunnel s')" if "d \<in> handed_out s" for d
  proof -
    have "kept d ?t" "d \<noteq> c" using that inv c(2) by (auto simp: dial_inv_def Let_def)
    then show ?thesis using other [of d] by (auto simp: kept_def reused_def res cl)
  qed
  have "d \<in> handed_out s" if "live d (ds_tunnel s')" for d
    using that inv cur other [of d] by (auto simp: dial_inv_def Let_def res cl)
  moreover have "awaiting pc' = None" using pc' awaiting_current by (cases "awaiting pc'") auto
  moreover have "newest (ds_tunnel s')" using inv by (auto simp: dial_inv_def Let_def newest_def res cl)
  moreover have "\<forall>c \<in> fst ` set (ds_closing s). c \<in> handed_out s \<and> c_closed (tn_conns ?t c)" using inv by (simp add: dial_inv_def Let_def)
  ultimately show ?thesis using empty k cl(1) pc' by (simp add: dial_inv_def Let_def res cl)
qed

lemma handed_out_simps [simp]:
  "handed_out (s\<lparr>ds_tunnel := t\<rparr>) = handed_out s" "handed_out (s\<lparr>ds_pc := pc\<rparr>) = handed_out s"
  "handed_out (s\<lparr>ds_queue := qu\<rparr>) = handed_out s" "handed_out (s\<lparr>ds_draws := dr\<rparr>) = handed_out s"
  "handed_out (s\<lparr>ds_trace := tr\<rparr>) = handed_out s" "handed_out (s\<lparr>ds_closing := cl\<rparr>) = handed_out s"
  "handed_out (s\<lparr>ds_results := ds_results s @ [Inl e]\<rparr>) = handed_out s"
  "handed_out (finish_dial (Inl e) t s) = handed_out s"
  "handed_out (finish_dial (Inr c) t s) = insert c (handed_out s)"
  by (auto simp: handed_out_def finish_dial_def)

lemma dial_inv_cong:
  "ds_tunnel s' = ds_tunnel s \<Longrightarrow> ds_pc s' = ds_pc s \<Longrightarrow> handed_out s' = handed_out s \<Longrightarrow> ds_closing s' = ds_closing s \<Longrightarrow>
     dial_inv s' = dial_inv s"
  by (simp add: dial_inv_def)

lemma dial_inv_tunnel: "dial_inv s \<Longrightarrow> tunnel_inv (ds_tunnel s)"
  by (simp add: dial_inv_def Let_def)

lemma sendPacket_dial_inv:
  "dial_inv s \<Longrightarrow> dial_inv (s\<lparr>ds_tunnel := snd (sendPacket now b (ds_tunnel s)), ds_trace := ds_trace s\<rparr>)"
  by (rule environment_inv)
    (simp_all add: quiet_undisturbed quiet_sendPacket sendPacket_inv sendPacket_advances dial_inv_tunnel)

lemma dial_step_inv: "dial_step s s' \<Longrightarrow> dial_inv s \<Longrightarrow> dial_inv s'"
proof (induction rule: dial_step.induct)
  case (call_refused s e)
  then show ?case by (subst dial_inv_cong [of _ s]) simp_all
next
  case (call_queued s port)
  then show ?case by (subst dial_inv_cong [of _ s]) simp_all
next
  case (lock_refused s port e)
  then show ?case by (simp add: dial_inv_def Let_def finish_dial_def handed_out_def)
next
  case (lock s port)
  then show ?case by (simp add: dial_inv_def Let_def)
next
  case (install s n port r draws c t)
  let ?t = "ds_tunnel s"
  have t: "tunnel_inv ?t" "tn_connCh ?t = []" using install by (simp_all add: dial_inv_def Let_def)
  note eff = dial_install_effect [OF t(1) randomRealmID_fresh [OF install(3)] install(4)]
  have fresh: "(r, d) \<notin> set (realm_entries ?t)" for d
    using randomRealmID_fresh [OF install(3)] by (simp add: realm_lookup_iff [OF t(1), symmetric])
  have lv: "live d t \<longleftrightarrow> d = c \<or> live d ?t" for d by (auto simp: live_def eff(5))
  have out: "kept d t \<and> d \<noteq> c" if "d \<in> handed_out s" for d
  proof -
    have "kept d ?t" using that install(5) by (simp add: dial_inv_def Let_def)
    then have "kept d t" using lv by (intro kept_mono [OF _ eff(9)]) simp_all
    then show ?thesis using \<open>kept d ?t\<close> eff(2) by (auto simp: kept_def)
  qed
  have "tn_grants t c = 0" using t(1) by (simp add: eff(7) eff(2) tunnel_inv_def table_inv_def)
  moreover have "newest t"
    using install(5) eff(2-4) lv fresh live_realmID [OF t(1)] tunnel_invD(2) [OF t(1)]
    by (auto simp: dial_inv_def Let_def newest_def new_Conn_def less_Suc_eq live_def table_inv_def)
  moreover have "\<forall>d \<in> fst ` set (ds_closing s). d \<in> handed_out s \<and> c_closed (tn_conns t d)"
    using install(5) eff(4) out by (auto simp: dial_inv_def Let_def)
  moreover have "kept c t" "c_realmID (tn_conns t c) = r" "c \<notin> handed_out s" using eff(3,4) lv out by (auto simp: kept_def new_Conn_def)
  ultimately show ?case
    using install(5) install(1) eff(1,5,6) t lv fresh out by (auto simp: dial_inv_def Let_def)
next
  case (install_refused s n port r draws e)
  then show ?case by (simp add: dial_inv_def Let_def finish_dial_def handed_out_def)
next
  case (register s n port r c)
  have "tunnel_inv (dial_register r c (ds_tunnel s))"
    using register by (intro dial_register_inv) (auto simp: dial_inv_def Let_def kept_def)
  then show ?case
    using register by (auto simp: dial_inv_def Let_def dial_register_def kept_def reused_def newest_def live_def realm_entries_def)
next
  case (bind s n port r c now t)
  then have t: "t = snd (sendPacket now (NewBindBody r port) (ds_tunnel s))"
    by (auto simp: dial_bind_def split: prod.splits option.splits)
  have "dial_inv (s\<lparr>ds_tunnel := t, ds_trace := ds_trace s\<rparr>)"
    using bind(3) unfolding t by (rule sendPacket_dial_inv)
  then show ?case using bind by (simp add: dial_inv_def Let_def)
next
  case (bind_failed s n port r c now e t)
  let ?u = "snd (sendPacket now (NewBindBody r port) (ds_tunnel s))"
  have t: "t = dial_cleanup r ?u"
    using bind_failed by (auto simp: dial_bind_def split: prod.splits option.splits)
  have "dial_inv (s\<lparr>ds_tunnel := ?u, ds_trace := ds_trace s\<rparr>)"
    using bind_failed(3) by (rule sendPacket_dial_inv)
  then show ?case
    by (rule cleanup_idle [where r = r and c = c and pc' = DialIdle])
      (simp_all add: t bind_failed(1) finish_dial_def handed_out_def)
next
  case (granted s n port r c)
  let ?t = "ds_tunnel s" and ?u = "dial_granted c (ds_tunnel s)"
  have t: "tunnel_inv ?t" "set (tn_connCh ?t) \<subseteq> {(r, c)}" "kept c ?t"
    using granted by (auto simp: dial_inv_def Let_def)
  have nc: "c \<notin> snd ` set (tn_connCh ?t)"
    using granted(2) tunnel_invD(2) [OF t(1)] by (auto simp: table_inv_def)
  then have "tunnel_inv ?u"
    using t(1) by (auto simp: inv_defs dial_granted_def intro: le_trans [OF diff_le_self])
  moreover have "live d ?u = live d ?t" "kept d ?u = kept d ?t" "newest ?u = newest ?t" "tn_conns ?u = tn_conns ?t" for d
    by (simp_all add: dial_granted_def live_def kept_def reused_def newest_def realm_entries_def)
  moreover have "tn_connCh ?u = []"
    using t(2) nc by (cases "tn_connCh ?t") (auto simp: dial_granted_def)
  ultimately show ?case
    using granted t(3) by (auto simp: dial_inv_def Let_def) (auto simp: finish_dial_def)
next
  case (tunnel_done s n port r c)
  then show ?case
    by (rule_tac cleanup_idle [where r = r and c = c and pc' = DialIdle]) (simp_all add: finish_dial_def handed_out_def)
next
  case (timeout s n port r c)
  then show ?case
    by (rule_tac cleanup_idle [where r = r and c = c and pc' = "DialAttempt (Suc n) port"]) simp_all
next
  case (exhausted s n port)
  then show ?case
    by (simp add: dial_inv_def Let_def finish_dial_def handed_out_def dial_exhausted_def kept_def reused_def newest_def live_def
        realm_entries_def inv_defs)
next
  case (event s e)
  then have "tunnel_inv (ds_tunnel s)" by (simp add: dial_inv_def Let_def)
  then show ?case using event event_kept
    by (intro environment_inv handle_event_undisturbed events.keeps_inv events.moves_on) blast+
next
  case (conn_call c s k)
  then have t: "tunnel_inv (ds_tunnel s)" by (simp add: dial_inv_def Let_def)
  have "dial_inv (s\<lparr>ds_tunnel := call (c, k) (ds_tunnel s), ds_trace := ds_trace s\<rparr>)" using conn_call t
    by (intro environment_inv quiet_undisturbed quiet_call calls.keeps_inv calls.moves_on) (simp_all add: call_kept)
  then show ?case by simp
next
  case (conn_close c s now alreadyClosed t)
  note i = dial_inv_tunnel [OF conn_close(3)]
  have t: "t = close_conns {c} (ds_tunnel s)" using conn_close(2) by (simp add: close_mark_eq [OF i])
  have "dial_inv (s\<lparr>ds_tunnel := t, ds_trace := ds_trace s\<rparr>)"
    unfolding t using conn_close(3) i
    by (intro environment_inv quiet_undisturbed quiet_close_conns close_conns_inv close_conns_advances)
      (auto simp: live_def realm_entries_def)
  moreover have "c_closed (tn_conns t c)" by (simp add: t)
  ultimately show ?case using conn_close(1) by (auto simp: dial_inv_def Let_def)
next
  case (conn_check c s)
  then show ?case
    unfolding next_closing_def by (intro closing_mono) (auto dest: set_remove1_subset [THEN subsetD] intro: image_eqI [rotated])
next
  case (conn_disc c k s now e t)
  have "t = snd (sendPacket now (NewStatusBody (c_realmID (tn_conns (ds_tunnel s) c)) StatusDisconnect) (ds_tunnel s))"
    using conn_disc(2) by simp
  then have "dial_inv (s\<lparr>ds_tunnel := t\<rparr>)" using sendPacket_dial_inv [OF conn_disc(3)] by simp
  then show ?case using conn_disc(1)
    unfolding next_closing_def by (intro closing_mono) (auto dest: set_remove1_subset [THEN subsetD] intro: image_eqI [rotated])
next
  case (conn_forget c s)
  let ?t = "ds_tunnel s"
  have c: "c < tn_next ?t" "c_closed (tn_conns ?t c)" "newest ?t" using conn_forget by (auto simp: dial_inv_def Let_def kept_def)
  note i = dial_inv_tunnel [OF conn_forget(2)]
  have "dial_inv (s\<lparr>ds_tunnel := realm_delete (c_realmID (tn_conns ?t c)) ?t, ds_trace := ds_trace s\<rparr>)"
    using conn_forget(2) i c forget_kept [OF i c(3,1,2)]
    by (intro environment_inv quiet_undisturbed quiet_realm_delete realm_delete_inv realm_delete_advances) auto
  from closing_mono [OF this, of "remove1 (c, Some 0) (ds_closing s)"] show ?case
    by (auto dest: set_remove1_subset [THEN subsetD])
next
  case (close s now)
  then have t: "tunnel_inv (ds_tunnel s)" by (simp add: dial_inv_def Let_def)
  have "dial_inv (s\<lparr>ds_tunnel := snd (Tunnel_Close now (ds_tunnel s)), ds_trace := ds_trace s\<rparr>)"
    using close t tunnel_invD(5) [OF t]
    by (intro environment_inv quiet_undisturbed quiet_close close.keeps_inv close.moves_on) (blast dest: close_kept)+
  then show ?case by simp
next
  case (retire s)
  have "dial_inv (s\<lparr>ds_tunnel := Tunnel_Retire (ds_tunnel s), ds_trace := ds_trace s\<rparr>)"
    using retire retire.keeps_inv retire.moves_on dial_inv_tunnel [OF retire]
    by (intro environment_inv quiet_undisturbed)
      (auto simp: quiet_def live_def realm_entries_def Tunnel_Retire_def)
  then show ?case by simp
next
  case (set_on_close s)
  have "dial_inv (s\<lparr>ds_tunnel := Tunnel_SetOnClose (ds_tunnel s), ds_trace := ds_trace s\<rparr>)"
    using set_on_close set_on_close.keeps_inv set_on_close.moves_on dial_inv_tunnel [OF set_on_close]
    by (intro environment_inv quiet_undisturbed)
      (auto simp: quiet_def live_def realm_entries_def Tunnel_SetOnClose_def)
  then show ?case by simp
qed

lemma reader_packet_grants:
  assumes "tunnel_inv t" "tn_grants (reader_packet now p t) c \<noteq> tn_grants t c"
  shows "b_Type (p_Body p) = BodyTypeStatus \<and> b_Status (p_Body p) = StatusConnect \<and>
    b_Realm (p_Body p) = c_realmID (tn_conns t c)"
proof -
  have q: "tn_grants (reader_disconnect now r t) = tn_grants t" "tn_grants (reader_payload now r d t) = tn_grants t" for r d
    using quiet_reader_disconnect [OF assms(1)] quiet_reader_payload [OF assms(1)] by (auto simp: quiet_def)
  have g: "r = c_realmID (tn_conns t c)" if "tn_grants (reader_connect r t) c \<noteq> tn_grants t c" for r
    using that tunnel_invD(2) [OF assms(1)]
    by (auto simp: reader_connect_def connCh_delete_def table_inv_def split: option.splits if_splits dest!: map_of_SomeD)
  have sch: "tn_grants (scheduleACK u) = tn_grants u" for u by (simp add: scheduleACK_def)
  show ?thesis using assms(2) g
    by (auto simp: reader_packet_def Let_def sch q split: BodyType.splits if_splits)
qed

lemma handle_event_grants:
  assumes "tunnel_inv t" "tn_grants (handle_event e t) c \<noteq> tn_grants t c"
  shows "connects (c_realmID (tn_conns t c)) e"
proof (cases e)
  case (Tick now)
  then show ?thesis using assms quiet_sendHeartbeat [OF assms(1)] by (auto simp: quiet_def)
next
  case (AckTimer now)
  then show ?thesis using assms quiet_flushACK [OF assms(1)] by (auto simp: quiet_def)
next
  case (Inbound now res)
  show ?thesis
  proof (cases res)
    case (Inl err)
    have "quiet t (snd (Tunnel_Close now (t\<lparr>tn_consecutiveReadErrs := n\<rparr>)))" for n
      using quiet_close [of "t\<lparr>tn_consecutiveReadErrs := n\<rparr>"] tunnel_invD(5) [OF assms(1)] by simp
    then show ?thesis using assms(2) Inbound Inl
      by (auto simp: reader_handle_def Let_def quiet_def split: if_splits)
  next
    case (Inr d)
    show ?thesis
    proof (cases "ParsePacket d")
      case (Inl x)
      then show ?thesis using assms(2) Inbound \<open>res = Inr d\<close> by (simp add: reader_handle_def)
    next
      case p: (Inr p)
      let ?u = "(ackHeartbeat now (t\<lparr>tn_consecutiveReadErrs := 0\<rparr>))
        \<lparr>tn_session := snd (Session_Recv (tn_session (ackHeartbeat now (t\<lparr>tn_consecutiveReadErrs := 0\<rparr>))) p)\<rparr>"
      have "tn_grants (reader_packet now p ?u) c \<noteq> tn_grants ?u c"
        using assms(2) Inbound Inr p by (simp add: reader_handle_def Let_def ackHeartbeat_def)
      from reader_packet_grants [OF reading_inv [OF assms(1)] this] show ?thesis
        using Inbound Inr p by (simp add: connects_def ackHeartbeat_def)
    qed
  qed
qed

lemma count_failures_snoc:
  "count_failures (rs @ [Inr c]) n = 0"
  "count_failures (rs @ [Inl e]) n = (if e = ErrDialTimeout then Suc (count_failures rs n) else count_failures rs n)"
  by (induction rs n rule: count_failures.induct) auto

lemma granted_inv_quiet:
  assumes "granted_inv s" "advances (ds_tunnel s) t'" "tn_next t' = tn_next (ds_tunnel s)"
    "\<And>c. tn_grants t' c \<noteq> 0 \<Longrightarrow> tn_grants (ds_tunnel s) c = 0 \<Longrightarrow>
       \<exists>e \<in> set tr. connects (c_realmID (tn_conns (ds_tunnel s) c)) e"
    "set (ds_trace s) \<subseteq> set tr"
  shows "granted_inv (s\<lparr>ds_tunnel := t', ds_trace := tr\<rparr>)"
proof -
  have rid: "c_realmID (tn_conns t' c) = c_realmID (tn_conns (ds_tunnel s) c)" if "c < tn_next t'" for c
    using that assms(3) advancesD(5) [OF assms(2)] by simp
  have "\<exists>e \<in> set tr. connects (c_realmID (tn_conns (ds_tunnel s) c)) e"
    if "c < tn_next t'" "0 < tn_grants t' c \<or> c \<in> handed_out s" for c
  proof (cases "0 < tn_grants (ds_tunnel s) c \<or> c \<in> handed_out s")
    case True
    then show ?thesis using assms(1,3,5) that(1) unfolding granted_inv_def by (metis subsetD)
  next
    case False
    then show ?thesis using that assms(4) by blast
  qed
  then show ?thesis by (simp add: granted_inv_def rid handed_out_def)
qed


lemma event_bindFailures: "tunnel_inv t \<Longrightarrow> tn_bindFailures (handle_event e t) = tn_bindFailures t"
  using handle_event_undisturbed [of t e] by (simp add: undisturbed_def)

lemma dial_bind_frame:
  assumes "tunnel_inv t" "dial_bind now r port t = (e, t')"
  shows "tn_bindFailures t' = tn_bindFailures t" "tn_next t' = tn_next t" "tn_grants t' = tn_grants t"
    "tn_conns t' = tn_conns t" "e \<noteq> Some ErrDialTimeout" "tn_retired t' = tn_retired t"
  using assms(2) dial_cleanup_effect [OF sendPacket_inv [OF assms(1)], where r = r]
  by (auto simp: dial_bind_def sendPacket_eq split: prod.splits option.splits)

lemma dial_step_failures:
  "dial_step s s' \<Longrightarrow> dial_inv s \<Longrightarrow> tn_bindFailures (ds_tunnel s) = count_failures (ds_results s) 0 \<Longrightarrow>
     tn_bindFailures (ds_tunnel s') = count_failures (ds_results s') 0"
proof (induction rule: dial_step.induct)
  case (install s n port r draws c t)
  then show ?case
    using dial_install_effect(8) [OF dial_inv_tunnel randomRealmID_fresh] by simp
next
  case (install_refused s n port r draws e)
  then show ?case
    by (auto simp: dial_install_def Let_def finish_dial_def count_failures_snoc split: option.splits)
next
  case (bind s n port r c now t)
  then show ?case using dial_bind_frame [OF dial_inv_tunnel] by simp
next
  case (bind_failed s n port r c now e t)
  then show ?case using dial_bind_frame [OF dial_inv_tunnel, of s now r port "Some e" t]
    by (simp add: finish_dial_def count_failures_snoc)
next
  case (tunnel_done s n port r c)
  then show ?case using dial_cleanup_effect(7) [OF dial_inv_tunnel] by (simp add: finish_dial_def count_failures_snoc)
next
  case (timeout s n port r c)
  then show ?case using dial_cleanup_effect(7) [OF dial_inv_tunnel] by simp
next
  case (event s e)
  then show ?case by (simp add: event_bindFailures dial_inv_tunnel)
next
  case (conn_call c s k)
  then show ?case using quiet_call [OF dial_inv_tunnel, of s c k] by (simp add: quiet_def)
next
  case (close s now)
  then show ?case using quiet_close [OF tunnel_invD(5) [OF dial_inv_tunnel], of s now] by (simp add: quiet_def)
next
  case (conn_close c s now b t)
  then show ?case using close_mark_quiet [OF dial_inv_tunnel, of s now c b t] by (simp add: quiet_def)
next
  case (conn_disc c k s now e t)
  then show ?case using sendPacket_quiet [OF conn_disc(2)] by (simp add: quiet_def)
next
  case (conn_forget c s)
  then show ?case using quiet_realm_delete [of "ds_tunnel s"] by (simp add: quiet_def)
qed (auto simp: finish_dial_def count_failures_snoc Dial_check_def dial_register_def dial_granted_def dial_exhausted_def
    Tunnel_Retire_def Tunnel_SetOnClose_def split: if_splits)

lemma dial_step_granted:
  "dial_step s s' \<Longrightarrow> dial_inv s \<Longrightarrow> granted_inv s \<Longrightarrow> granted_inv s'"
proof (induction rule: dial_step.induct)
  case (install s n port r draws c t)
  note eff = dial_install_effect [OF dial_inv_tunnel [OF install(5)] randomRealmID_fresh [OF install(3)] install(4)]
  have "tn_grants (ds_tunnel s) c = 0" "c \<notin> handed_out s"
    using install(5) eff(2) by (auto simp: dial_inv_def Let_def kept_def tunnel_inv_def table_inv_def)
  then show ?case using install(6) eff by (auto simp: granted_inv_def less_Suc_eq)
next
  case (install_refused s n port r draws e)
  then show ?case by (simp add: granted_inv_def finish_dial_def handed_out_def)
next
  case (bind s n port r c now t)
  then show ?case using dial_bind_frame [OF dial_inv_tunnel, of s now r port None t] by (simp add: granted_inv_def)
next
  case (bind_failed s n port r c now e t)
  then show ?case using dial_bind_frame [OF dial_inv_tunnel, of s now r port "Some e" t]
    by (simp add: granted_inv_def finish_dial_def handed_out_def)
next
  case (granted s n port r c)
  then show ?case by (auto simp: granted_inv_def finish_dial_def handed_out_def dial_granted_def)
next
  case (tunnel_done s n port r c)
  then show ?case using dial_cleanup_effect [OF dial_inv_tunnel, where r = r]
    by (auto simp: granted_inv_def finish_dial_def handed_out_def)
next
  case (timeout s n port r c)
  then show ?case using dial_cleanup_effect [OF dial_inv_tunnel, where r = r] by (auto simp: granted_inv_def)
next
  case (event s e)
  note t = dial_inv_tunnel [OF event(1)]
  show ?case
    using event(2) events.moves_on [OF t] handle_event_undisturbed [OF t, of e] handle_event_grants [OF t, of e]
    by (intro granted_inv_quiet) (auto simp: undisturbed_def)
next
  case (conn_call c s k)
  note t = dial_inv_tunnel [OF conn_call(3)]
  have "granted_inv (s\<lparr>ds_tunnel := call (c, k) (ds_tunnel s), ds_trace := ds_trace s\<rparr>)"
    using conn_call(4) calls.moves_on [OF t, of "(c, k)"] quiet_call [OF t, of c k] by (intro granted_inv_quiet) (auto simp: quiet_def)
  then show ?case by simp
next
  case (close s now)
  note t = dial_inv_tunnel [OF close(1)]
  have "granted_inv (s\<lparr>ds_tunnel := snd (Tunnel_Close now (ds_tunnel s)), ds_trace := ds_trace s\<rparr>)"
    using close(2) close.moves_on [OF t, of now] quiet_close [OF tunnel_invD(5) [OF t], of now]
    by (intro granted_inv_quiet) (auto simp: quiet_def)
  then show ?case by simp
next
  case (conn_close c s now b t)
  have "granted_inv (s\<lparr>ds_tunnel := t, ds_trace := ds_trace s\<rparr>)"
    using conn_close(4) close_mark_quiet [OF dial_inv_tunnel [OF conn_close(3)] conn_close(2)]
    by (intro granted_inv_quiet) (auto simp: quiet_def)
  then show ?case by (simp add: granted_inv_def handed_out_def)
next
  case (conn_disc c k s now e t)
  have "granted_inv (s\<lparr>ds_tunnel := t, ds_trace := ds_trace s\<rparr>)"
    using conn_disc(4) sendPacket_quiet [OF conn_disc(2)] by (intro granted_inv_quiet) (auto simp: quiet_def)
  then show ?case by (simp add: granted_inv_def)
next
  case (conn_forget c s)
  have "granted_inv (s\<lparr>ds_tunnel := realm_delete (c_realmID (tn_conns (ds_tunnel s) c)) (ds_tunnel s), ds_trace := ds_trace s\<rparr>)"
    using conn_forget(3) quiet_realm_delete [of "ds_tunnel s"] realm_delete_advances
    by (intro granted_inv_quiet) (auto simp: quiet_def)
  then show ?case by (simp add: granted_inv_def handed_out_def)
qed (simp_all add: granted_inv_def finish_dial_def handed_out_def dial_register_def dial_exhausted_def Tunnel_Retire_def Tunnel_SetOnClose_def)

lemma reachable_dial:
  "dial_reachable s \<Longrightarrow> dial_inv s \<and> granted_inv s \<and> tn_bindFailures (ds_tunnel s) = count_failures (ds_results s) 0"
proof (induction rule: dial_reachable.induct)
  case (init client session port draws)
  then have "tunnel_inv (Tunnel_New client session port)" by (rule Tunnel_New_inv)
  then show ?case
    by (auto simp: dial_inv_def granted_inv_def handed_out_def live_def realm_entries_def newest_def Let_def) (simp_all add: Tunnel_New_def)
next
  case (step s s')
  then show ?case using dial_step_inv dial_step_granted dial_step_failures by blast
qed

lemma reachable_run: "dial_step\<^sup>*\<^sup>* s s' \<Longrightarrow> dial_reachable s \<Longrightarrow> dial_reachable s'"
  by (induction rule: rtranclp_induct) (auto intro: dial_reachable.step)

text \<open>The tunnel only moves forward.\<close>

lemma dial_step_advances:
  assumes "dial_step d d'" "dial_inv d"
  shows "advances (ds_tunnel d) (ds_tunnel d')"
  using assms
proof (induction rule: dial_step.induct)
  case (install s n port r draws c t)
  then show ?case
    using dial_install_effect [OF dial_inv_tunnel [OF install.prems] randomRealmID_fresh [OF install.hyps(3)] install.hyps(4)] by simp
next
  case (bind s n port r c now t)
  then have "t = snd (sendPacket now (NewBindBody r port) (ds_tunnel s))"
    by (auto simp: dial_bind_def split: prod.splits option.splits)
  then show ?case by (simp add: sendPacket_advances)
next
  case (bind_failed s n port r c now e t)
  then have "t = dial_cleanup r (snd (sendPacket now (NewBindBody r port) (ds_tunnel s)))"
    by (auto simp: dial_bind_def split: prod.splits option.splits)
  then show ?case
    using sendPacket_advances [of "ds_tunnel s" now "NewBindBody r port"]
    by (simp add: finish_dial_def dial_cleanup_def realm_delete_def connCh_delete_def advances_def)
next
  case (event s e)
  then show ?case using events.moves_on [OF dial_inv_tunnel, of s e] by simp
next
  case (conn_call c s k)
  then show ?case using calls.moves_on [OF dial_inv_tunnel, of s "(c, k)"] by simp
next
  case (conn_close c s now b t)
  then show ?case using close_mark_quiet [OF dial_inv_tunnel, of s now c b t] by simp
next
  case (conn_disc c k s now e t)
  then show ?case using sendPacket_quiet [OF conn_disc.hyps(2)] by simp
next
  case (conn_forget c s)
  then show ?case using realm_delete_advances [of "ds_tunnel s"] by simp
next
  case (close s now)
  then show ?case using close.moves_on [OF dial_inv_tunnel, of s now] by simp
next
  case (retire s)
  then show ?case using retire.moves_on [OF dial_inv_tunnel, of s] by simp
next
  case (set_on_close s)
  then show ?case using set_on_close.moves_on [OF dial_inv_tunnel, of s] by simp
qed (simp_all add: finish_dial_def dial_register_def dial_granted_def dial_cleanup_def dial_exhausted_def realm_delete_def
    connCh_delete_def advances_def)

lemma dial_run_advances: "dial_step\<^sup>*\<^sup>* s s' \<Longrightarrow> dial_reachable s \<Longrightarrow> advances (ds_tunnel s) (ds_tunnel s')"
proof (induction rule: rtranclp_induct)
  case (step u v)
  then have "advances (ds_tunnel u) (ds_tunnel v)" using dial_step_advances reachable_dial reachable_run by blast
  then show ?case using step by (blast intro: advances_trans)
qed simp

lemma retired_step:
  assumes "dial_step s s'" "dial_inv s" "tn_retired (ds_tunnel s)" "ds_pc s = DialIdle"
  shows "tn_retired (ds_tunnel s') \<and> ds_pc s' = DialIdle \<and> handed_out s' = handed_out s"
  using assms
proof (induction rule: dial_step.induct)
  case (lock_refused s port e)
  then show ?case by (simp add: finish_dial_def handed_out_def)
next
  case (event s e)
  then show ?case using events.moves_on [OF dial_inv_tunnel, of s e] by (simp add: advances_def)
next
  case (conn_call c s k)
  then show ?case using calls.moves_on [OF dial_inv_tunnel, of s "(c, k)"] by (simp add: advances_def)
next
  case (close s now)
  then show ?case using close.moves_on [OF dial_inv_tunnel, of s now] by (simp add: advances_def)
next
  case (conn_close c s now b t)
  then show ?case using close_mark_quiet [OF dial_inv_tunnel, of s now c b t] by (simp add: advances_def)
next
  case (conn_disc c k s now e t)
  then show ?case using sendPacket_quiet [OF conn_disc(2)] by (simp add: advances_def)
next
  case (conn_forget c s)
  then show ?case using realm_delete_advances [of "ds_tunnel s"] by (simp add: advances_def)
qed (simp_all add: Dial_check_def Tunnel_Retire_def Tunnel_SetOnClose_def split: if_splits)

lemma retired_run:
  assumes "dial_step\<^sup>*\<^sup>* s s'" "dial_reachable s" "tn_retired (ds_tunnel s)" "ds_pc s = DialIdle"
  shows "ds_pc s' = DialIdle \<and> handed_out s' = handed_out s"
proof -
  from assms(1) have "dial_reachable s' \<and> tn_retired (ds_tunnel s') \<and> ds_pc s' = DialIdle \<and> handed_out s' = handed_out s"
  proof (induction rule: rtranclp_induct)
    case base
    then show ?case using assms by simp
  next
    case (step u v)
    then show ?case
      using retired_step [of u v] reachable_dial [of u] dial_reachable.step [of u v] by auto
  qed
  then show ?thesis by simp
qed

lemma dial_step_attempt: "dial_step s s' \<Longrightarrow> attempt_ok (ds_pc s) \<Longrightarrow> attempt_ok (ds_pc s')"
  by (induction rule: dial_step.induct) (auto simp: finish_dial_def maxRetries_def)

lemma reachable_attempt: "dial_reachable s \<Longrightarrow> attempt_ok (ds_pc s)"
  by (induction rule: dial_reachable.induct) (auto dest: dial_step_attempt)

lemma dial_step_rank:
  "dial_step s s' \<Longrightarrow> attempt_ok (ds_pc s) \<Longrightarrow> ds_pc s \<noteq> DialIdle \<Longrightarrow> ds_pc s' = ds_pc s \<or> dial_rank (ds_pc s') < dial_rank (ds_pc s)"
  by (induction rule: dial_step.induct) (auto simp: finish_dial_def maxRetries_def)

lemma randomRealmID_draws: "x \<in> set draws \<Longrightarrow> realm_lookup t x = None \<Longrightarrow> \<exists>r rest. randomRealmID draws t = Some (r, rest)"
  by (induction draws) auto

lemma sendPacket_ok:
  assumes "k_open (u_conn (tn_client t))" "k_wfaults (u_conn (tn_client t)) = []" "u_raddr (tn_client t) = Some a"
  shows "fst (sendPacket now b t) = None"
    "k_out (u_conn (tn_client (snd (sendPacket now b t)))) =
       k_out (u_conn (tn_client t)) @ [(Packet_Serialize (fst (Session_Send (tn_session t) b)), a)]"
  using assms by (simp_all add: sendPacket_eq UDP_Send_def WriteToUDP_def)

lemma connect_event:
  assumes "tunnel_inv t" "p_Body q = NewStatusBody r StatusConnect" "map_of (tn_connCh t) r = Some c"
  shows "tn_grants (handle_event (Inbound now (Inr (Packet_Serialize q))) t) c = Suc (tn_grants t c)"
    "tn_realms (handle_event (Inbound now (Inr (Packet_Serialize q))) t) = tn_realms t"
    "tn_client (handle_event (Inbound now (Inr (Packet_Serialize q))) t) = tn_client t"
    "tn_conns (handle_event (Inbound now (Inr (Packet_Serialize q))) t) = tn_conns t"
    "Dial_check (handle_event (Inbound now (Inr (Packet_Serialize q))) t) = Dial_check t"
proof -
  have "wf_body (p_Body q)" using assms(2) by (simp add: StatusConnect_def)
  then have parse: "ParsePacket (Packet_Serialize q) = Inr q" by (rule ptcp.parse_ser)
  have b: "b_Type (p_Body q) = BodyTypeStatus" "b_Realm (p_Body q) = r" "b_Status (p_Body q) = StatusConnect"
    by (simp_all add: assms(2) NewStatusBody_def zero_Body_def)
  show "tn_grants (handle_event (Inbound now (Inr (Packet_Serialize q))) t) c = Suc (tn_grants t c)"
    "tn_realms (handle_event (Inbound now (Inr (Packet_Serialize q))) t) = tn_realms t"
    "tn_client (handle_event (Inbound now (Inr (Packet_Serialize q))) t) = tn_client t"
    "tn_conns (handle_event (Inbound now (Inr (Packet_Serialize q))) t) = tn_conns t"
    "Dial_check (handle_event (Inbound now (Inr (Packet_Serialize q))) t) = Dial_check t"
    using assms(3) by (simp_all add: reader_handle_def parse Let_def reader_packet_def b reader_connect_def
        ackHeartbeat_def scheduleACK_def connCh_delete_def Dial_check_def)
qed

lemma disconnect_event:
  fixes now :: int
  assumes "tunnel_inv t" "p_Body q = NewStatusBody r StatusDisconnect"
  defines "t' \<equiv> handle_event (Inbound now (Inr (Packet_Serialize q))) t"
  shows "realm_lookup t' r = None" "tn_client t' = tn_client t" "Dial_check t' = Dial_check t"
proof -
  have "wf_body (p_Body q)" using assms(2) by (simp add: StatusDisconnect_def)
  then have parse: "ParsePacket (Packet_Serialize q) = Inr q" by (rule ptcp.parse_ser)
  have b: "b_Type (p_Body q) = BodyTypeStatus" "b_Realm (p_Body q) = r" "b_Status (p_Body q) = StatusDisconnect" "StatusDisconnect \<noteq> StatusConnect"
    by (simp_all add: assms(2) NewStatusBody_def zero_Body_def StatusConnect_def StatusDisconnect_def)
  define u where "u = (ackHeartbeat now (t\<lparr>tn_consecutiveReadErrs := 0\<rparr>))
    \<lparr>tn_session := snd (Session_Recv (tn_session (ackHeartbeat now (t\<lparr>tn_consecutiveReadErrs := 0\<rparr>))) q)\<rparr>"
  have u: "tunnel_inv u" "tn_client u = tn_client t" "tn_closed u = tn_closed t" "tn_retired u = tn_retired t"
    unfolding u_def using reading_inv [OF assms(1)] by (simp_all add: ackHeartbeat_def)
  have t': "t' = scheduleACK (reader_disconnect now r u)"
    by (simp add: t'_def reader_handle_def parse Let_def reader_packet_def b u_def)
  have "tn_activeWriter (realm_delete r u) = None" using tunnel_invD(5) [OF realm_delete_inv [OF u(1)]] .
  then have eq: "reader_disconnect now r u = (case realm_lookup u r of None \<Rightarrow> u | Some c \<Rightarrow> close_conns {c} (realm_delete r u))"
    by (simp add: reader_disconnect_def signalClosed_eq split: option.split)
  have "realm_lookup (realm_delete r u) r = None" by (simp add: realm_lookup_def realm_delete_def AList.delete_conv split: option.splits)
  then show "realm_lookup t' r = None" "tn_client t' = tn_client t" "Dial_check t' = Dial_check t"
    using u by (auto simp: t' eq scheduleACK_def realm_lookup_def Dial_check_def realm_delete_def split: option.splits)
qed

text \<open>A dial that is left alone: up to the point where it waits, and to its end.\<close>

lemma dial_wait_run:
  assumes "dial_reachable s" "ds_pc s = DialIdle" "port \<in> set (ds_queue s)" "Dial_check (ds_tunnel s) = None"
    "randomRealmID (ds_draws s) (ds_tunnel s) = Some (r, rest)"
    "k_wfaults (u_conn (tn_client (ds_tunnel s))) = []" "u_raddr (tn_client (ds_tunnel s)) = Some a"
  shows "\<exists>c t. dial_step\<^sup>*\<^sup>* s (s\<lparr>ds_queue := remove1 port (ds_queue s), ds_draws := rest, ds_tunnel := t, ds_pc := DialWaiting 0 port r c\<rparr>) \<and>
    tunnel_inv t \<and> map_of (tn_connCh t) r = Some c \<and> realm_lookup t r = Some c \<and> Dial_check t = None \<and>
    k_wfaults (u_conn (tn_client t)) = [] \<and> u_raddr (tn_client t) = Some a \<and> \<not> c_closed (tn_conns t c) \<and>
    k_out (u_conn (tn_client t)) = k_out (u_conn (tn_client (ds_tunnel s))) @
      [(Packet_Serialize (fst (Session_Send (tn_session (ds_tunnel s)) (NewBindBody r port))), a)]"
proof -
  let ?t = "ds_tunnel s"
  have t: "tunnel_inv ?t" "tn_connCh ?t = []"
    using reachable_dial [OF assms(1)] assms(2) by (auto simp: dial_inv_def Let_def)
  have op: "\<not> tn_closed ?t" "k_open (u_conn (tn_client ?t))"
    using assms(4) t(1) by (auto simp: Dial_check_def tunnel_inv_def life_inv_def split: if_splits)
  obtain m where m: "tn_realms ?t = Some m" using t(1) op by (auto simp: tunnel_inv_def life_inv_def)
  then obtain c t1 where ins: "dial_install r port ?t = Inr (c, t1)" by (simp add: dial_install_def Let_def)
  note eff = dial_install_effect [OF t(1) randomRealmID_fresh [OF assms(5)] ins]
  define t2 where "t2 = dial_register r c t1"
  define t3 where "t3 = snd (sendPacket 0 (NewBindBody r port) t2)"
  have cl: "tn_client t1 = tn_client ?t" "tn_session t1 = tn_session ?t" "Dial_check t1 = None"
    using ins m assms(4) by (auto simp: dial_install_def Let_def Dial_check_def split: if_splits)
  have t2: "tunnel_inv t2" unfolding t2_def
    using eff t by (intro dial_register_inv) (auto simp: new_Conn_def tunnel_inv_def table_inv_def)
  have t3: "tunnel_inv t3" unfolding t3_def using t2 by (rule sendPacket_inv)
  have bind: "dial_bind 0 r port t2 = (None, t3)"
    "k_out (u_conn (tn_client t3)) = k_out (u_conn (tn_client ?t)) @
      [(Packet_Serialize (fst (Session_Send (tn_session ?t) (NewBindBody r port))), a)]"
    using sendPacket_ok [of t2 a 0 "NewBindBody r port"] op assms(6,7) cl
    by (auto simp: dial_bind_def t3_def t2_def dial_register_def split: prod.splits)
  have "realm_lookup t1 r = Some c" using eff(1,5) by (simp add: realm_lookup_iff)
  moreover have "map_of (tn_connCh t3) r = Some c" using eff(6) t(2) by (simp add: t3_def t2_def dial_register_def)
  moreover have "Dial_check t3 = None" "k_wfaults (u_conn (tn_client t3)) = []" "u_raddr (tn_client t3) = Some a"
    "\<not> c_closed (tn_conns t3 c)"
    using assms(6,7) op(2) cl eff(4)
    by (auto simp: t3_def t2_def dial_register_def sendPacket_eq UDP_Send_def WriteToUDP_def new_Conn_def zero_Conn_def
        Dial_check_def split: if_splits)
  ultimately have fin: "tunnel_inv t3 \<and> map_of (tn_connCh t3) r = Some c \<and> realm_lookup t3 r = Some c \<and> Dial_check t3 = None \<and>
    k_wfaults (u_conn (tn_client t3)) = [] \<and> u_raddr (tn_client t3) = Some a \<and> \<not> c_closed (tn_conns t3 c)"
    using t3 by (simp add: realm_lookup_def t3_def t2_def dial_register_def)
  let ?s1 = "s\<lparr>ds_queue := remove1 port (ds_queue s), ds_pc := DialAttempt 0 port\<rparr>"
  let ?s2 = "?s1\<lparr>ds_tunnel := t1, ds_draws := rest, ds_pc := DialInstalled 0 port r c\<rparr>"
  let ?s3 = "?s2\<lparr>ds_tunnel := t2, ds_pc := DialRegistered 0 port r c\<rparr>"
  let ?s4 = "?s3\<lparr>ds_tunnel := t3, ds_pc := DialWaiting 0 port r c\<rparr>"
  have "dial_step s ?s1" using dial_step.lock [OF assms(2,3,4)] .
  moreover have "dial_step ?s1 ?s2"
    using dial_step.install [of ?s1 0 port r rest c t1] assms(5) ins by (simp add: maxRetries_def)
  moreover have "dial_step ?s2 ?s3" using dial_step.register [of ?s2 0 port r c] by (simp add: t2_def)
  moreover have "dial_step ?s3 ?s4" using dial_step.bind [of ?s3 0 port r c 0 t3] bind(1) by simp
  ultimately have "dial_step\<^sup>*\<^sup>* s ?s4" by (meson converse_rtranclp_into_rtranclp rtranclp.rtrancl_refl)
  then show ?thesis using bind(2) fin by (intro exI [of _ c] exI [of _ t3]) simp
qed

lemma dial_run:
  fixes q :: Packet
  assumes "dial_reachable s" "ds_pc s = DialIdle" "port \<in> set (ds_queue s)" "Dial_check (ds_tunnel s) = None"
    "randomRealmID (ds_draws s) (ds_tunnel s) = Some (r, rest)"
    "k_wfaults (u_conn (tn_client (ds_tunnel s))) = []" "u_raddr (tn_client (ds_tunnel s)) = Some a"
    "p_Body q = NewStatusBody r StatusConnect"
  shows "\<exists>s' c. dial_step\<^sup>*\<^sup>* s s' \<and> ds_pc s' = DialIdle \<and> ds_results s' = ds_results s @ [Inr c] \<and>
    realm_lookup (ds_tunnel s') r = Some c \<and> ds_queue s' = remove1 port (ds_queue s) \<and> ds_draws s' = rest \<and>
    ds_closing s' = ds_closing s \<and> Dial_check (ds_tunnel s') = None \<and> k_wfaults (u_conn (tn_client (ds_tunnel s'))) = [] \<and>
    u_raddr (tn_client (ds_tunnel s')) = Some a \<and> \<not> c_closed (tn_conns (ds_tunnel s') c)"
proof -
  obtain c t where w: "dial_step\<^sup>*\<^sup>* s (s\<lparr>ds_queue := remove1 port (ds_queue s), ds_draws := rest, ds_tunnel := t, ds_pc := DialWaiting 0 port r c\<rparr>)"
    "tunnel_inv t" "map_of (tn_connCh t) r = Some c" "realm_lookup t r = Some c" "Dial_check t = None"
    "k_wfaults (u_conn (tn_client t)) = []" "u_raddr (tn_client t) = Some a" "\<not> c_closed (tn_conns t c)"
    using dial_wait_run [OF assms(1-7)] by blast
  let ?s4 = "s\<lparr>ds_queue := remove1 port (ds_queue s), ds_draws := rest, ds_tunnel := t, ds_pc := DialWaiting 0 port r c\<rparr>"
  define t4 where "t4 = handle_event (Inbound 0 (Inr (Packet_Serialize q))) t"
  note con = connect_event [OF w(2) assms(8) w(3), of 0, folded t4_def]
  let ?s5 = "?s4\<lparr>ds_tunnel := t4, ds_trace := ds_trace s @ [Inbound 0 (Inr (Packet_Serialize q))]\<rparr>"
  let ?s6 = "finish_dial (Inr c) (dial_granted c t4) ?s5"
  have "dial_step ?s4 ?s5" using dial_step.event [of ?s4 "Inbound 0 (Inr (Packet_Serialize q))"] by (simp add: t4_def)
  moreover have "dial_step ?s5 ?s6" using dial_step.granted [of ?s5 0 port r c] con(1) by simp
  ultimately have "dial_step\<^sup>*\<^sup>* s ?s6" using w(1) by (meson rtranclp.rtrancl_into_rtrancl)
  moreover have "realm_lookup (dial_granted c t4) r = Some c" "Dial_check (dial_granted c t4) = None"
    "tn_client (dial_granted c t4) = tn_client t" "tn_conns (dial_granted c t4) = tn_conns t"
    using w(4) con(2-4) con(5) [unfolded w(5)] by (simp_all add: dial_granted_def realm_lookup_def Dial_check_None)
  ultimately show ?thesis using w(6-8) by (intro exI [of _ ?s6] exI [of _ c]) (simp add: finish_dial_def)
qed

section \<open>Closing a connection, undisturbed and not\<close>

text \<open>When nothing else runs in between, the steps of a \<open>Close\<close> make up \<open>Conn_Close\<close>.\<close>

lemma closing_discs:
  "dial_step\<^sup>*\<^sup>* (s\<lparr>ds_tunnel := t, ds_closing := (c, Some k) # cl\<rparr>)
     (s\<lparr>ds_tunnel := send_discs now c k t, ds_closing := (c, Some 0) # cl\<rparr>)"
proof (induction k arbitrary: t)
  case (Suc k)
  let ?s = "\<lambda>t k. s\<lparr>ds_tunnel := t, ds_closing := (c, Some k) # cl\<rparr>"
  obtain e u where sp: "sendPacket now (NewStatusBody (c_realmID (tn_conns t c)) StatusDisconnect) t = (e, u)" by fastforce
  have "dial_step (?s t (Suc k)) (?s u (if e = None then k else 0))"
    using dial_step.conn_disc [of c k "?s t (Suc k)" now e u] sp by (simp add: next_closing_def)
  then show ?case using Suc [of u] sp by (cases e) (auto intro: converse_rtranclp_into_rtranclp)
qed simp

lemma close_undisturbed:
  assumes "tunnel_inv (ds_tunnel s)" "c \<in> handed_out s"
  shows "dial_step\<^sup>*\<^sup>* s (s\<lparr>ds_tunnel := Conn_Close now c (ds_tunnel s)\<rparr>)"
proof -
  obtain b t where m: "close_mark now c (ds_tunnel s) = (b, t)" by fastforce
  note st = dial_step.conn_close [OF assms(2) m]
  show ?thesis
  proof (cases b)
    case True
    then show ?thesis using st m by (auto simp: Conn_Close_def)
  next
    case False
    let ?k = "if Tunnel_IsClosed t then 0 else discRetries"
    let ?s = "\<lambda>t k. s\<lparr>ds_tunnel := t, ds_closing := (c, k) # ds_closing s\<rparr>"
    let ?u = "send_discs now c ?k t"
    have fr: "tn_conns ?u = tn_conns t" using send_discs_frame [of now c ?k t] by simp
    have "dial_step\<^sup>*\<^sup>* s (?s t None)" using st False by (intro r_into_rtranclp) simp
    also have "dial_step (?s t None) (?s t (Some ?k))"
      using dial_step.conn_check [of c "?s t None"] by (simp add: next_closing_def)
    also have "dial_step\<^sup>*\<^sup>* \<dots> (?s ?u (Some 0))" by (rule closing_discs)
    also have "dial_step \<dots> (s\<lparr>ds_tunnel := realm_delete (c_realmID (tn_conns ?u c)) ?u\<rparr>)"
      using dial_step.conn_forget [of c "?s ?u (Some 0)"] by simp
    finally show ?thesis using m False by (auto simp: Conn_Close_def Let_def)
  qed
qed


text \<open>A dial about to start, for the examples below.\<close>

lemma dial_example:
  obtains s where "dial_reachable s" "ds_pc s = DialIdle" "port \<in> set (ds_queue s)" "Dial_check (ds_tunnel s) = None"
    "randomRealmID (ds_draws s) (ds_tunnel s) = Some (5, [])"
    "k_wfaults (u_conn (tn_client (ds_tunnel s))) = []" "u_raddr (tn_client (ds_tunnel s)) = Some sample_peer"
proof -
  let ?s = "\<lparr>ds_tunnel = Tunnel_New sample_client NewSession 554, ds_queue = [], ds_pc = DialIdle,
      ds_draws = [5], ds_results = [], ds_trace = [], ds_closing = []\<rparr>"
  have "dial_reachable ?s" by (rule dial_reachable.init) (simp add: sample_client_def)
  moreover have "dial_step ?s (?s\<lparr>ds_queue := [port]\<rparr>)"
    using dial_step.call_queued [of ?s port] by (simp add: Dial_check_def Tunnel_New_def)
  ultimately have "dial_reachable (?s\<lparr>ds_queue := [port]\<rparr>)" by (rule dial_reachable.step)
  then show ?thesis by (rule that) (simp_all add: Dial_check_def Tunnel_New_def realm_lookup_def sample_client_def)
qed

lemma dial_example_done:
  obtains s c where "dial_reachable s" "ds_pc s = DialIdle" "ds_results s = [Inr c]"
proof -
  let ?s = "\<lparr>ds_tunnel = Tunnel_New sample_client NewSession 554, ds_queue = [554], ds_pc = DialIdle,
      ds_draws = [5], ds_results = [], ds_trace = [], ds_closing = []\<rparr>"
  let ?q = "NewPacket \<lparr>h_Sent = 0, h_Recv = 0, h_PID = 0, h_LMID = 0, h_RMID = 0\<rparr> (NewStatusBody 5 StatusConnect)"
  have "dial_reachable (?s\<lparr>ds_queue := []\<rparr>)"
    using dial_reachable.init [of sample_client] by (simp add: sample_client_def)
  moreover have "dial_step (?s\<lparr>ds_queue := []\<rparr>) ?s"
    using dial_step.call_queued [of "?s\<lparr>ds_queue := []\<rparr>" 554] by (simp add: Dial_check_def Tunnel_New_def)
  ultimately have r: "dial_reachable ?s" by (rule dial_reachable.step)
  have "\<exists>s' c. dial_step\<^sup>*\<^sup>* ?s s' \<and> ds_pc s' = DialIdle \<and> ds_results s' = ds_results ?s @ [Inr c]"
    using dial_run [OF r, of 554 5 "[]" sample_peer ?q]
    by (simp add: Dial_check_def Tunnel_New_def realm_lookup_def sample_client_def NewPacket_def) blast
  then obtain s' c where s': "dial_step\<^sup>*\<^sup>* ?s s'" "ds_pc s' = DialIdle" "ds_results s' = [Inr c]" by auto
  from reachable_run [OF s'(1) r] s' show ?thesis using that by blast
qed

text \<open>A grant, once it has arrived, stays with the waiting dial.\<close>

lemma step_connCh:
  assumes "dial_step s s'" "dial_inv s" "ds_pc s' = ds_pc s" "ds_pc s = DialWaiting n port r c"
  shows "set (tn_connCh (ds_tunnel s')) \<subseteq> set (tn_connCh (ds_tunnel s))"
  using assms(1)
proof cases
  case (event e)
  then show ?thesis using handle_event_undisturbed [OF dial_inv_tunnel [OF assms(2)], of e] by (simp add: undisturbed_def)
next
  case (conn_call c k)
  then show ?thesis using quiet_call [OF dial_inv_tunnel [OF assms(2)], of c k] by (simp add: quiet_def)
next
  case (conn_close c now b t)
  then show ?thesis using close_mark_quiet [OF dial_inv_tunnel [OF assms(2)], of now c b t] by (simp add: quiet_def)
next
  case (conn_disc c k now e t)
  then show ?thesis using sendPacket_quiet by (fastforce simp: quiet_def)
next
  case (conn_forget c)
  then show ?thesis using quiet_realm_delete [of "ds_tunnel s"] by (simp add: quiet_def)
next
  case (close now)
  then show ?thesis using quiet_close [OF tunnel_invD(5) [OF dial_inv_tunnel [OF assms(2)]], of now] by (simp add: quiet_def)
qed (use assms(3,4) in \<open>simp_all add: finish_dial_def Tunnel_Retire_def Tunnel_SetOnClose_def\<close>)

lemma connect_clears:
  assumes "tunnel_inv t" "p_Body q = NewStatusBody r StatusConnect"
  shows "(r, c) \<notin> set (tn_connCh (handle_event (Inbound now (Inr (Packet_Serialize q))) t))"
proof -
  have "wf_body (p_Body q)" using assms(2) by (simp add: StatusConnect_def)
  then have parse: "ParsePacket (Packet_Serialize q) = Inr q" by (rule ptcp.parse_ser)
  have b: "b_Type (p_Body q) = BodyTypeStatus" "b_Realm (p_Body q) = r" "b_Status (p_Body q) = StatusConnect"
    by (simp_all add: assms(2) NewStatusBody_def zero_Body_def)
  show ?thesis
    by (auto simp: reader_handle_def parse Let_def reader_packet_def b reader_connect_def ackHeartbeat_def scheduleACK_def
        connCh_delete_def mem_delete map_of_eq_None_iff split: option.splits intro: rev_image_eqI)
qed

lemma granted_run:
  assumes "dial_reachable s" "ds_pc s = DialWaiting n port r c" "p_Body q = NewStatusBody r StatusConnect"
    and e: "e = Inbound now (Inr (Packet_Serialize q))"
    and "(\<lambda>x y. dial_step x y \<and> ds_pc y = ds_pc x)\<^sup>*\<^sup>*
      (s\<lparr>ds_tunnel := handle_event e (ds_tunnel s), ds_trace := ds_trace s @ [e]\<rparr>) s'"
  shows "ds_pc s' = DialWaiting n port r c \<and> 0 < tn_grants (ds_tunnel s') c \<and> c \<notin> handed_out s'"
proof -
  let ?s = "s\<lparr>ds_tunnel := handle_event e (ds_tunnel s), ds_trace := ds_trace s @ [e]\<rparr>"
  from assms(5) have *: "dial_reachable s' \<and> ds_pc s' = DialWaiting n port r c \<and> (r, c) \<notin> set (tn_connCh (ds_tunnel s'))"
  proof (induction rule: rtranclp_induct)
    case base
    have "dial_inv s" using reachable_dial [OF assms(1)] by simp
    then have "(r, c) \<notin> set (tn_connCh (ds_tunnel ?s))"
      using connect_clears [OF dial_inv_tunnel assms(3), of s c now] by (simp add: e)
    then show ?case using assms(1,2) dial_reachable.step [OF assms(1) dial_step.event, of e] by simp
  next
    case (step u v)
    then show ?case using step_connCh [of u v n port r c] reachable_dial [of u] dial_reachable.step [of u v] by auto
  qed
  then have "dial_inv s'" using reachable_dial by blast
  with * show ?thesis by (auto simp: dial_inv_def Let_def)
qed

lemma dial_example_waiting:
  obtains s c where "dial_reachable s" "ds_pc s = DialWaiting 0 554 5 c"
proof -
  obtain s where s: "dial_reachable s" "ds_pc s = DialIdle" "554 \<in> set (ds_queue s)" "Dial_check (ds_tunnel s) = None"
    "randomRealmID (ds_draws s) (ds_tunnel s) = Some (5, [])"
    "k_wfaults (u_conn (tn_client (ds_tunnel s))) = []" "u_raddr (tn_client (ds_tunnel s)) = Some sample_peer"
    by (rule dial_example)
  obtain c t where w: "dial_step\<^sup>*\<^sup>* s (s\<lparr>ds_queue := remove1 554 (ds_queue s), ds_draws := [], ds_tunnel := t, ds_pc := DialWaiting 0 554 5 c\<rparr>)"
    using dial_wait_run [OF s] by blast
  from reachable_run [OF this s(1)] show ?thesis by (rule that) simp
qed

text \<open>
  One connection is being closed when the device ends its realm; the next dial draws the realm ID
  again and is granted it; then the first \<open>Close\<close> goes on.
\<close>

lemma stranded:
  "\<exists>s c. dial_reachable s \<and> c \<in> handed_out s \<and> \<not> c_closed (tn_conns (ds_tunnel s) c) \<and> \<not> tn_closed (ds_tunnel s) \<and>
     realm_lookup (ds_tunnel s) (c_realmID (tn_conns (ds_tunnel s) c)) = None"
proof -
  let ?s = "\<lparr>ds_tunnel = Tunnel_New sample_client NewSession 554, ds_queue = [554, 554], ds_pc = DialIdle,
      ds_draws = [5, 5], ds_results = [], ds_trace = [], ds_closing = []\<rparr>"
  let ?h = "\<lparr>h_Sent = 0, h_Recv = 0, h_PID = 0, h_LMID = 0, h_RMID = 0\<rparr> :: Header"
  have q: "p_Body (NewPacket ?h b) = b" for b by (simp add: NewPacket_def)
  have r0: "dial_reachable (?s\<lparr>ds_queue := []\<rparr>)"
    using dial_reachable.init [of sample_client] by (simp add: sample_client_def)
  have st: "dial_step (?s\<lparr>ds_queue := []\<rparr>) (?s\<lparr>ds_queue := [554]\<rparr>)" "dial_step (?s\<lparr>ds_queue := [554]\<rparr>) ?s"
    using dial_step.call_queued [of "?s\<lparr>ds_queue := []\<rparr>" 554] dial_step.call_queued [of "?s\<lparr>ds_queue := [554]\<rparr>" 554]
    by (simp_all add: Dial_check_def Tunnel_New_def)
  have r: "dial_reachable ?s" using dial_reachable.step [OF dial_reachable.step [OF r0 st(1)] st(2)] .
  obtain s1 c0 where s1: "dial_step\<^sup>*\<^sup>* ?s s1" "ds_pc s1 = DialIdle" "ds_results s1 = [Inr c0]" "realm_lookup (ds_tunnel s1) 5 = Some c0"
    "ds_queue s1 = [554]" "ds_draws s1 = [5]" "ds_closing s1 = []" "Dial_check (ds_tunnel s1) = None"
    "k_wfaults (u_conn (tn_client (ds_tunnel s1))) = []" "u_raddr (tn_client (ds_tunnel s1)) = Some sample_peer" "\<not> c_closed (tn_conns (ds_tunnel s1) c0)"
    using dial_run [OF r, of 554 5 "[5]" sample_peer "NewPacket ?h (NewStatusBody 5 StatusConnect)"]
    by (simp add: q Dial_check_def Tunnel_New_def realm_lookup_def sample_client_def) blast
  have reach1: "dial_reachable s1" using s1(1) r by (rule reachable_run)
  have i1: "tunnel_inv (ds_tunnel s1)" using reachable_dial [OF reach1] dial_inv_tunnel by blast
  define s2 where "s2 = s1\<lparr>ds_tunnel := close_conns {c0} (ds_tunnel s1), ds_closing := [(c0, None)]\<rparr>"
  have st2: "dial_step s1 s2"
    using dial_step.conn_close [of c0 s1 0 False "close_conns {c0} (ds_tunnel s1)"] s1(3,7,11)
    by (simp add: s2_def close_mark_eq [OF i1] handed_out_def)
  define e where "e = Inbound 0 (Inr (Packet_Serialize (NewPacket ?h (NewStatusBody 5 StatusDisconnect))))"
  define s3 where "s3 = s2\<lparr>ds_tunnel := handle_event e (ds_tunnel s2), ds_trace := ds_trace s2 @ [e]\<rparr>"
  have reach3: "dial_reachable s3"
    using dial_reachable.step [OF dial_reachable.step [OF reach1 st2] dial_step.event, of e] by (simp add: s3_def)
  have i2: "tunnel_inv (ds_tunnel s2)" using i1 by (simp add: s2_def close_conns_inv)
  note ev = disconnect_event [OF i2 q [of "NewStatusBody 5 StatusDisconnect"], of 0, folded e_def]
  have s3: "ds_pc s3 = DialIdle" "554 \<in> set (ds_queue s3)" "ds_results s3 = [Inr c0]" "ds_closing s3 = [(c0, None)]"
    "Dial_check (ds_tunnel s3) = None" "randomRealmID (ds_draws s3) (ds_tunnel s3) = Some (5, [])"
    "k_wfaults (u_conn (tn_client (ds_tunnel s3))) = []" "u_raddr (tn_client (ds_tunnel s3)) = Some sample_peer"
    using s1 ev Dial_check_None [of "ds_tunnel s1"] by (simp_all add: s3_def) (simp_all add: s2_def Dial_check_None)
  obtain s4 c where s4: "dial_step\<^sup>*\<^sup>* s3 s4" "ds_results s4 = [Inr c0, Inr c]" "realm_lookup (ds_tunnel s4) 5 = Some c"
    "ds_closing s4 = [(c0, None)]" "Dial_check (ds_tunnel s4) = None" "\<not> c_closed (tn_conns (ds_tunnel s4) c)"
    using dial_run [OF reach3 s3(1,2,5-8) q [of "NewStatusBody 5 StatusConnect"]] s3(3,4) by auto
  have reach4: "dial_reachable s4" using s4(1) reach3 by (rule reachable_run)
  have i4: "tunnel_inv (ds_tunnel s4)" using reachable_dial [OF reach4] dial_inv_tunnel by blast
  define t5 where "t5 = send_discs 0 c0 3 (ds_tunnel s4)"
  have fr: "tn_conns t5 = tn_conns (ds_tunnel s4)" "tn_closed t5 = tn_closed (ds_tunnel s4)"
    using send_discs_frame [of 0 c0 3 "ds_tunnel s4"] by (simp_all add: t5_def)
  let ?s6 = "s4\<lparr>ds_tunnel := realm_delete (c_realmID (tn_conns t5 c0)) t5, ds_closing := []\<rparr>"
  have op: "\<not> tn_closed (ds_tunnel s4)" using s4(5) by (simp add: Dial_check_def split: if_splits)
  have "dial_step s4 (s4\<lparr>ds_tunnel := ds_tunnel s4, ds_closing := [(c0, Some 3)]\<rparr>)"
    using dial_step.conn_check [of c0 s4] s4(4) op by (simp add: next_closing_def Tunnel_IsClosed_def discRetries_def)
  moreover have "dial_step\<^sup>*\<^sup>* (s4\<lparr>ds_tunnel := ds_tunnel s4, ds_closing := [(c0, Some 3)]\<rparr>) (s4\<lparr>ds_tunnel := t5, ds_closing := [(c0, Some 0)]\<rparr>)"
    using closing_discs [where s = s4 and t = "ds_tunnel s4" and c = c0 and k = 3 and cl = "[]" and now = 0] by (simp add: t5_def)
  moreover have "dial_step (s4\<lparr>ds_tunnel := t5, ds_closing := [(c0, Some 0)]\<rparr>) ?s6"
    using dial_step.conn_forget [of c0 "s4\<lparr>ds_tunnel := t5, ds_closing := [(c0, Some 0)]\<rparr>"] by simp
  ultimately have "dial_step\<^sup>*\<^sup>* s4 ?s6" by (meson converse_rtranclp_into_rtranclp rtranclp.rtrancl_into_rtrancl)
  then have reach6: "dial_reachable ?s6" using reach4 by (rule reachable_run)
  have "c_realmID (tn_conns (ds_tunnel s1) c0) = 5" "c0 < tn_next (ds_tunnel s1)"
    using live_lookup [OF i1 s1(4)] tunnel_invD(2) [OF i1] by (auto simp: live_def table_inv_def)
  moreover have "advances (ds_tunnel s1) (ds_tunnel s4)"
    using dial_run_advances [OF converse_rtranclp_into_rtranclp [OF st2 converse_rtranclp_into_rtranclp [of dial_step, OF _ s4(1)]] reach1]
      dial_step.event [of s2 e] by (simp add: s3_def)
  ultimately have id: "c_realmID (tn_conns (ds_tunnel s4) c0) = 5" using advancesD(5) by metis
  have "c_realmID (tn_conns (ds_tunnel s4) c) = 5" using live_lookup [OF i4 s4(3)] by simp
  moreover have "realm_lookup (realm_delete 5 t5) 5 = None"
    by (simp add: realm_lookup_def realm_delete_def AList.delete_conv split: option.splits)
  ultimately show ?thesis
    using reach6 s4(2,6) op fr id by (intro exI [of _ ?s6] exI [of _ c]) (simp add: handed_out_def realm_delete_def)
qed

section \<open>Properties\<close>

text \<open>
  (C3) A connection is handed out only if the device granted its realm, by a connect status for its
  realm ID that the reader received; and from then on, whatever runs beside it, \<open>Close\<close> calls on other
  connections in every stage included, the realm leads to that connection until the connection is
  closed, unless an earlier connection of this tunnel was given the same realm ID.
\<close>

theorem dialled_connections_granted:
  assumes "dial_reachable s" "c \<in> handed_out s"
  shows "(\<exists>e \<in> set (ds_trace s). connects (c_realmID (tn_conns (ds_tunnel s) c)) e) \<and>
    (realm_lookup (ds_tunnel s) (c_realmID (tn_conns (ds_tunnel s) c)) = Some c \<or> c_closed (tn_conns (ds_tunnel s) c) \<or>
       (\<exists>d < c. c_realmID (tn_conns (ds_tunnel s) d) = c_realmID (tn_conns (ds_tunnel s) c)))"
proof -
  have inv: "dial_inv s" "granted_inv s" using assms(1) reachable_dial by blast+
  then have "kept c (ds_tunnel s)" using assms(2) by (simp add: dial_inv_def Let_def)
  then show ?thesis
    using inv(2) assms(2) realm_lookup_live [OF dial_inv_tunnel [OF inv(1)], of c] by (auto simp: kept_def reused_def granted_inv_def)
qed

theorem dialled_connections_granted_witness:
  "\<exists>s c. dial_reachable s \<and> c \<in> handed_out s \<and>
     (\<exists>e \<in> set (ds_trace s). connects (c_realmID (tn_conns (ds_tunnel s) c)) e)"
proof -
  obtain s c where s: "dial_reachable s" "ds_pc s = DialIdle" "ds_results s = [Inr c]" by (rule dial_example_done)
  then have "c \<in> handed_out s" by (simp add: handed_out_def)
  with dialled_connections_granted [OF s(1) this] s(1) show ?thesis by blast
qed

text \<open>
  The exception is real: a \<open>Close\<close> that is still sleeping when the device frees the realm and a new dial
  draws the same ID removes the realm of the new connection. That connection is open, and so is its
  tunnel, but no payload can reach it any more.
\<close>


text \<open>
  (C6) Once the device has granted the realm a dial waits for, the dial can return its connection at any
  later moment, whatever else runs meanwhile; and the first thing it does is to return it, unless
  its timer fires first or the tunnel is closed. The connection is a new one, never handed out
  before, and the failure count is reset.
\<close>

theorem answered_dial_returns:
  assumes "dial_reachable s" "ds_pc s = DialWaiting n port r c" "p_Body q = NewStatusBody r StatusConnect"
    and "e = Inbound now (Inr (Packet_Serialize q))"
    and "(\<lambda>x y. dial_step x y \<and> ds_pc y = ds_pc x)\<^sup>*\<^sup>*
      (s\<lparr>ds_tunnel := handle_event e (ds_tunnel s), ds_trace := ds_trace s @ [e]\<rparr>) s'"
  shows "c \<notin> handed_out s' \<and>
    (\<exists>u. dial_step s' u \<and> ds_pc u = DialIdle \<and> ds_results u = ds_results s' @ [Inr c] \<and> BindFailures (ds_tunnel u) = 0) \<and>
    (\<forall>u. dial_step s' u \<longrightarrow> ds_pc u = ds_pc s' \<or>
       ds_pc u = DialIdle \<and> ds_results u = ds_results s' @ [Inr c] \<and> BindFailures (ds_tunnel u) = 0 \<or>
       ds_pc u = DialAttempt (Suc n) port \<or>
       tn_done (ds_tunnel s') \<and> ds_pc u = DialIdle \<and> ds_results u = ds_results s' @ [Inl ErrTunnelClosed])"
proof -
  have g: "ds_pc s' = DialWaiting n port r c" "0 < tn_grants (ds_tunnel s') c" "c \<notin> handed_out s'"
    using granted_run [OF assms] by blast+
  have "dial_step s' (finish_dial (Inr c) (dial_granted c (ds_tunnel s')) s')" using g(1,2) by (rule dial_step.granted)
  moreover have "ds_pc u = ds_pc s' \<or>
       ds_pc u = DialIdle \<and> ds_results u = ds_results s' @ [Inr c] \<and> BindFailures (ds_tunnel u) = 0 \<or>
       ds_pc u = DialAttempt (Suc n) port \<or>
       tn_done (ds_tunnel s') \<and> ds_pc u = DialIdle \<and> ds_results u = ds_results s' @ [Inl ErrTunnelClosed]" if "dial_step s' u" for u
    using that g(1) by cases (simp_all add: finish_dial_def BindFailures_def dial_granted_def)
  ultimately show ?thesis using g(3) by (auto simp: finish_dial_def BindFailures_def dial_granted_def)
qed

theorem answered_dial_returns_witness:
  "\<exists>s' u c. dial_reachable s' \<and> ds_pc s' = DialWaiting 0 554 5 c \<and> dial_step s' u \<and> ds_results u = ds_results s' @ [Inr c]"
proof -
  obtain s c where s: "dial_reachable s" "ds_pc s = DialWaiting 0 554 5 c" by (rule dial_example_waiting)
  define q where "q = NewPacket \<lparr>h_Sent = 0, h_Recv = 0, h_PID = 0, h_LMID = 0, h_RMID = 0\<rparr> (NewStatusBody 5 StatusConnect)"
  define e where "e = Inbound 0 (Inr (Packet_Serialize q))"
  let ?s = "s\<lparr>ds_tunnel := handle_event e (ds_tunnel s), ds_trace := ds_trace s @ [e]\<rparr>"
  have q: "p_Body q = NewStatusBody 5 StatusConnect" by (simp add: q_def NewPacket_def)
  have "dial_reachable ?s" using s(1) dial_step.event by (rule dial_reachable.step)
  moreover have "ds_pc ?s = DialWaiting 0 554 5 c" using s(2) by simp
  ultimately show ?thesis using answered_dial_returns [OF s q e_def rtranclp.rtrancl_refl] by blast
qed

text \<open>
  (C4) A dial leaves nothing behind: whenever none is running no grant channel is registered, and every
  realm in the table belongs to a connection that was handed out, so failed attempts leak neither.
\<close>

theorem dial_leaves_nothing_behind:
  assumes "dial_reachable s" "ds_pc s = DialIdle"
  shows "tn_connCh (ds_tunnel s) = [] \<and> (\<forall>r c. realm_lookup (ds_tunnel s) r = Some c \<longrightarrow> c \<in> handed_out s)"
proof -
  have inv: "dial_inv s" using assms(1) reachable_dial by blast
  have "live c (ds_tunnel s)" if "realm_lookup (ds_tunnel s) r = Some c" for r c
    using live_lookup [OF dial_inv_tunnel [OF inv] that] by simp
  then show ?thesis using inv assms(2) by (auto simp: dial_inv_def Let_def)
qed

theorem dial_leaves_nothing_behind_witness:
  "\<exists>s c. dial_reachable s \<and> ds_results s = [Inr c] \<and> tn_connCh (ds_tunnel s) = []"
proof -
  obtain s c where s: "dial_reachable s" "ds_pc s = DialIdle" "ds_results s = [Inr c]" by (rule dial_example_done)
  with dial_leaves_nothing_behind [OF s(1,2)] show ?thesis by blast
qed

text \<open>
  (C5) A dial ends: at most thirteen of its own steps remain at any time, no step of anything else adds
  to them, and as long as the random source yields a free realm ID one of its own steps is
  possible.
\<close>

theorem dial_terminates:
  assumes "dial_reachable s" "ds_pc s \<noteq> DialIdle" "x \<in> set (ds_draws s)" "realm_lookup (ds_tunnel s) x = None"
  shows "(\<exists>s'. dial_step s s' \<and> dial_rank (ds_pc s') < dial_rank (ds_pc s)) \<and>
    (\<forall>s'. dial_step s s' \<longrightarrow> ds_pc s' = ds_pc s \<or> dial_rank (ds_pc s') < dial_rank (ds_pc s)) \<and>
    dial_rank (ds_pc s) \<le> 13"
proof -
  have at: "attempt_ok (ds_pc s)" using assms(1) by (rule reachable_attempt)
  have "\<exists>s'. dial_step s s' \<and> ds_pc s' \<noteq> ds_pc s"
  proof (cases "ds_pc s")
    case (DialAttempt n port)
    obtain r rest where r: "randomRealmID (ds_draws s) (ds_tunnel s) = Some (r, rest)"
      using randomRealmID_draws [OF assms(3,4)] by blast
    show ?thesis
    proof (cases "n < maxRetries")
      case True
      then show ?thesis
        using dial_step.install [OF DialAttempt True r] dial_step.install_refused [OF DialAttempt True r] DialAttempt
        by (cases "dial_install r port (ds_tunnel s)") (fastforce simp: finish_dial_def)+
    next
      case False
      then show ?thesis using dial_step.exhausted [OF DialAttempt False] DialAttempt by (fastforce simp: finish_dial_def)
    qed
  next
    case (DialInstalled n port r c)
    then show ?thesis using dial_step.register [OF DialInstalled] by fastforce
  next
    case (DialRegistered n port r c)
    then show ?thesis
      using dial_step.bind [OF DialRegistered] dial_step.bind_failed [OF DialRegistered]
      by (cases "dial_bind 0 r port (ds_tunnel s)"; cases "fst (dial_bind 0 r port (ds_tunnel s))") (fastforce simp: finish_dial_def)+
  next
    case (DialWaiting n port r c)
    then show ?thesis using dial_step.timeout [OF DialWaiting] by fastforce
  qed (use assms(2) in simp)
  moreover have "dial_rank (ds_pc s) \<le> 13" by (cases "ds_pc s") auto
  ultimately show ?thesis using dial_step_rank [OF _ at assms(2)] by blast
qed

theorem dial_terminates_witness:
  "\<exists>s. dial_reachable s \<and> ds_pc s = DialAttempt 0 554 \<and> (\<exists>s'. dial_step s s' \<and> dial_rank (ds_pc s') < 13)"
proof -
  let ?s = "\<lparr>ds_tunnel = Tunnel_New sample_client NewSession 554, ds_queue = [], ds_pc = DialIdle,
      ds_draws = [5], ds_results = [], ds_trace = [], ds_closing = []\<rparr>"
  have "dial_reachable ?s" by (rule dial_reachable.init) (simp add: sample_client_def)
  moreover have "dial_step ?s (?s\<lparr>ds_queue := [554]\<rparr>)" "dial_step (?s\<lparr>ds_queue := [554]\<rparr>) (?s\<lparr>ds_pc := DialAttempt 0 554\<rparr>)"
    using dial_step.call_queued [of ?s 554] dial_step.lock [of "?s\<lparr>ds_queue := [554]\<rparr>" 554]
    by (simp_all add: Dial_check_def Tunnel_New_def)
  ultimately have r: "dial_reachable (?s\<lparr>ds_pc := DialAttempt 0 554\<rparr>)"
    by (meson dial_reachable.step)
  from dial_terminates [OF r, of 5] r show ?thesis
    by (intro exI [of _ "?s\<lparr>ds_pc := DialAttempt 0 554\<rparr>"]) (simp add: realm_lookup_def Tunnel_New_def)
qed

text \<open>
  (C37) The failure count is the number of dials that exhausted their retries since the last successful
  one; dials that ended otherwise do not change it.
\<close>

theorem bind_failures_counted:
  assumes "dial_reachable s"
  shows "BindFailures (ds_tunnel s) = count_failures (ds_results s) 0"
  using reachable_dial [OF assms] by (simp add: BindFailures_def)

theorem bind_failures_counted_witness:
  "\<exists>s c. dial_reachable s \<and> ds_results s = [Inr c] \<and> BindFailures (ds_tunnel s) = 0"
proof -
  obtain s c where s: "dial_reachable s" "ds_pc s = DialIdle" "ds_results s = [Inr c]" by (rule dial_example_done)
  with bind_failures_counted [OF s(1)] show ?thesis by auto
qed

text \<open>
  (C38) A retired tunnel opens no realm: once it is retired with no dial running, no sequence of steps
  starts one or hands out a connection.
\<close>

theorem retired_tunnel_opens_nothing:
  assumes "dial_step\<^sup>*\<^sup>* s s'" "dial_reachable s" "tn_retired (ds_tunnel s)" "ds_pc s = DialIdle"
  shows "ds_pc s' = DialIdle \<and> handed_out s' = handed_out s"
  using assms by (rule retired_run)

theorem retired_tunnel_opens_nothing_witness:
  "\<exists>s s'. dial_step\<^sup>*\<^sup>* s s' \<and> s' \<noteq> s \<and> tn_retired (ds_tunnel s) \<and> handed_out s' = handed_out s"
proof -
  let ?s = "\<lparr>ds_tunnel = Tunnel_New sample_client NewSession 554, ds_queue = [], ds_pc = DialIdle,
      ds_draws = [5], ds_results = [], ds_trace = [], ds_closing = []\<rparr>"
  let ?r = "?s\<lparr>ds_tunnel := Tunnel_Retire (Tunnel_New sample_client NewSession 554)\<rparr>"
  let ?e = "?r\<lparr>ds_results := [Inl ErrTunnelRetired]\<rparr>"
  have "dial_reachable ?s" by (rule dial_reachable.init) (simp add: sample_client_def)
  then have r: "dial_reachable ?r" using dial_step.retire [of ?s] by (auto intro: dial_reachable.step)
  have "dial_step\<^sup>*\<^sup>* ?r ?e"
    using dial_step.call_refused [of ?r ErrTunnelRetired]
    by (intro r_into_rtranclp) (simp add: Dial_check_def Tunnel_New_def Tunnel_Retire_def)
  with retired_tunnel_opens_nothing [OF this r] show ?thesis
    by (intro exI [of _ ?r] exI [of _ ?e]) (simp add: Tunnel_Retire_def)
qed

end
