(* ===== verification/Dahua_Client.thy ===== *)
theory Dahua_Client
  imports Tunnel_Dial
begin

text \<open>
  The client (\<^verbatim>\<open>dahua.go\<close>, first half): a tunnel with the lock and the settling time of RTSP
  negotiations, and the policy that closes or retires a tunnel whose dials time out.
\<close>

section \<open>Configuration and state\<close>

text \<open>
  A client's tunnel is the state of its dials, as in \<open>Tunnel_Dial\<close>. The semaphore is a channel of one
  token: \<open>cl_negotiateSem\<close> says that the token is in it. The callbacks \<open>Trace\<close> and \<open>Error\<close> of the
  configuration only log.
\<close>

record Config =
  cf_Serial :: string
  cf_Username :: string
  cf_Password :: string
  cf_Timeout :: duration
  cf_P2PPort :: int
  cf_MaxRealms :: int

record Client =
  cl_tunnel :: dialer
  cl_negotiateSem :: bool
  cl_lastNegotiate :: time

datatype dahua_error =
  ErrTunnel tun_error | ErrHandshake string | ErrSessionManagerClosed | ErrFixedPortCapacity int

datatype ctx_error = Canceled | DeadlineExceeded

definition NegotiateSettle :: duration where
  "NegotiateSettle = 500 * millisecond"

definition minNegotiateSettle :: duration where
  "minNegotiateSettle = 250 * millisecond"

definition deadTunnelSilence :: duration where
  "deadTunnelSilence = 12 * second"

definition maxBindFailures :: nat where
  "maxBindFailures = 2"

definition DefaultIdleTimeout :: duration where
  "DefaultIdleTimeout = 5 * 60 * second"

definition DefaultMaxRealmsPerTunnel :: int where
  "DefaultMaxRealmsPerTunnel = 8"

section \<open>Operations\<close>

text \<open>
  Opening the tunnel is the handshake followed by \<open>Tunnel_New\<close>; here it is an argument, a function of
  the configuration it is given.
\<close>

definition ConnectWithConfig :: "(Config \<Rightarrow> dahua_error + dialer) \<Rightarrow> Config \<Rightarrow> dahua_error + Client" where
  "ConnectWithConfig new cfg =
     (let cfg = (if cf_Timeout cfg = 0 then cfg\<lparr>cf_Timeout := 10 * second\<rparr> else cfg)
      in case new cfg of
           Inl err \<Rightarrow> Inl err
         | Inr t \<Rightarrow> Inr \<lparr>cl_tunnel = t, cl_negotiateSem = False, cl_lastNegotiate = None\<rparr>)"

text \<open>
  The select statement takes either ready case: the list holds the outcomes that are possible, and
  is empty while the caller waits. The first argument is the context's error, once it is done.
\<close>

definition LockNegotiate :: "ctx_error option \<Rightarrow> Client \<Rightarrow> (ctx_error option \<times> Client) list" where
  "LockNegotiate ctx c =
     (if cl_negotiateSem c then [] else [(None, c\<lparr>cl_negotiateSem := True\<rparr>)]) @
     (case ctx of None \<Rightarrow> [] | Some err \<Rightarrow> [(Some err, c)])"

text \<open>Receiving from an empty channel waits: \<open>None\<close>.\<close>

definition UnlockNegotiate :: "Client \<Rightarrow> Client option" where
  "UnlockNegotiate c = (if cl_negotiateSem c then Some (c\<lparr>cl_negotiateSem := False\<rparr>) else None)"

text \<open>How long the caller sleeps.\<close>

definition WaitSettle :: "int \<Rightarrow> Client \<Rightarrow> duration" where
  "WaitSettle now c =
     (case cl_lastNegotiate c of
        None \<Rightarrow> 0
      | Some t0 \<Rightarrow>
          (let settle = (if Tunnel_IsResponsive now (2 * second) (ds_tunnel (cl_tunnel c))
                         then minNegotiateSettle else NegotiateSettle);
               wait = settle - (now - t0)
           in if wait > 0 then wait else 0))"

definition DoneNegotiate :: "int \<Rightarrow> Client \<Rightarrow> Client" where
  "DoneNegotiate now c = c\<lparr>cl_lastNegotiate := Some now\<rparr>"

definition map_tunnel :: "(Tunnel \<Rightarrow> Tunnel) \<Rightarrow> Client \<Rightarrow> Client" where
  "map_tunnel f c = c\<lparr>cl_tunnel := (cl_tunnel c)\<lparr>ds_tunnel := f (ds_tunnel (cl_tunnel c))\<rparr>\<rparr>"

abbreviation tunnel_of :: "Client \<Rightarrow> Tunnel" where
  "tunnel_of c \<equiv> ds_tunnel (cl_tunnel c)"

definition Client_SetOnClose :: "Client \<Rightarrow> Client" where
  "Client_SetOnClose c = map_tunnel Tunnel_SetOnClose c"

definition Client_Close :: "int \<Rightarrow> Client \<Rightarrow> Client" where
  "Client_Close now c = map_tunnel (\<lambda>t. snd (Tunnel_Close now t)) c"

definition Client_IsClosed :: "Client \<Rightarrow> bool" where
  "Client_IsClosed c = Tunnel_IsClosed (tunnel_of c)"

definition Client_IsResponsive :: "int \<Rightarrow> duration \<Rightarrow> Client \<Rightarrow> bool" where
  "Client_IsResponsive now d c = Tunnel_IsResponsive now d (tunnel_of c)"

definition Client_Retire :: "Client \<Rightarrow> Client" where
  "Client_Retire c = map_tunnel Tunnel_Retire c"

definition Client_IsRetired :: "Client \<Rightarrow> bool" where
  "Client_IsRetired c = Tunnel_IsRetired (tunnel_of c)"

definition Client_BindFailures :: "Client \<Rightarrow> nat" where
  "Client_BindFailures c = BindFailures (tunnel_of c)"

definition Client_ActiveRealms :: "Client \<Rightarrow> nat" where
  "Client_ActiveRealms c = ActiveRealms (tunnel_of c)"

definition Client_RTSPPort :: "Client \<Rightarrow> u32" where
  "Client_RTSPPort c = Tunnel_RTSPPort (tunnel_of c)"

text \<open>
  What \<open>Client.Dial\<close> does with the result of the tunnel's \<open>Dial\<close>, which ran on the client's tunnel: looking
  at the tunnel and acting on it are one step, without another dial in between.
\<close>

definition Client_Dial :: "int \<Rightarrow> tun_error + conn_ref \<Rightarrow> Client \<Rightarrow> (tun_error + conn_ref) \<times> Client" where
  "Client_Dial now res c =
     (if res \<noteq> Inl ErrDialTimeout then (res, c)
      else
        (Inl ErrDialTimeout,
         if \<not> Tunnel_IsResponsive now deadTunnelSilence (tunnel_of c) then Client_Close now c
         else if BindFailures (tunnel_of c) \<ge> maxBindFailures then Client_Retire c
         else c))"

section \<open>Lemmas\<close>

lemmas client_defs = map_tunnel_def Client_SetOnClose_def Client_Close_def Client_IsClosed_def Client_Retire_def
  Client_IsRetired_def Tunnel_IsClosed_def Tunnel_IsRetired_def

lemma WaitSettle_nonneg: "0 \<le> WaitSettle now c"
  by (simp add: WaitSettle_def Let_def split: option.split)

lemma WaitSettle_settles:
  "cl_lastNegotiate c = Some t0 \<Longrightarrow> t0 + minNegotiateSettle \<le> now + WaitSettle now c"
  by (simp add: WaitSettle_def Let_def NegotiateSettle_def minNegotiateSettle_def)

lemma LockNegotiate_mem:
  "(r, c') \<in> set (LockNegotiate ctx c) \<longleftrightarrow>
     r = None \<and> \<not> cl_negotiateSem c \<and> c' = c\<lparr>cl_negotiateSem := True\<rparr> \<or> r \<noteq> None \<and> r = ctx \<and> c' = c"
  by (auto simp: LockNegotiate_def split: option.splits)

text \<open>The policy's changes are steps of the tunnel.\<close>

lemma Client_Dial_steps:
  assumes "Client_Dial now res c = (res', c')"
  shows "res' = res" "c' = c \<or> dial_step (cl_tunnel c) (cl_tunnel c')"
  using assms dial_step.close [of "cl_tunnel c" now] dial_step.retire [of "cl_tunnel c"]
  by (auto simp: Client_Dial_def client_defs split: if_splits)

text \<open>A device that never answers: one attempt after the other times out.\<close>

definition bindable :: "nat \<Rightarrow> dialer \<Rightarrow> bool" where
  "bindable k s \<longleftrightarrow> (let t = ds_tunnel s in
     tunnel_inv t \<and> Dial_check t = None \<and> k_open (u_conn (tn_client t)) \<and> k_wfaults (u_conn (tn_client t)) = [] \<and>
     u_raddr (tn_client t) = Some sample_peer \<and> tn_realms t = Some [] \<and> tn_connCh t = [] \<and> ds_draws s = replicate k 5)"

lemma silent_attempt:
  assumes "bindable (Suc k) s" "ds_pc s = DialAttempt n port" "n < 3"
  shows "\<exists>s'. dial_step\<^sup>*\<^sup>* s s' \<and> bindable k s' \<and> ds_pc s' = DialAttempt (Suc n) port \<and>
    ds_results s' = ds_results s \<and> ds_queue s' = ds_queue s"
proof -
  let ?t = "ds_tunnel s"
  have t: "tunnel_inv ?t" "tn_realms ?t = Some []" "tn_connCh ?t = []" "ds_draws s = 5 # replicate k 5" "Dial_check ?t = None"
    "k_open (u_conn (tn_client ?t))" "k_wfaults (u_conn (tn_client ?t)) = []" "u_raddr (tn_client ?t) = Some sample_peer"
    using assms(1) by (auto simp: bindable_def Let_def)
  have rnd: "randomRealmID (ds_draws s) ?t = Some (5, replicate k 5)" using t by (simp add: realm_lookup_def)
  obtain c t1 where ins: "dial_install 5 port ?t = Inr (c, t1)" using t(2) by (simp add: dial_install_def Let_def)
  then have t1: "tn_realms t1 = Some [(5, c)]" "tn_connCh t1 = []" "tn_client t1 = tn_client ?t" "Dial_check t1 = None"
    using t by (auto simp: dial_install_def Let_def Dial_check_def split: if_splits)
  define t2 where "t2 = dial_register 5 c t1"
  define t3 where "t3 = snd (sendPacket 0 (NewBindBody 5 port) t2)"
  define t4 where "t4 = dial_cleanup 5 t3"
  note eff = dial_install_effect [OF t(1) randomRealmID_fresh [OF rnd] ins]
  have t2: "tunnel_inv t2" unfolding t2_def
    using eff t by (intro dial_register_inv) (auto simp: new_Conn_def tunnel_inv_def table_inv_def)
  have cl: "tn_client t2 = tn_client ?t" using t1 by (simp add: t2_def dial_register_def)
  have bind: "dial_bind 0 5 port t2 = (None, t3)"
    using sendPacket_ok(1) [of t2 sample_peer 0 "NewBindBody 5 port"] t cl
    by (auto simp: dial_bind_def t3_def split: prod.splits)
  have inv4: "tunnel_inv t4"
    using sendPacket_inv [OF t2, of 0 "NewBindBody 5 port"] by (simp add: t4_def t3_def dial_cleanup_def connCh_delete_inv realm_delete_inv)
  have t4: "tn_realms t4 = Some []" "tn_connCh t4 = []" "Dial_check t4 = None" "tn_client t4 = tn_client t3"
    using t1 by (auto simp: t4_def t3_def t2_def dial_cleanup_def dial_register_def realm_delete_def connCh_delete_def
        Dial_check_def split: if_splits)
  have "k_open (u_conn (tn_client t3))" "k_wfaults (u_conn (tn_client t3)) = []" "u_raddr (tn_client t3) = Some sample_peer"
    using t cl by (auto simp: t3_def sendPacket_eq UDP_Send_def WriteToUDP_def)
  note b = inv4 t4 this
  let ?s2 = "s\<lparr>ds_tunnel := t1, ds_draws := replicate k 5, ds_pc := DialInstalled n port 5 c\<rparr>"
  let ?s3 = "?s2\<lparr>ds_tunnel := t2, ds_pc := DialRegistered n port 5 c\<rparr>"
  let ?s4 = "?s3\<lparr>ds_tunnel := t3, ds_pc := DialWaiting n port 5 c\<rparr>"
  let ?s5 = "?s4\<lparr>ds_tunnel := t4, ds_pc := DialAttempt (Suc n) port\<rparr>"
  have "dial_step s ?s2" using dial_step.install [OF assms(2) _ rnd ins] assms(3) by (simp add: maxRetries_def)
  moreover have "dial_step ?s2 ?s3" using dial_step.register [of ?s2 n port 5 c] by (simp add: t2_def)
  moreover have "dial_step ?s3 ?s4" using dial_step.bind [of ?s3 n port 5 c 0 t3] bind by simp
  moreover have "dial_step ?s4 ?s5" using dial_step.timeout [of ?s4 n port 5 c] by (simp add: t4_def)
  ultimately have "dial_step\<^sup>*\<^sup>* s ?s5" by (meson converse_rtranclp_into_rtranclp rtranclp.rtrancl_refl)
  then show ?thesis using b by (intro exI [of _ ?s5]) (simp add: bindable_def Let_def)
qed

lemma silent_dial:
  assumes "bindable (k + 3) s" "ds_pc s = DialIdle" "port \<in> set (ds_queue s)"
  shows "\<exists>s'. dial_step\<^sup>*\<^sup>* s s' \<and> bindable k s' \<and> ds_pc s' = DialIdle \<and>
    ds_results s' = ds_results s @ [Inl ErrDialTimeout] \<and> ds_queue s' = remove1 port (ds_queue s)"
proof -
  let ?s0 = "s\<lparr>ds_queue := remove1 port (ds_queue s), ds_pc := DialAttempt 0 port\<rparr>"
  have lock: "dial_step s ?s0" using dial_step.lock [OF assms(2,3)] assms(1) by (simp add: bindable_def Let_def)
  have "bindable (Suc (Suc (Suc k))) ?s0" using assms(1) by (simp add: bindable_def Let_def numeral_3_eq_3)
  from silent_attempt [OF this, of 0 port] obtain s1 where
    s1: "dial_step\<^sup>*\<^sup>* ?s0 s1" "bindable (Suc (Suc k)) s1" "ds_pc s1 = DialAttempt (Suc 0) port"
      "ds_results s1 = ds_results s" "ds_queue s1 = remove1 port (ds_queue s)" by auto
  from silent_attempt [OF s1(2,3)] obtain s2 where
    s2: "dial_step\<^sup>*\<^sup>* s1 s2" "bindable (Suc k) s2" "ds_pc s2 = DialAttempt 2 port"
      "ds_results s2 = ds_results s" "ds_queue s2 = remove1 port (ds_queue s)" using s1 by (auto simp: numeral_2_eq_2)
  from silent_attempt [OF s2(2,3)] obtain s3 where
    s3: "dial_step\<^sup>*\<^sup>* s2 s3" "bindable k s3" "ds_pc s3 = DialAttempt 3 port"
      "ds_results s3 = ds_results s" "ds_queue s3 = remove1 port (ds_queue s)" using s2 by (auto simp: numeral_3_eq_3)
  let ?s4 = "finish_dial (Inl ErrDialTimeout) (dial_exhausted (ds_tunnel s3)) s3"
  have "dial_step s3 ?s4" using dial_step.exhausted [OF s3(3)] by (simp add: maxRetries_def)
  with lock s1(1) s2(1) s3(1) have "dial_step\<^sup>*\<^sup>* s ?s4"
    by (meson converse_rtranclp_into_rtranclp rtranclp.rtrancl_into_rtrancl rtranclp_trans)
  moreover have "bindable k ?s4"
    using s3(2) by (auto simp: bindable_def Let_def finish_dial_def dial_exhausted_def Dial_check_def inv_defs)
  ultimately show ?thesis using s3 by (intro exI [of _ ?s4]) (simp add: finish_dial_def)
qed

lemma two_timeouts:
  obtains s where "dial_reachable s" "ds_pc s = DialIdle" "ds_results s = [Inl ErrDialTimeout, Inl ErrDialTimeout]"
proof -
  let ?s = "\<lparr>ds_tunnel = Tunnel_New sample_client NewSession 554, ds_queue = [], ds_pc = DialIdle,
      ds_draws = replicate 6 5, ds_results = [], ds_trace = [], ds_closing = []\<rparr>"
  have r: "dial_reachable ?s" by (rule dial_reachable.init) (simp add: sample_client_def)
  have st: "dial_step ?s (?s\<lparr>ds_queue := [554]\<rparr>)" "dial_step (?s\<lparr>ds_queue := [554]\<rparr>) (?s\<lparr>ds_queue := [554, 554]\<rparr>)"
    using dial_step.call_queued [of ?s 554] dial_step.call_queued [of "?s\<lparr>ds_queue := [554]\<rparr>" 554]
    by (simp_all add: Dial_check_def Tunnel_New_def)
  have "tunnel_inv (ds_tunnel ?s)" using reachable_dial [OF r] dial_inv_tunnel by blast
  then have "bindable (3 + 3) (?s\<lparr>ds_queue := [554, 554]\<rparr>)"
    by (simp add: bindable_def Let_def Dial_check_def) (simp add: Tunnel_New_def sample_client_def)
  from silent_dial [OF this, of 554] obtain u where
    u: "dial_step\<^sup>*\<^sup>* (?s\<lparr>ds_queue := [554, 554]\<rparr>) u" "bindable (0 + 3) u" "ds_pc u = DialIdle"
      "ds_results u = [Inl ErrDialTimeout]" "ds_queue u = [554]" by auto
  from silent_dial [OF u(2,3), of 554] obtain v where
    v: "dial_step\<^sup>*\<^sup>* u v" "ds_pc v = DialIdle" "ds_results v = [Inl ErrDialTimeout, Inl ErrDialTimeout]" using u by auto
  from st u(1) v(1) have "dial_step\<^sup>*\<^sup>* ?s v"
    by (meson converse_rtranclp_into_rtranclp rtranclp_trans)
  then have "dial_reachable v" using r by (induction rule: rtranclp_induct) (auto intro: dial_reachable.step)
  with v that show ?thesis by blast
qed

section \<open>Properties\<close>

text \<open>
  (C13) What a timed-out dial does to the tunnel: after twelve seconds without a packet from the
  device it is closed. Otherwise the second timeout in a row retires it: it stays open, its realms,
  connections and socket are untouched, and no further connection is ever handed out. A first
  timeout, and every other result, changes nothing.
\<close>

theorem dial_timeout_policy:
  assumes "dial_reachable (cl_tunnel c)" "ds_pc (cl_tunnel c) = DialIdle" "ds_results (cl_tunnel c) = rs @ [res]"
    "Client_Dial now res c = (res', c')"
  shows "res' = res \<and> (res \<noteq> Inl ErrDialTimeout \<longrightarrow> c' = c) \<and>
    (res = Inl ErrDialTimeout \<longrightarrow>
      (if \<not> Client_IsResponsive now (12 * second) c then Client_IsClosed c'
       else if count_failures rs 0 = 0 then c' = c
       else tunnel_of c' = (tunnel_of c)\<lparr>tn_retired := True\<rparr> \<and>
         (\<forall>d. dial_step\<^sup>*\<^sup>* (cl_tunnel c') d \<longrightarrow> handed_out d = handed_out (cl_tunnel c))))"
proof -
  let ?t = "tunnel_of c"
  have inv: "tunnel_inv ?t" using reachable_dial [OF assms(1)] dial_inv_tunnel by blast
  have fails: "BindFailures ?t = count_failures rs 0 + 1" if "res = Inl ErrDialTimeout"
    using reachable_dial [OF assms(1)] assms(3) that by (simp add: BindFailures_def count_failures_snoc)
  have closes: "tn_closed (snd (Tunnel_Close now ?t))"
    using tunnel_invD(5) [OF inv] by (cases "tn_closed ?t") (simp_all add: Tunnel_Close_closed Tunnel_Close_open Let_def)
  have ret: "handed_out d = handed_out (cl_tunnel c)" if "c' = Client_Retire c" "dial_step\<^sup>*\<^sup>* (cl_tunnel c') d" for d
  proof -
    have "dial_reachable (cl_tunnel c')"
      using dial_reachable.step [OF assms(1) dial_step.retire] that(1) by (simp add: client_defs)
    moreover have "tn_retired (tunnel_of c')" "ds_pc (cl_tunnel c') = DialIdle" "handed_out (cl_tunnel c') = handed_out (cl_tunnel c)"
      using that(1) assms(2) by (simp_all add: client_defs Tunnel_Retire_def handed_out_def)
    ultimately show ?thesis using retired_run [OF that(2)] by simp
  qed
  show ?thesis
  proof (cases "res = Inl ErrDialTimeout")
    case True
    with assms(4) fails [OF True] closes ret show ?thesis
      by (auto simp: Client_Dial_def Client_IsResponsive_def deadTunnelSilence_def maxBindFailures_def client_defs Tunnel_Retire_def
          split: if_splits)
  qed (use assms(4) in \<open>auto simp: Client_Dial_def\<close>)
qed

theorem dial_timeout_policy_witness:
  "\<exists>c c'. ds_results (cl_tunnel c) = [Inl ErrDialTimeout, Inl ErrDialTimeout] \<and>
     Client_Dial 0 (Inl ErrDialTimeout) c = (Inl ErrDialTimeout, c') \<and>
     (Client_IsResponsive 0 (12 * second) c \<longrightarrow> tunnel_of c' = (tunnel_of c)\<lparr>tn_retired := True\<rparr>) \<and>
     (\<not> Client_IsResponsive 0 (12 * second) c \<longrightarrow> Client_IsClosed c')"
proof -
  obtain s where s: "dial_reachable s" "ds_pc s = DialIdle" "ds_results s = [Inl ErrDialTimeout] @ [Inl ErrDialTimeout]"
    using two_timeouts by auto
  define c where "c = \<lparr>cl_tunnel = s, cl_negotiateSem = True, cl_lastNegotiate = None\<rparr>"
  obtain r c' where d: "Client_Dial 0 (Inl ErrDialTimeout) c = (r, c')" by fastforce
  have "dial_reachable (cl_tunnel c)" "ds_pc (cl_tunnel c) = DialIdle"
    "ds_results (cl_tunnel c) = [Inl ErrDialTimeout] @ [Inl ErrDialTimeout]" using s by (simp_all add: c_def)
  from dial_timeout_policy [OF this d] d s show ?thesis
    by (intro exI [of _ c] exI [of _ c']) (simp add: c_def split: if_splits)
qed

end
