(* ===== verification/Session_Manager.thy ===== *)
theory Session_Manager
  imports Dahua_Client
begin

text \<open>
  The session manager (\<^verbatim>\<open>dahua.go\<close>, second half): tunnels shared by configuration and counted by
  reference. Each critical section of the manager's mutex is one operation; the goroutines inside
  \<open>Acquire\<close>, the timers, the close callbacks and the clients' own activity interleave between them.
\<close>

section \<open>State\<close>

text \<open>
  Sessions and handshakes in progress are pointers in the code: \<open>w_session\<close> and \<open>w_inflight\<close> are the
  stores they point into. The clients the manager opened are in \<open>w_client\<close>.
\<close>

type_synonym client_ref = nat
type_synonym session_ref = nat
type_synonym inflight_ref = nat
type_synonym timer_ref = nat

record sessionKey =
  sk_serial :: string
  sk_username :: string
  sk_password :: string
  sk_p2pPort :: int
  sk_maxRealms :: int

record managedSession =
  ms_client :: client_ref
  ms_refCount :: int
  ms_idleTimer :: "timer_ref option"
  ms_maxRealms :: int

record inflightConn =
  if_done :: bool
  if_err :: "dahua_error option"

record SessionManager =
  sm_sessions :: "(sessionKey \<times> session_ref list) list"
  sm_inflight :: "(sessionKey \<times> inflight_ref) list"
  sm_IdleTimeout :: duration
  sm_closed :: bool

text \<open>
  Where a goroutine stands in \<open>Acquire\<close>: about to lock, waiting for somebody else's handshake, in its
  own handshake, about to lock again with the handshake's result, about to publish the new session
  or to report the failure, or returned.
\<close>

datatype acquire_pc =
  AcqStart Config
| AcqWait Config inflight_ref
| AcqConnect Config inflight_ref
| AcqInstall Config inflight_ref "dahua_error + client_ref"
| AcqPublish Config inflight_ref client_ref session_ref
| AcqReport Config inflight_ref dahua_error "client_ref option"
| AcqReturned "dahua_error + client_ref"

text \<open>
  \<open>w_armed\<close> are the idle timers that are running, with the time they fire; \<open>w_fired\<close> the callbacks of
  those that fired and wait for the mutex. \<open>w_forgets\<close> are close callbacks waiting for the mutex and
  \<open>w_closing\<close> the calls of \<open>Close\<close> the manager has started. \<open>w_onClose\<close> is the callback installed on a
  client. \<open>w_held\<close> records who holds which client, with the serial it was acquired for.
\<close>

record world =
  w_now :: int
  w_manager :: SessionManager
  w_session :: "session_ref \<Rightarrow> managedSession"
  w_nextSession :: session_ref
  w_inflight :: "inflight_ref \<Rightarrow> inflightConn"
  w_nextInflight :: inflight_ref
  w_client :: "client_ref \<Rightarrow> Client"
  w_nextClient :: client_ref
  w_armed :: "(timer_ref \<times> int \<times> sessionKey \<times> session_ref) list"
  w_fired :: "(timer_ref \<times> sessionKey \<times> session_ref) list"
  w_nextTimer :: timer_ref
  w_onClose :: "client_ref \<Rightarrow> (sessionKey \<times> session_ref) option"
  w_forgets :: "(sessionKey \<times> session_ref) list"
  w_closing :: "client_ref list"
  w_held :: "(string \<times> client_ref) list"
  w_procs :: "nat \<Rightarrow> acquire_pc option"

definition NewSessionManager :: SessionManager where
  "NewSessionManager = \<lparr>sm_sessions = [], sm_inflight = [], sm_IdleTimeout = DefaultIdleTimeout, sm_closed = False\<rparr>"

definition sessionKeyFor :: "Config \<Rightarrow> sessionKey" where
  "sessionKeyFor cfg =
     (let maxRealms = (if cf_MaxRealms cfg \<le> 0 then DefaultMaxRealmsPerTunnel else cf_MaxRealms cfg)
      in \<lparr>sk_serial = cf_Serial cfg, sk_username = cf_Username cfg, sk_password = cf_Password cfg,
          sk_p2pPort = cf_P2PPort cfg, sk_maxRealms = maxRealms\<rparr>)"

section \<open>Operations\<close>

text \<open>
  Reading a missing key of the map gives the empty list; storing an empty list is followed by a
  delete everywhere in the code.
\<close>

definition sessions :: "world \<Rightarrow> sessionKey \<Rightarrow> session_ref list" where
  "sessions w key = (case map_of (sm_sessions (w_manager w)) key of None \<Rightarrow> [] | Some l \<Rightarrow> l)"

definition set_sessions :: "sessionKey \<Rightarrow> session_ref list \<Rightarrow> world \<Rightarrow> world" where
  "set_sessions key l w =
     w\<lparr>w_manager := (w_manager w)
        \<lparr>sm_sessions := (if l = [] then AList.delete key (sm_sessions (w_manager w))
                         else AList.update key l (sm_sessions (w_manager w)))\<rparr>\<rparr>"

definition update_session :: "session_ref \<Rightarrow> (managedSession \<Rightarrow> managedSession) \<Rightarrow> world \<Rightarrow> world" where
  "update_session s f w = w\<lparr>w_session := (w_session w)(s := f (w_session w s))\<rparr>"

definition session_client :: "world \<Rightarrow> session_ref \<Rightarrow> Client" where
  "session_client w s = w_client w (ms_client (w_session w s))"

text \<open>\<open>Stop\<close> on a session's timer, if it has one: a timer that has already fired is not affected.\<close>

definition stop_idle :: "session_ref \<Rightarrow> world \<Rightarrow> world" where
  "stop_idle s w =
     (case ms_idleTimer (w_session w s) of
        None \<Rightarrow> w
      | Some t \<Rightarrow> w\<lparr>w_armed := filter (\<lambda>e. t \<noteq> fst e) (w_armed w)\<rparr>)"

definition available :: "world \<Rightarrow> session_ref \<Rightarrow> bool" where
  "available w s \<longleftrightarrow> \<not> Client_IsRetired (session_client w s) \<and>
     ms_refCount (w_session w s) < ms_maxRealms (w_session w s)"

definition findAvailableSession :: "sessionKey \<Rightarrow> world \<Rightarrow> session_ref option \<times> world" where
  "findAvailableSession key w =
     (let live = filter (\<lambda>s. \<not> Client_IsClosed (session_client w s)) (sessions w key);
          dead = filter (\<lambda>s. Client_IsClosed (session_client w s)) (sessions w key);
          w = fold stop_idle dead w;
          w = set_sessions key live w
      in (find (available w) live, w))"

text \<open>The first critical section of a round of \<open>Acquire\<close>: where the goroutine goes on, and the state.\<close>

definition Acquire_select :: "Config \<Rightarrow> world \<Rightarrow> acquire_pc \<times> world" where
  "Acquire_select cfg w =
     (if sm_closed (w_manager w) then (AcqReturned (Inl ErrSessionManagerClosed), w)
      else
        let key = sessionKeyFor cfg;
            (found, w) = findAvailableSession key w
        in case found of
             Some s \<Rightarrow>
               (let w = stop_idle s w;
                    w = update_session s (\<lambda>ms. ms\<lparr>ms_idleTimer := None, ms_refCount := ms_refCount ms + 1\<rparr>) w;
                    c = ms_client (w_session w s)
                in (AcqReturned (Inr c), w\<lparr>w_held := (cf_Serial cfg, c) # w_held w\<rparr>))
           | None \<Rightarrow>
               (if sk_p2pPort key \<noteq> 0 \<and> sessions w key \<noteq> []
                then (AcqReturned (Inl (ErrFixedPortCapacity (sk_p2pPort key))), w)
                else
                  case map_of (sm_inflight (w_manager w)) key of
                    Some flight \<Rightarrow> (AcqWait cfg flight, w)
                  | None \<Rightarrow>
                      (let flight = w_nextInflight w
                       in (AcqConnect cfg flight,
                           w\<lparr>w_inflight := (w_inflight w)(flight := \<lparr>if_done = False, if_err = None\<rparr>),
                             w_nextInflight := Suc flight,
                             w_manager := (w_manager w)
                               \<lparr>sm_inflight := AList.update key flight (sm_inflight (w_manager w))\<rparr>\<rparr>))))"

text \<open>The second one, with the result of the handshake; a new session counts its opener.\<close>

definition Acquire_install :: "Config \<Rightarrow> inflight_ref \<Rightarrow> dahua_error + client_ref \<Rightarrow> world \<Rightarrow> acquire_pc \<times> world" where
  "Acquire_install cfg flight res w =
     (let key = sessionKeyFor cfg;
          w = w\<lparr>w_manager := (w_manager w)\<lparr>sm_inflight := AList.delete key (sm_inflight (w_manager w))\<rparr>\<rparr>;
          err = (case res of
                   Inl e \<Rightarrow> Some e
                 | Inr _ \<Rightarrow> if sm_closed (w_manager w) then Some ErrSessionManagerClosed else None);
          w = w\<lparr>w_inflight := (w_inflight w)(flight := (w_inflight w flight)\<lparr>if_err := err\<rparr>)\<rparr>
      in case (err, res) of
           (None, Inr c) \<Rightarrow>
             (let s = w_nextSession w;
                  w = w\<lparr>w_session := (w_session w)
                          (s := \<lparr>ms_client = c, ms_refCount = 1, ms_idleTimer = None, ms_maxRealms = sk_maxRealms key\<rparr>),
                        w_nextSession := Suc s, w_held := (cf_Serial cfg, c) # w_held w\<rparr>
              in (AcqPublish cfg flight c s, set_sessions key (sessions w key @ [s]) w))
         | (Some e, Inr c) \<Rightarrow> (AcqReport cfg flight e (Some c), w)
         | (Some e, Inl _) \<Rightarrow> (AcqReport cfg flight e None, w)
         | (None, Inl e) \<Rightarrow> (AcqReport cfg flight e None, w))"

text \<open>A client's tunnel moves on; if this ran its close callback, the callback heads for the mutex.\<close>

definition client_moves :: "client_ref \<Rightarrow> Client \<Rightarrow> world \<Rightarrow> world" where
  "client_moves c cl w =
     (let ran = tn_onCloseRuns (tunnel_of (w_client w c)) < tn_onCloseRuns (tunnel_of cl);
          w' = w\<lparr>w_client := (w_client w)(c := cl)\<rparr>
      in if ran then (case w_onClose w c of None \<Rightarrow> w' | Some f \<Rightarrow> w'\<lparr>w_forgets := f # w_forgets w\<rparr>) else w')"

definition close_client :: "client_ref \<Rightarrow> world \<Rightarrow> world" where
  "close_client c w = client_moves c (Client_Close (w_now w) (w_client w c)) w"

text \<open>After the mutex: the callback is installed, or the unused client closed, and the waiters are woken.\<close>

definition Acquire_publish :: "Config \<Rightarrow> inflight_ref \<Rightarrow> client_ref \<Rightarrow> session_ref \<Rightarrow> world \<Rightarrow> world" where
  "Acquire_publish cfg flight c s w =
     (let w = w\<lparr>w_onClose := (w_onClose w)(c := Some (sessionKeyFor cfg, s))\<rparr>;
          w = client_moves c (Client_SetOnClose (w_client w c)) w
      in w\<lparr>w_inflight := (w_inflight w)(flight := (w_inflight w flight)\<lparr>if_done := True\<rparr>)\<rparr>)"

definition Acquire_report :: "inflight_ref \<Rightarrow> client_ref option \<Rightarrow> world \<Rightarrow> world" where
  "Acquire_report flight client w =
     (let w = (case client of None \<Rightarrow> w | Some c \<Rightarrow> close_client c w)
      in w\<lparr>w_inflight := (w_inflight w)(flight := (w_inflight w flight)\<lparr>if_done := True\<rparr>)\<rparr>)"

definition Acquire_woken :: "Config \<Rightarrow> inflight_ref \<Rightarrow> world \<Rightarrow> acquire_pc" where
  "Acquire_woken cfg flight w =
     (case if_err (w_inflight w flight) of Some e \<Rightarrow> AcqReturned (Inl e) | None \<Rightarrow> AcqStart cfg)"

fun removeSession :: "session_ref list \<Rightarrow> session_ref \<Rightarrow> session_ref list" where
  "removeSession [] s = []"
| "removeSession (cur # list) s = (if cur = s then list else cur # removeSession list s)"

definition forget :: "sessionKey \<Rightarrow> session_ref \<Rightarrow> world \<Rightarrow> world" where
  "forget key s w = (let w = stop_idle s w in set_sessions key (removeSession (sessions w key) s) w)"

text \<open>The sessions of a serial, in the order of the iteration.\<close>

definition serial_sessions :: "string \<Rightarrow> world \<Rightarrow> (sessionKey \<times> session_ref) list" where
  "serial_sessions serial w =
     concat (map (\<lambda>(key, l). map (\<lambda>s. (key, s)) l) (filter (\<lambda>(key, l). sk_serial key = serial) (sm_sessions (w_manager w))))"

definition Release :: "string \<Rightarrow> client_ref \<Rightarrow> world \<Rightarrow> world" where
  "Release serial client w =
     (case find (\<lambda>(key, s). ms_client (w_session w s) = client) (serial_sessions serial w) of
        None \<Rightarrow> w
      | Some (key, s) \<Rightarrow>
          (let w = update_session s (\<lambda>ms. ms\<lparr>ms_refCount := ms_refCount ms - 1\<rparr>) w
           in if ms_refCount (w_session w s) > 0 then w
              else
                let w = update_session s (\<lambda>ms. ms\<lparr>ms_refCount := 0\<rparr>) w;
                    w = stop_idle s w;
                    w = update_session s (\<lambda>ms. ms\<lparr>ms_idleTimer := None\<rparr>) w
                in if Client_IsRetired (session_client w s)
                   then (set_sessions key (removeSession (sessions w key) s) w)\<lparr>w_closing := client # w_closing w\<rparr>
                   else
                     let t = w_nextTimer w
                     in (update_session s (\<lambda>ms. ms\<lparr>ms_idleTimer := Some t\<rparr>) w)
                          \<lparr>w_nextTimer := Suc t,
                           w_armed := (t, w_now w + sm_IdleTimeout (w_manager w), key, s) # w_armed w\<rparr>))"

text \<open>The callback of an idle timer; the close follows outside the mutex.\<close>

definition idle_callback :: "sessionKey \<Rightarrow> session_ref \<Rightarrow> world \<Rightarrow> world" where
  "idle_callback key s w =
     (if s \<in> set (sessions w key) \<and> \<not> ms_refCount (w_session w s) > 0
      then (set_sessions key (removeSession (sessions w key) s) w)
             \<lparr>w_closing := ms_client (w_session w s) # w_closing w\<rparr>
      else w)"

definition CloseAll :: "world \<Rightarrow> world" where
  "CloseAll w =
     (let all = concat (map snd (sm_sessions (w_manager w)));
          w = fold stop_idle all w
      in w\<lparr>w_manager := (w_manager w)\<lparr>sm_closed := True, sm_sessions := []\<rparr>,
           w_closing := map (\<lambda>s. ms_client (w_session w s)) all @ w_closing w\<rparr>)"

section \<open>The manager among its goroutines\<close>

text \<open>
  A client's tunnel takes any step of \<open>Tunnel_Dial\<close> by itself; only the manager installs close
  callbacks. A holder releases its client once, for the serial it was acquired for.
\<close>

inductive manager_step :: "world \<Rightarrow> world \<Rightarrow> bool" where
  acquire: "w_procs w p = None \<Longrightarrow> manager_step w (w\<lparr>w_procs := (w_procs w)(p \<mapsto> AcqStart cfg)\<rparr>)"
| select: "w_procs w p = Some (AcqStart cfg) \<Longrightarrow> Acquire_select cfg w = (pc, w') \<Longrightarrow>
    manager_step w (w'\<lparr>w_procs := (w_procs w')(p \<mapsto> pc)\<rparr>)"
| woken: "w_procs w p = Some (AcqWait cfg flight) \<Longrightarrow> if_done (w_inflight w flight) \<Longrightarrow>
    manager_step w (w\<lparr>w_procs := (w_procs w)(p \<mapsto> Acquire_woken cfg flight w)\<rparr>)"
| connect_failed: "w_procs w p = Some (AcqConnect cfg flight) \<Longrightarrow>
    ConnectWithConfig new cfg = Inl e \<Longrightarrow>
    manager_step w (w\<lparr>w_procs := (w_procs w)(p \<mapsto> AcqInstall cfg flight (Inl e))\<rparr>)"
| connected: "w_procs w p = Some (AcqConnect cfg flight) \<Longrightarrow>
    ConnectWithConfig new cfg = Inr cl \<Longrightarrow> dial_reachable (cl_tunnel cl) \<Longrightarrow> \<not> tn_onClose (tunnel_of cl) \<Longrightarrow>
    manager_step w (w\<lparr>w_client := (w_client w)(w_nextClient w := cl), w_nextClient := Suc (w_nextClient w),
      w_onClose := (w_onClose w)(w_nextClient w := None),
      w_procs := (w_procs w)(p \<mapsto> AcqInstall cfg flight (Inr (w_nextClient w)))\<rparr>)"
| install: "w_procs w p = Some (AcqInstall cfg flight res) \<Longrightarrow> Acquire_install cfg flight res w = (pc, w') \<Longrightarrow>
    manager_step w (w'\<lparr>w_procs := (w_procs w')(p \<mapsto> pc)\<rparr>)"
| publish: "w_procs w p = Some (AcqPublish cfg flight c s) \<Longrightarrow> Acquire_publish cfg flight c s w = w' \<Longrightarrow>
    manager_step w (w'\<lparr>w_procs := (w_procs w')(p \<mapsto> AcqReturned (Inr c))\<rparr>)"
| report: "w_procs w p = Some (AcqReport cfg flight e client) \<Longrightarrow> Acquire_report flight client w = w' \<Longrightarrow>
    manager_step w (w'\<lparr>w_procs := (w_procs w')(p \<mapsto> AcqReturned (Inl e))\<rparr>)"
| release: "(serial, c) \<in> set (w_held w) \<Longrightarrow>
    manager_step w (Release serial c (w\<lparr>w_held := remove1 (serial, c) (w_held w)\<rparr>))"
| fire: "(t, due, key, s) \<in> set (w_armed w) \<Longrightarrow> due \<le> w_now w \<Longrightarrow>
    manager_step w (w\<lparr>w_armed := remove1 (t, due, key, s) (w_armed w), w_fired := (t, key, s) # w_fired w\<rparr>)"
| idle: "(t, key, s) \<in> set (w_fired w) \<Longrightarrow>
    manager_step w (idle_callback key s (w\<lparr>w_fired := remove1 (t, key, s) (w_fired w)\<rparr>))"
| forgotten: "(key, s) \<in> set (w_forgets w) \<Longrightarrow>
    manager_step w (forget key s (w\<lparr>w_forgets := remove1 (key, s) (w_forgets w)\<rparr>))"
| close: "c \<in> set (w_closing w) \<Longrightarrow>
    manager_step w (close_client c (w\<lparr>w_closing := remove1 c (w_closing w)\<rparr>))"
| client: "c < w_nextClient w \<Longrightarrow> dial_step (cl_tunnel (w_client w c)) (cl_tunnel cl) \<Longrightarrow>
    tn_onClose (tunnel_of cl) = tn_onClose (tunnel_of (w_client w c)) \<Longrightarrow>
    (tn_closed (tunnel_of (w_client w c)) \<longrightarrow> tn_onCloseRuns (tunnel_of cl) = tn_onCloseRuns (tunnel_of (w_client w c))) \<Longrightarrow>
    manager_step w (client_moves c cl w)"
| close_all: "manager_step w (CloseAll w)"
| tick: "0 \<le> d \<Longrightarrow> manager_step w (w\<lparr>w_now := w_now w + d\<rparr>)"

inductive manager_reachable :: "world \<Rightarrow> bool" where
  init: "w_manager w = NewSessionManager\<lparr>sm_IdleTimeout := d\<rparr> \<Longrightarrow>
    w_armed w = [] \<Longrightarrow> w_fired w = [] \<Longrightarrow> w_forgets w = [] \<Longrightarrow> w_closing w = [] \<Longrightarrow> w_held w = [] \<Longrightarrow>
    w_nextClient w = 0 \<Longrightarrow> w_nextSession w = 0 \<Longrightarrow> w_onClose w = (\<lambda>c. None) \<Longrightarrow> w_procs w = (\<lambda>p. None) \<Longrightarrow> manager_reachable w"
| step: "manager_reachable w \<Longrightarrow> manager_step w w' \<Longrightarrow> manager_reachable w'"

end
