(* ===== verification/Session_Invariant.thy ===== *)
theory Session_Invariant
  imports Session_Manager "HOL-Library.Sublist"
begin

text \<open>
  The invariant of the session manager: what the table of sessions, the reference counts, the timers,
  the close callbacks, the handshakes in progress and the clients being closed have to do with each
  other, and that the parts of each step keep it.
\<close>

section \<open>The invariant\<close>

fun connecting :: "acquire_pc \<Rightarrow> (sessionKey \<times> inflight_ref) option" where
  "connecting (AcqConnect cfg flight) = Some (sessionKeyFor cfg, flight)"
| "connecting (AcqInstall cfg flight res) = Some (sessionKeyFor cfg, flight)"
| "connecting _ = None"

fun carries :: "acquire_pc \<Rightarrow> client_ref option" where
  "carries (AcqInstall cfg flight (Inr c)) = Some c"
| "carries (AcqReport cfg flight e client) = client"
| "carries _ = None"

fun publishes :: "acquire_pc \<Rightarrow> (sessionKey \<times> session_ref) option" where
  "publishes (AcqPublish cfg flight c s) = Some (sessionKeyFor cfg, s)"
| "publishes _ = None"

definition proc :: "(acquire_pc \<Rightarrow> 'a option) \<Rightarrow> world \<Rightarrow> nat \<Rightarrow> 'a option" where
  "proc f w p = Option.bind (w_procs w p) f"

definition holders :: "world \<Rightarrow> client_ref \<Rightarrow> nat" where
  "holders w c = length (filter (\<lambda>h. snd h = c) (w_held w))"

abbreviation client_closed :: "world \<Rightarrow> client_ref \<Rightarrow> bool" where
  "client_closed w c \<equiv> tn_closed (tunnel_of (w_client w c))"

definition table_ok :: "world \<Rightarrow> bool" where
  "table_ok w \<longleftrightarrow> distinct (map fst (sm_sessions (w_manager w))) \<and>
     (\<forall>k. distinct (sessions w k)) \<and>
     (\<forall>k k' s. s \<in> set (sessions w k) \<longrightarrow> s \<in> set (sessions w k') \<longrightarrow> k = k') \<and>
     (\<forall>k s. s \<in> set (sessions w k) \<longrightarrow> s < w_nextSession w \<and> ms_maxRealms (w_session w s) = sk_maxRealms k \<and> 1 \<le> sk_maxRealms k) \<and>
     (\<forall>s < w_nextSession w. ms_client (w_session w s) < w_nextClient w) \<and>
     inj_on (\<lambda>s. ms_client (w_session w s)) {..<w_nextSession w} \<and>
     (sm_closed (w_manager w) \<longrightarrow> sm_sessions (w_manager w) = [])"

definition count_ok :: "world \<Rightarrow> bool" where
  "count_ok w \<longleftrightarrow>
     (\<forall>k s. s \<in> set (sessions w k) \<longrightarrow>
        ms_refCount (w_session w s) = int (holders w (ms_client (w_session w s))) \<and>
        ms_refCount (w_session w s) \<le> ms_maxRealms (w_session w s) \<and>
        (\<forall>ser. (ser, ms_client (w_session w s)) \<in> set (w_held w) \<longrightarrow> ser = sk_serial k)) \<and>
     snd ` set (w_held w) \<subseteq> (\<lambda>s. ms_client (w_session w s)) ` {..<w_nextSession w}"

definition ticking :: "world \<Rightarrow> timer_ref \<Rightarrow> sessionKey \<Rightarrow> session_ref \<Rightarrow> bool" where
  "ticking w t k s \<longleftrightarrow> (\<exists>due. (t, due, k, s) \<in> set (w_armed w)) \<or> (t, k, s) \<in> set (w_fired w)"

definition timer_ok :: "world \<Rightarrow> bool" where
  "timer_ok w \<longleftrightarrow>
     (\<forall>k s. s \<in> set (sessions w k) \<longrightarrow> ms_refCount (w_session w s) = 0 \<longrightarrow>
        (\<exists>t. ms_idleTimer (w_session w s) = Some t \<and> ticking w t k s)) \<and>
     (\<forall>s t. ms_idleTimer (w_session w s) = Some t \<longrightarrow> s < w_nextSession w \<longrightarrow> t < w_nextTimer w \<and>
        (\<forall>due k s'. (t, due, k, s') \<in> set (w_armed w) \<longrightarrow> s' = s)) \<and>
     (\<forall>e \<in> set (w_armed w). fst e < w_nextTimer w) \<and>
     distinct (map fst (w_armed w))"

definition keyed :: "world \<Rightarrow> session_ref \<Rightarrow> sessionKey \<Rightarrow> bool" where
  "keyed w s k \<longleftrightarrow> (\<forall>k'. s \<in> set (sessions w k') \<longrightarrow> k' = k)"

definition watched :: "world \<Rightarrow> sessionKey \<Rightarrow> session_ref \<Rightarrow> bool" where
  "watched w k s \<longleftrightarrow> (let c = ms_client (w_session w s) in
     if client_closed w c then (k, s) \<in> set (w_forgets w)
     else w_onClose w c = Some (k, s) \<and> tn_onClose (tunnel_of (w_client w c)))"

definition callback_ok :: "world \<Rightarrow> bool" where
  "callback_ok w \<longleftrightarrow>
     (\<forall>k s. s \<in> set (sessions w k) \<longrightarrow> (\<exists>p. proc publishes w p = Some (k, s)) \<or> watched w k s) \<and>
     (\<forall>k s. (k, s) \<in> set (w_forgets w) \<longrightarrow> s < w_nextSession w \<and> client_closed w (ms_client (w_session w s)) \<and> keyed w s k) \<and>
     (\<forall>c k s. w_onClose w c = Some (k, s) \<longrightarrow> s < w_nextSession w \<and> ms_client (w_session w s) = c \<and> keyed w s k) \<and>
     (\<forall>p cfg flight c s. w_procs w p = Some (AcqPublish cfg flight c s) \<longrightarrow>
        s < w_nextSession w \<and> ms_client (w_session w s) = c \<and> keyed w s (sessionKeyFor cfg)) \<and>
     (\<forall>c < w_nextClient w. dial_reachable (cl_tunnel (w_client w c)))"

definition flight_ok :: "world \<Rightarrow> bool" where
  "flight_ok w \<longleftrightarrow>
     (\<forall>p k f. proc connecting w p = Some (k, f) \<longrightarrow> map_of (sm_inflight (w_manager w)) k = Some f) \<and>
     (\<forall>p q k f f'. proc connecting w p = Some (k, f) \<longrightarrow> proc connecting w q = Some (k, f') \<longrightarrow> p = q) \<and>
     (\<forall>k. sk_p2pPort k \<noteq> 0 \<longrightarrow> length (sessions w k) \<le> 1 \<and> (map_of (sm_inflight (w_manager w)) k \<noteq> None \<longrightarrow> sessions w k = []))"

definition owned_ok :: "world \<Rightarrow> bool" where
  "owned_ok w \<longleftrightarrow>
     (\<forall>p c. proc carries w p = Some c \<longrightarrow> c < w_nextClient w \<and> (\<forall>s < w_nextSession w. ms_client (w_session w s) \<noteq> c)) \<and>
     (\<forall>p q c. proc carries w p = Some c \<longrightarrow> proc carries w q = Some c \<longrightarrow> p = q) \<and>
     (\<forall>c < w_nextClient w. client_closed w c \<or> c \<in> set (w_closing w) \<or> (\<exists>p. proc carries w p = Some c) \<or>
        (\<exists>k s. s \<in> set (sessions w k) \<and> ms_client (w_session w s) = c))"

definition closing_ok :: "world \<Rightarrow> bool" where
  "closing_ok w \<longleftrightarrow>
     (\<forall>c \<in> set (w_closing w). (\<exists>s < w_nextSession w. ms_client (w_session w s) = c) \<and>
        (\<not> sm_closed (w_manager w) \<longrightarrow> holders w c = 0 \<and> (\<forall>k s. s \<in> set (sessions w k) \<longrightarrow> ms_client (w_session w s) \<noteq> c)))"

definition manager_inv :: "world \<Rightarrow> bool" where
  "manager_inv w \<longleftrightarrow> table_ok w \<and> count_ok w \<and> timer_ok w \<and> callback_ok w \<and> flight_ok w \<and> owned_ok w \<and> closing_ok w"

section \<open>Lemmas on the operations\<close>

lemma sessions_set [simp]: "sessions (set_sessions key l w) k = (if k = key then l else sessions w k)"
  by (simp add: sessions_def set_sessions_def update_conv' delete_conv' restrict_map_def)

lemma set_sessions_frame [simp]:
  "w_session (set_sessions key l w) = w_session w" "w_nextSession (set_sessions key l w) = w_nextSession w"
  "w_inflight (set_sessions key l w) = w_inflight w" "w_nextInflight (set_sessions key l w) = w_nextInflight w"
  "w_client (set_sessions key l w) = w_client w" "w_nextClient (set_sessions key l w) = w_nextClient w"
  "w_armed (set_sessions key l w) = w_armed w" "w_fired (set_sessions key l w) = w_fired w"
  "w_nextTimer (set_sessions key l w) = w_nextTimer w" "w_onClose (set_sessions key l w) = w_onClose w"
  "w_forgets (set_sessions key l w) = w_forgets w" "w_closing (set_sessions key l w) = w_closing w"
  "w_held (set_sessions key l w) = w_held w" "w_procs (set_sessions key l w) = w_procs w" "w_now (set_sessions key l w) = w_now w"
  "sm_closed (w_manager (set_sessions key l w)) = sm_closed (w_manager w)"
  "sm_inflight (w_manager (set_sessions key l w)) = sm_inflight (w_manager w)"
  by (simp_all add: set_sessions_def)

lemma distinct_set_sessions:
  "distinct (map fst (sm_sessions (w_manager w))) \<Longrightarrow> distinct (map fst (sm_sessions (w_manager (set_sessions key l w))))"
  by (simp add: set_sessions_def distinct_update distinct_delete)

lemma sessions_frame [simp]:
  "sessions (w\<lparr>w_session := a\<rparr>) = sessions w" "sessions (w\<lparr>w_nextSession := b\<rparr>) = sessions w"
  "sessions (w\<lparr>w_inflight := c\<rparr>) = sessions w" "sessions (w\<lparr>w_nextInflight := b\<rparr>) = sessions w"
  "sessions (w\<lparr>w_client := d\<rparr>) = sessions w" "sessions (w\<lparr>w_nextClient := b\<rparr>) = sessions w"
  "sessions (w\<lparr>w_armed := e\<rparr>) = sessions w" "sessions (w\<lparr>w_fired := f\<rparr>) = sessions w"
  "sessions (w\<lparr>w_nextTimer := b\<rparr>) = sessions w" "sessions (w\<lparr>w_onClose := g\<rparr>) = sessions w"
  "sessions (w\<lparr>w_forgets := h\<rparr>) = sessions w" "sessions (w\<lparr>w_closing := i\<rparr>) = sessions w"
  "sessions (w\<lparr>w_held := j\<rparr>) = sessions w" "sessions (w\<lparr>w_procs := k\<rparr>) = sessions w" "sessions (w\<lparr>w_now := n\<rparr>) = sessions w"
  "sessions (w\<lparr>w_manager := m\<lparr>sm_inflight := l\<rparr>\<rparr>) = sessions (w\<lparr>w_manager := m\<rparr>)"
  by (simp_all add: sessions_def fun_eq_iff)

lemma stop_idle_eq:
  "stop_idle s w = w\<lparr>w_armed := filter (\<lambda>e. ms_idleTimer (w_session w s) \<noteq> Some (fst e)) (w_armed w)\<rparr>"
  by (cases "ms_idleTimer (w_session w s)") (simp_all add: stop_idle_def)

lemma fold_stop_idle:
  "fold stop_idle ss w =
     w\<lparr>w_armed := filter (\<lambda>e. \<forall>s \<in> set ss. ms_idleTimer (w_session w s) \<noteq> Some (fst e)) (w_armed w)\<rparr>"
  by (induction ss arbitrary: w) (simp_all add: stop_idle_eq conj_commute)

lemma removeSession_eq [simp]: "removeSession l s = remove1 s l"
  by (induction l) auto

lemma sessions_mem:
  assumes "distinct (map fst (sm_sessions (w_manager w)))"
  shows "s \<in> set (sessions w k) \<longleftrightarrow> (\<exists>l. (k, l) \<in> set (sm_sessions (w_manager w)) \<and> s \<in> set l)"
  using assms by (auto simp: sessions_def split: option.splits dest: map_of_SomeD)

lemma serial_sessions_mem:
  assumes "distinct (map fst (sm_sessions (w_manager w)))"
  shows "(k, s) \<in> set (serial_sessions ser w) \<longleftrightarrow> s \<in> set (sessions w k) \<and> sk_serial k = ser"
  by (auto simp: serial_sessions_def sessions_mem [OF assms])


lemma table_okD:
  assumes "table_ok w" "s \<in> set (sessions w k)"
  shows "s < w_nextSession w" "keyed w s k" "ms_maxRealms (w_session w s) = sk_maxRealms k" "1 \<le> sk_maxRealms k"
  using assms unfolding table_ok_def keyed_def by blast+

lemma same_client:
  "table_ok w \<Longrightarrow> s < w_nextSession w \<Longrightarrow> s' < w_nextSession w \<Longrightarrow>
    ms_client (w_session w s) = ms_client (w_session w s') \<Longrightarrow> s = s'"
  by (simp add: table_ok_def inj_on_def)

section \<open>Taking sessions off the list\<close>

definition delists :: "world \<Rightarrow> world \<Rightarrow> bool" where
  "delists w w' \<longleftrightarrow>
     (\<exists>m f cs. w' = w\<lparr>w_manager := m, w_armed := filter f (w_armed w), w_closing := cs @ w_closing w\<rparr>) \<and>
     sm_inflight (w_manager w') = sm_inflight (w_manager w) \<and> (sm_closed (w_manager w) \<longrightarrow> sm_closed (w_manager w')) \<and>
     (sm_closed (w_manager w') \<longrightarrow> sm_sessions (w_manager w') = []) \<and> distinct (map fst (sm_sessions (w_manager w'))) \<and>
     (\<forall>k. subseq (sessions w' k) (sessions w k)) \<and>
     (\<forall>k s. s \<in> set (sessions w k) \<longrightarrow> s \<notin> set (sessions w' k) \<longrightarrow>
        client_closed w (ms_client (w_session w s)) \<or> ms_client (w_session w s) \<in> set (w_closing w')) \<and>
     (\<forall>c \<in> set (w_closing w'). c \<in> set (w_closing w) \<or>
        (\<exists>k s. s \<in> set (sessions w k) \<and> s \<notin> set (sessions w' k) \<and> ms_client (w_session w s) = c)) \<and>
     (\<forall>e \<in> set (w_armed w). e \<notin> set (w_armed w') \<longrightarrow>
        (\<exists>s < w_nextSession w. ms_idleTimer (w_session w s) = Some (fst e) \<and> (\<forall>k. s \<notin> set (sessions w' k))))"

lemma delists_sub:
  assumes "delists w w'"
  shows "set (sessions w' k) \<subseteq> set (sessions w k)" "length (sessions w' k) \<le> length (sessions w k)"
    "distinct (sessions w k) \<Longrightarrow> distinct (sessions w' k)"
proof -
  have "subseq (sessions w' k) (sessions w k)" using assms unfolding delists_def by blast
  then obtain ns where "sessions w' k = nths (sessions w k) ns" using subseq_conv_nths by blast
  then show "set (sessions w' k) \<subseteq> set (sessions w k)" "length (sessions w' k) \<le> length (sessions w k)"
    "distinct (sessions w k) \<Longrightarrow> distinct (sessions w' k)"
    using list_emb_length [OF \<open>subseq (sessions w' k) (sessions w k)\<close>] by (auto simp: set_nths_subset intro: distinct_nthsI)
qed

lemma delists_frame:
  assumes "delists w w'"
  shows "w_session w' = w_session w" "w_nextSession w' = w_nextSession w" "w_client w' = w_client w"
    "w_nextClient w' = w_nextClient w" "w_fired w' = w_fired w" "w_nextTimer w' = w_nextTimer w"
    "w_onClose w' = w_onClose w" "w_forgets w' = w_forgets w" "w_held w' = w_held w" "w_procs w' = w_procs w"
    "sm_inflight (w_manager w') = sm_inflight (w_manager w)" "set (w_armed w') \<subseteq> set (w_armed w)"
    "w_inflight w' = w_inflight w" "w_nextInflight w' = w_nextInflight w" "w_now w' = w_now w"
    "set (w_closing w) \<subseteq> set (w_closing w')" "distinct (map fst (w_armed w)) \<Longrightarrow> distinct (map fst (w_armed w'))"
proof -
  obtain m f cs where w': "w' = w\<lparr>w_manager := m, w_armed := filter f (w_armed w), w_closing := cs @ w_closing w\<rparr>"
    "sm_inflight (w_manager w') = sm_inflight (w_manager w)"
    using assms unfolding delists_def by blast
  then show "w_session w' = w_session w" "w_nextSession w' = w_nextSession w" "w_client w' = w_client w"
    "w_nextClient w' = w_nextClient w" "w_fired w' = w_fired w" "w_nextTimer w' = w_nextTimer w"
    "w_onClose w' = w_onClose w" "w_forgets w' = w_forgets w" "w_held w' = w_held w" "w_procs w' = w_procs w"
    "sm_inflight (w_manager w') = sm_inflight (w_manager w)" "set (w_armed w') \<subseteq> set (w_armed w)"
    "w_inflight w' = w_inflight w" "w_nextInflight w' = w_nextInflight w" "w_now w' = w_now w"
    "set (w_closing w) \<subseteq> set (w_closing w')" "distinct (map fst (w_armed w)) \<Longrightarrow> distinct (map fst (w_armed w'))"
    by (auto simp: distinct_map_filter)
qed

lemma delistsD:
  assumes "delists w w'"
  shows "sm_closed (w_manager w) \<Longrightarrow> sm_closed (w_manager w')" "sm_closed (w_manager w') \<Longrightarrow> sm_sessions (w_manager w') = []"
    "distinct (map fst (sm_sessions (w_manager w')))"
    "s \<in> set (sessions w k) \<Longrightarrow> s \<notin> set (sessions w' k) \<Longrightarrow>
       client_closed w (ms_client (w_session w s)) \<or> ms_client (w_session w s) \<in> set (w_closing w')"
    "c \<in> set (w_closing w') \<Longrightarrow> c \<in> set (w_closing w) \<or>
        (\<exists>k s. s \<in> set (sessions w k) \<and> s \<notin> set (sessions w' k) \<and> ms_client (w_session w s) = c)"
    "e \<in> set (w_armed w) \<Longrightarrow> e \<notin> set (w_armed w') \<Longrightarrow>
        \<exists>s < w_nextSession w. ms_idleTimer (w_session w s) = Some (fst e) \<and> (\<forall>k. s \<notin> set (sessions w' k))"
  using assms unfolding delists_def by blast+

lemma delists_table:
  assumes "table_ok w" "delists w w'"
  shows "table_ok w'"
proof -
  note fr = delists_frame [OF assms(2)] and sub = delists_sub [OF assms(2)] and d = delistsD [OF assms(2)]
  have "s \<in> set (sessions w' k) \<Longrightarrow> s \<in> set (sessions w k)" for s k using sub(1) by blast
  then show ?thesis using assms(1) sub(3) d(2,3) unfolding table_ok_def fr by metis
qed

lemma delists_count: "count_ok w \<Longrightarrow> delists w w' \<Longrightarrow> count_ok w'"
  using delists_sub(1) [of w w'] delists_frame [of w w'] by (simp add: count_ok_def holders_def) blast

lemma delists_keyed: "keyed w s k \<Longrightarrow> delists w w' \<Longrightarrow> keyed w' s k"
  using delists_sub(1) [of w w'] by (auto simp: keyed_def)

lemma delists_callback:
  assumes "callback_ok w" "delists w w'"
  shows "callback_ok w'"
proof -
  note fr = delists_frame [OF assms(2)]
  have "watched w' = watched w" "proc publishes w' = proc publishes w"
    by (simp_all add: watched_def proc_def fr fun_eq_iff)
  then show ?thesis
    using assms(1) delists_sub(1) [OF assms(2)] delists_keyed [OF _ assms(2)] unfolding callback_ok_def fr by (simp add: subset_iff)
qed

lemma delists_flight:
  assumes "flight_ok w" "delists w w'"
  shows "flight_ok w'"
proof -
  note fr = delists_frame [OF assms(2)] and sub = delists_sub [OF assms(2)]
  have "proc connecting w' = proc connecting w" by (simp add: proc_def fr fun_eq_iff)
  moreover have "length (sessions w' k) \<le> 1" if "length (sessions w k) \<le> 1" for k using that sub(2) [of k] by simp
  moreover have "sessions w' k = []" if "sessions w k = []" for k using that sub(1) [of k] by simp
  ultimately show ?thesis using assms(1) unfolding flight_ok_def fr by simp
qed

lemma delists_timer:
  assumes "timer_ok w" "delists w w'"
  shows "timer_ok w'"
proof -
  note sub = delists_sub(1) [OF assms(2)] and fr = delists_frame [OF assms(2)]
  have keep: "ticking w' t k s"
    if s: "s \<in> set (sessions w' k)" "ms_idleTimer (w_session w s) = Some t" "ticking w t k s" for k s t
  proof -
    have "(t, due, k, s) \<in> set (w_armed w')" if "(t, due, k, s) \<in> set (w_armed w)" for due
    proof (rule ccontr)
      assume "(t, due, k, s) \<notin> set (w_armed w')"
      from delistsD(6) [OF assms(2) that this] obtain s0
        where "s0 < w_nextSession w" "ms_idleTimer (w_session w s0) = Some t" "s0 \<notin> set (sessions w' k)" by auto
      then show False using assms(1) that s(1) unfolding timer_ok_def by blast
    qed
    then show ?thesis using s(3) fr(5) by (auto simp: ticking_def)
  qed
  have "\<exists>t. ms_idleTimer (w_session w s) = Some t \<and> ticking w' t k s"
    if "s \<in> set (sessions w' k)" "ms_refCount (w_session w s) = 0" for k s
    using that keep [OF that(1)] sub [of k] assms(1) unfolding timer_ok_def by blast
  moreover have "\<forall>e \<in> set (w_armed w'). e \<in> set (w_armed w)" using fr(12) by blast
  ultimately show ?thesis using assms(1) fr(17) unfolding timer_ok_def fr(1,2,6) by (simp add: subset_iff) metis
qed

lemma delists_owned:
  assumes "owned_ok w" "delists w w'"
  shows "owned_ok w'"
proof -
  note fr = delists_frame [OF assms(2)]
  have "proc carries w' = proc carries w" by (simp add: proc_def fr fun_eq_iff)
  moreover have "client_closed w c \<or> c \<in> set (w_closing w') \<or> (\<exists>p. proc carries w p = Some c) \<or>
        (\<exists>k s. s \<in> set (sessions w' k) \<and> ms_client (w_session w s) = c)" if "c < w_nextClient w" for c
    using assms(1) that delistsD(4) [OF assms(2)] fr(16) unfolding owned_ok_def by blast
  ultimately show ?thesis using assms(1) unfolding owned_ok_def fr(1-4) by simp
qed

lemma delisted_client:
  assumes "table_ok w" "delists w w'" "s \<in> set (sessions w k)" "s \<notin> set (sessions w' k)" "s' \<in> set (sessions w' k')"
  shows "ms_client (w_session w s') \<noteq> ms_client (w_session w s)"
proof
  assume eq: "ms_client (w_session w s') = ms_client (w_session w s)"
  have s': "s' \<in> set (sessions w k')" using assms(5) delists_sub(1) [OF assms(2)] by blast
  then have "s' = s" using eq assms(1,3) unfolding table_ok_def inj_on_def by auto
  then show False using assms(3-5) s' assms(1) unfolding table_ok_def by metis
qed

lemma delists_closing:
  assumes "closing_ok w" "delists w w'" "table_ok w"
    and free: "\<And>k s. s \<in> set (sessions w k) \<Longrightarrow> s \<notin> set (sessions w' k) \<Longrightarrow> ms_client (w_session w s) \<in> set (w_closing w') \<Longrightarrow>
      \<not> sm_closed (w_manager w') \<Longrightarrow> holders w (ms_client (w_session w s)) = 0"
  shows "closing_ok w'"
proof -
  note sub = delists_sub(1) [OF assms(2)] and fr = delists_frame [OF assms(2)] and d = delistsD [OF assms(2)]
  have eq: "holders w' = holders w" by (simp add: holders_def fr fun_eq_iff)
  have "(\<exists>s < w_nextSession w. ms_client (w_session w s) = c) \<and> (\<not> sm_closed (w_manager w') \<longrightarrow> holders w c = 0 \<and>
      (\<forall>k s. s \<in> set (sessions w' k) \<longrightarrow> ms_client (w_session w s) \<noteq> c))" if c: "c \<in> set (w_closing w')" for c
  proof (cases "c \<in> set (w_closing w)")
    case True
    then show ?thesis using assms(1) d(1) sub unfolding closing_ok_def by blast
  next
    case False
    then obtain k s where s: "s \<in> set (sessions w k)" "s \<notin> set (sessions w' k)" "ms_client (w_session w s) = c"
      using d(5) [OF c] by blast
    have "s < w_nextSession w" using table_okD(1) [OF assms(3) s(1)] .
    then show ?thesis
      using free [OF s(1,2)] c delisted_client [OF assms(3,2) s(1,2)] unfolding s(3) by (auto simp: s(3))
  qed
  then show ?thesis unfolding closing_ok_def eq fr(1,2) by blast
qed

lemma delists_inv:
  assumes "manager_inv w" "delists w w'"
    and "\<And>k s. s \<in> set (sessions w k) \<Longrightarrow> s \<notin> set (sessions w' k) \<Longrightarrow> ms_client (w_session w s) \<in> set (w_closing w') \<Longrightarrow>
      \<not> sm_closed (w_manager w') \<Longrightarrow> holders w (ms_client (w_session w s)) = 0"
  shows "manager_inv w'"
  using assms delists_table delists_count delists_callback delists_flight delists_timer delists_owned delists_closing [of w w']
  unfolding manager_inv_def by blast

lemma not_listed_client:
  assumes "closing_ok w" "s \<in> set (sessions w k)" "\<not> sm_closed (w_manager w)"
  shows "ms_client (w_session w s) \<notin> set (w_closing w)"
  using assms unfolding closing_ok_def by blast

text \<open>The operations that take sessions off the list.\<close>

lemma delists_set:
  assumes "table_ok w" "subseq l (sessions w key)"
    "w' = set_sessions key l (w\<lparr>w_armed := filter f (w_armed w), w_closing := cs @ w_closing w\<rparr>)"
    "\<And>s. s \<in> set (sessions w key) \<Longrightarrow> s \<notin> set l \<Longrightarrow>
       client_closed w (ms_client (w_session w s)) \<or> ms_client (w_session w s) \<in> set cs"
    "\<And>c. c \<in> set cs \<Longrightarrow> \<exists>s \<in> set (sessions w key) - set l. ms_client (w_session w s) = c"
    "\<And>e. e \<in> set (w_armed w) \<Longrightarrow> \<not> f e \<Longrightarrow>
       \<exists>s < w_nextSession w. ms_idleTimer (w_session w s) = Some (fst e) \<and> keyed w s key \<and> s \<notin> set l"
  shows "delists w w'"
proof -
  have se: "sessions w' k = (if k = key then l else sessions w k)" for k by (simp add: assms(3))
  have "sm_closed (w_manager w) \<Longrightarrow> l = []" using assms(1,2) by (simp add: table_ok_def sessions_def)
  then have cl: "sm_closed (w_manager w') \<Longrightarrow> sm_sessions (w_manager w') = []"
    using assms(1) by (simp add: assms(3) table_ok_def set_sessions_def)
  have "\<exists>m f cs. w' = w\<lparr>w_manager := m, w_armed := filter f (w_armed w), w_closing := cs @ w_closing w\<rparr>"
    by (rule exI [of _ "w_manager w'"], rule exI [of _ f], rule exI [of _ cs]) (simp add: assms(3) set_sessions_def)
  moreover have "distinct (map fst (sm_sessions (w_manager w')))"
    using assms(1) by (simp add: assms(3) distinct_set_sessions table_ok_def)
  moreover have "\<exists>s < w_nextSession w. ms_idleTimer (w_session w s) = Some (fst e) \<and> (\<forall>k. s \<notin> set (sessions w' k))"
    if e: "e \<in> set (w_armed w)" "e \<notin> set (w_armed w')" for e
  proof -
    have "\<not> f e" using e by (simp add: assms(3))
    then obtain s where "s < w_nextSession w" "ms_idleTimer (w_session w s) = Some (fst e)" "keyed w s key" "s \<notin> set l"
      using assms(6) [OF e(1)] by blast
    then show ?thesis by (auto simp: se keyed_def)
  qed
  moreover have same: "sm_inflight (w_manager w') = sm_inflight (w_manager w)" "sm_closed (w_manager w') = sm_closed (w_manager w)"
    "w_closing w' = cs @ w_closing w" by (simp_all add: assms(3))
  moreover have "\<forall>k s. s \<in> set (sessions w k) \<longrightarrow> s \<notin> set (sessions w' k) \<longrightarrow>
        client_closed w (ms_client (w_session w s)) \<or> ms_client (w_session w s) \<in> set (w_closing w')"
    using assms(4) unfolding se same(3) by (simp split: if_splits) blast
  moreover have "\<exists>k s. s \<in> set (sessions w k) \<and> s \<notin> set (sessions w' k) \<and> ms_client (w_session w s) = c"
    if "c \<in> set (w_closing w')" "c \<notin> set (w_closing w)" for c
  proof -
    have "c \<in> set cs" using that by (simp add: same)
    from assms(5) [OF this] show ?thesis by (intro exI [of _ key]) (auto simp: se)
  qed
  moreover have "subseq (sessions w' k) (sessions w k)" for k using assms(2) by (simp add: se)
  ultimately show ?thesis using cl unfolding delists_def by blast
qed

lemma findAvailableSession_delists:
  assumes "table_ok w" "findAvailableSession key w = (r, w')"
  shows "delists w w'" "w_closing w' = w_closing w" "w_manager w' = w_manager (set_sessions key (sessions w' key) w)"
proof -
  let ?live = "filter (\<lambda>s. \<not> Client_IsClosed (session_client w s)) (sessions w key)"
  let ?dead = "filter (\<lambda>s. Client_IsClosed (session_client w s)) (sessions w key)"
  let ?f = "\<lambda>e. \<forall>s \<in> set ?dead. ms_idleTimer (w_session w s) \<noteq> Some (fst e)"
  have w': "w' = set_sessions key ?live (w\<lparr>w_armed := filter ?f (w_armed w)\<rparr>)"
    using assms(2) by (simp add: findAvailableSession_def Let_def fold_stop_idle)
  show "delists w w'"
  proof (rule delists_set [OF assms(1), where f = ?f and cs = "[]"])
    show "w' = set_sessions key ?live (w\<lparr>w_armed := filter ?f (w_armed w), w_closing := [] @ w_closing w\<rparr>)" by (simp add: w')
    show "\<exists>s < w_nextSession w. ms_idleTimer (w_session w s) = Some (fst e) \<and> keyed w s key \<and> s \<notin> set ?live" if f: "\<not> ?f e" for e
    proof -
      obtain s where s: "s \<in> set ?dead" "ms_idleTimer (w_session w s) = Some (fst e)" using f by blast
      then have "s \<in> set (sessions w key)" by simp
      from table_okD(1,2) [OF assms(1) this] s show ?thesis by auto
    qed
  qed (auto simp: session_client_def client_defs)
  show "w_closing w' = w_closing w" by (simp add: w')
  show "w_manager w' = w_manager (set_sessions key (sessions w' key) w)" by (simp add: w') (simp add: set_sessions_def)
qed

lemma subseq_remove1: "subseq (remove1 x xs) xs"
  by (induction xs) auto

lemma forget_delists:
  assumes "table_ok w" "s < w_nextSession w" "keyed w s key" "client_closed w (ms_client (w_session w s))"
  shows "delists w (forget key s w)" "w_closing (forget key s w) = w_closing w"
proof -
  let ?f = "\<lambda>e. ms_idleTimer (w_session w s) \<noteq> Some (fst e)"
  have w': "forget key s w = set_sessions key (remove1 s (sessions w key)) (w\<lparr>w_armed := filter ?f (w_armed w)\<rparr>)"
    by (simp add: forget_def Let_def stop_idle_eq)
  have d: "distinct (sessions w key)" using assms(1) by (simp add: table_ok_def)
  show "delists w (forget key s w)"
    by (rule delists_set [OF assms(1) subseq_remove1, where f = ?f and cs = "[]"]) (use assms(2-4) d in \<open>auto simp: w'\<close>)
  show "w_closing (forget key s w) = w_closing w" by (simp add: w')
qed

lemma idle_delists:
  assumes "table_ok w" "s \<in> set (sessions w key)" "ms_refCount (w_session w s) \<le> 0"
  shows "delists w (idle_callback key s w)" "w_closing (idle_callback key s w) = ms_client (w_session w s) # w_closing w"
    "sessions (idle_callback key s w) key = remove1 s (sessions w key)"
proof -
  let ?c = "ms_client (w_session w s)"
  have w': "idle_callback key s w = set_sessions key (remove1 s (sessions w key)) (w\<lparr>w_closing := [?c] @ w_closing w\<rparr>)"
    using assms(2,3) by (simp add: idle_callback_def set_sessions_def)
  have d: "distinct (sessions w key)" using assms(1) by (simp add: table_ok_def)
  show "delists w (idle_callback key s w)"
    by (rule delists_set [OF assms(1) subseq_remove1, where f = "\<lambda>_. True" and cs = "[?c]"]) (use assms(2) d in \<open>auto simp: w'\<close>)
  show "w_closing (idle_callback key s w) = ?c # w_closing w" "sessions (idle_callback key s w) key = remove1 s (sessions w key)"
    by (simp_all add: w')
qed

lemma CloseAll_delists:
  assumes "table_ok w"
  shows "delists w (CloseAll w)" "sm_closed (w_manager (CloseAll w))"
proof -
  let ?all = "concat (map snd (sm_sessions (w_manager w)))"
  let ?f = "\<lambda>e. \<forall>s \<in> set ?all. ms_idleTimer (w_session w s) \<noteq> Some (fst e)"
  have w': "CloseAll w = w\<lparr>w_manager := (w_manager w)\<lparr>sm_closed := True, sm_sessions := []\<rparr>, w_armed := filter ?f (w_armed w),
      w_closing := map (\<lambda>s. ms_client (w_session w s)) ?all @ w_closing w\<rparr>"
    by (simp add: CloseAll_def Let_def fold_stop_idle)
  have all: "s \<in> set ?all \<longleftrightarrow> (\<exists>k. s \<in> set (sessions w k))" for s
  proof -
    have "distinct (map fst (sm_sessions (w_manager w)))" using assms by (simp add: table_ok_def)
    then show ?thesis by (force simp: sessions_mem)
  qed
  have se: "sessions (CloseAll w) k = []" for k by (simp add: w' sessions_def)
  have "\<exists>s < w_nextSession w. ms_idleTimer (w_session w s) = Some (fst e)"
    if "e \<in> set (w_armed w)" "e \<notin> set (w_armed (CloseAll w))" for e
    using that all table_okD(1) [OF assms] by (simp add: w') blast
  moreover have "\<exists>m f cs. CloseAll w = w\<lparr>w_manager := m, w_armed := filter f (w_armed w), w_closing := cs @ w_closing w\<rparr>"
    unfolding w' by blast
  moreover have "c \<in> set (w_closing (CloseAll w)) \<longleftrightarrow> c \<in> set (w_closing w) \<or>
      (\<exists>k s. s \<in> set (sessions w k) \<and> ms_client (w_session w s) = c)" for c
  proof -
    have "c \<in> set (w_closing (CloseAll w)) \<longleftrightarrow> c \<in> set (w_closing w) \<or> (\<exists>s \<in> set ?all. ms_client (w_session w s) = c)"
      by (auto simp: w' simp del: set_concat)
    then show ?thesis using all by blast
  qed
  moreover have "sm_inflight (w_manager (CloseAll w)) = sm_inflight (w_manager w)" "sm_sessions (w_manager (CloseAll w)) = []"
    "sm_closed (w_manager (CloseAll w))"
    by (simp_all add: w')
  ultimately show "delists w (CloseAll w)" unfolding delists_def se by simp blast
  show "sm_closed (w_manager (CloseAll w))" by (simp add: w')
qed

section \<open>Where the goroutines stand\<close>

lemma callback_okD:
  assumes "callback_ok w"
  shows "s \<in> set (sessions w k) \<Longrightarrow> (\<exists>p. proc publishes w p = Some (k, s)) \<or> watched w k s"
    "(k, s) \<in> set (w_forgets w) \<Longrightarrow> s < w_nextSession w \<and> client_closed w (ms_client (w_session w s)) \<and> keyed w s k"
    "w_onClose w c = Some (k, s) \<Longrightarrow> s < w_nextSession w \<and> ms_client (w_session w s) = c \<and> keyed w s k"
    "w_procs w p = Some (AcqPublish cfg flight c s) \<Longrightarrow>
       s < w_nextSession w \<and> ms_client (w_session w s) = c \<and> keyed w s (sessionKeyFor cfg)"
    "c < w_nextClient w \<Longrightarrow> dial_reachable (cl_tunnel (w_client w c))"
  using assms unfolding callback_ok_def by blast+

lemma flight_okD:
  assumes "flight_ok w"
  shows "proc connecting w p = Some (k, f) \<Longrightarrow> map_of (sm_inflight (w_manager w)) k = Some f"
    "proc connecting w p = Some (k, f) \<Longrightarrow> proc connecting w q = Some (k, f') \<Longrightarrow> p = q"
    "sk_p2pPort k \<noteq> 0 \<Longrightarrow> length (sessions w k) \<le> 1"
    "sk_p2pPort k \<noteq> 0 \<Longrightarrow> map_of (sm_inflight (w_manager w)) k \<noteq> None \<Longrightarrow> sessions w k = []"
  using assms unfolding flight_ok_def by blast+

lemma owned_okD:
  assumes "owned_ok w"
  shows "proc carries w p = Some c \<Longrightarrow> c < w_nextClient w"
    "proc carries w p = Some c \<Longrightarrow> s < w_nextSession w \<Longrightarrow> ms_client (w_session w s) \<noteq> c"
    "proc carries w p = Some c \<Longrightarrow> proc carries w q = Some c \<Longrightarrow> p = q"
    "c < w_nextClient w \<Longrightarrow> client_closed w c \<or> c \<in> set (w_closing w) \<or> (\<exists>p. proc carries w p = Some c) \<or>
        (\<exists>k s. s \<in> set (sessions w k) \<and> ms_client (w_session w s) = c)"
  using assms unfolding owned_ok_def by blast+

lemma closing_okD:
  assumes "closing_ok w" "c \<in> set (w_closing w)"
  shows "\<exists>s < w_nextSession w. ms_client (w_session w s) = c"
    "\<not> sm_closed (w_manager w) \<Longrightarrow> holders w c = 0"
    "\<not> sm_closed (w_manager w) \<Longrightarrow> s \<in> set (sessions w k) \<Longrightarrow> ms_client (w_session w s) \<noteq> c"
  using assms unfolding closing_ok_def by blast+

lemma proc_upd [simp]:
  "proc f (w\<lparr>w_procs := (w_procs w)(p \<mapsto> pc)\<rparr>) q = (if q = p then f pc else proc f w q)"
  by (simp add: proc_def)

lemma proc_at: "w_procs w p = Some pc \<Longrightarrow> proc f w p = f pc"
  by (simp add: proc_def)

lemma procs_frame:
  fixes w P
  defines "w' \<equiv> w\<lparr>w_procs := P\<rparr>"
  shows "table_ok w' = table_ok w" "count_ok w' = count_ok w" "timer_ok w' = timer_ok w" "closing_ok w' = closing_ok w"
    "watched w' = watched w" "keyed w' = keyed w" "holders w' = holders w"
  by (simp_all add: w'_def table_ok_def count_ok_def timer_ok_def closing_ok_def holders_def ticking_def watched_def keyed_def fun_eq_iff)

lemma procs_callback:
  assumes "callback_ok w" "publishes pc = None" "\<And>k s. proc publishes w p = Some (k, s) \<Longrightarrow> s \<in> set (sessions w k) \<Longrightarrow> watched w k s"
  shows "callback_ok (w\<lparr>w_procs := (w_procs w)(p \<mapsto> pc)\<rparr>)"
proof -
  let ?w = "w\<lparr>w_procs := (w_procs w)(p \<mapsto> pc)\<rparr>"
  have pub: "pc \<noteq> AcqPublish cfg fl c s" for cfg fl c s using assms(2) by auto
  have "(\<exists>q. proc publishes ?w q = Some (k, s)) \<or> watched w k s" if s: "s \<in> set (sessions ?w k)" for k s
  proof (cases "\<exists>q. proc publishes w q = Some (k, s)")
    case True
    then obtain q where "proc publishes w q = Some (k, s)" by blast
    then show ?thesis using assms(3) [of k s] s by (cases "q = p") auto
  next
    case False
    then show ?thesis using callback_okD(1) [OF assms(1), of s k] s by simp
  qed
  moreover have "w_procs w q = Some (AcqPublish cfg fl c s)" if "w_procs ?w q = Some (AcqPublish cfg fl c s)" for q cfg fl c s
    using that pub by (auto split: if_splits)
  moreover have fr: "w_forgets ?w = w_forgets w" "w_onClose ?w = w_onClose w" "w_client ?w = w_client w" "w_session ?w = w_session w"
    "w_nextSession ?w = w_nextSession w" "w_nextClient ?w = w_nextClient w" by simp_all
  ultimately show ?thesis using callback_okD(2-5) [OF assms(1)] unfolding callback_ok_def procs_frame fr by blast
qed

lemma procs_owned:
  assumes "owned_ok w" "carries pc = proc carries w p \<or> carries pc = None \<and> (\<forall>c. proc carries w p = Some c \<longrightarrow> client_closed w c)"
  shows "owned_ok (w\<lparr>w_procs := (w_procs w)(p \<mapsto> pc)\<rparr>)"
proof -
  let ?w = "w\<lparr>w_procs := (w_procs w)(p \<mapsto> pc)\<rparr>"
  note o = owned_okD [OF assms(1)]
  have sub: "proc carries w q = Some c" if "proc carries ?w q = Some c" for q c using that assms(2) by (auto split: if_splits)
  have "client_closed w c \<or> (\<exists>q. proc carries ?w q = Some c)" if "proc carries w q = Some c" for q c
    using that assms(2) by (cases "q = p") auto
  then have "client_closed w c \<or> c \<in> set (w_closing w) \<or> (\<exists>p. proc carries ?w p = Some c) \<or>
        (\<exists>k s. s \<in> set (sessions w k) \<and> ms_client (w_session w s) = c)" if "c < w_nextClient w" for c
    using o(4) [OF that] by blast
  moreover have fr: "w_closing ?w = w_closing w" "w_client ?w = w_client w" "w_session ?w = w_session w" "sessions ?w = sessions w"
    "w_nextSession ?w = w_nextSession w" "w_nextClient ?w = w_nextClient w" by simp_all
  ultimately show ?thesis using o(1-3) sub unfolding owned_ok_def fr by blast
qed

lemma procs_inv:
  assumes "manager_inv w" "connecting pc = None \<or> connecting pc = proc connecting w p"
    "carries pc = proc carries w p \<or> carries pc = None \<and> (\<forall>c. proc carries w p = Some c \<longrightarrow> client_closed w c)"
    "publishes pc = None" "\<And>k s. proc publishes w p = Some (k, s) \<Longrightarrow> s \<in> set (sessions w k) \<Longrightarrow> watched w k s"
  shows "manager_inv (w\<lparr>w_procs := (w_procs w)(p \<mapsto> pc)\<rparr>)"
proof -
  have "flight_ok w" using assms(1) by (simp add: manager_inv_def)
  then have "flight_ok (w\<lparr>w_procs := (w_procs w)(p \<mapsto> pc)\<rparr>)"
  proof -
    let ?w = "w\<lparr>w_procs := (w_procs w)(p \<mapsto> pc)\<rparr>"
    have "proc connecting w q = Some x" if "proc connecting ?w q = Some x" for q x using that assms(2) by (auto split: if_splits)
    moreover have fr: "w_manager ?w = w_manager w" "sessions ?w = sessions w" by simp_all
    ultimately show ?thesis using flight_okD [OF \<open>flight_ok w\<close>] unfolding flight_ok_def fr by blast
  qed
  then show ?thesis
    using assms procs_callback [of w pc p] procs_owned [of w pc p] unfolding manager_inv_def procs_frame by blast
qed

lemma inflight_store_inv [simp]: "manager_inv (w\<lparr>w_inflight := i\<rparr>) = manager_inv w"
  "manager_inv (w\<lparr>w_nextInflight := n\<rparr>) = manager_inv w" "manager_inv (w\<lparr>w_now := d\<rparr>) = manager_inv w"
  by (simp_all add: manager_inv_def table_ok_def count_ok_def timer_ok_def closing_ok_def holders_def ticking_def watched_def
      keyed_def callback_ok_def flight_ok_def owned_ok_def proc_def)

lemma inflight_procs_inv [simp]:
  "manager_inv (w\<lparr>w_inflight := i, w_procs := P\<rparr>) = manager_inv (w\<lparr>w_procs := P\<rparr>)"
proof -
  have "w\<lparr>w_inflight := i, w_procs := P\<rparr> = (w\<lparr>w_procs := P\<rparr>)\<lparr>w_inflight := i\<rparr>" by simp
  then show ?thesis by (simp only: inflight_store_inv)
qed

lemma flights_frame:
  fixes w l
  defines "w' \<equiv> w\<lparr>w_manager := (w_manager w)\<lparr>sm_inflight := l\<rparr>\<rparr>"
  shows "sessions w' = sessions w" "table_ok w' = table_ok w" "count_ok w' = count_ok w" "timer_ok w' = timer_ok w"
    "closing_ok w' = closing_ok w" "callback_ok w' = callback_ok w" "owned_ok w' = owned_ok w"
proof -
  show se: "sessions w' = sessions w" by (simp add: w'_def)
  show "table_ok w' = table_ok w" "count_ok w' = count_ok w" "timer_ok w' = timer_ok w"
    "closing_ok w' = closing_ok w" "callback_ok w' = callback_ok w" "owned_ok w' = owned_ok w"
    by (simp_all add: w'_def table_ok_def count_ok_def timer_ok_def closing_ok_def holders_def ticking_def watched_def
        keyed_def callback_ok_def owned_ok_def proc_def)
qed

lemma flight_delete_inv:
  assumes "manager_inv w" "\<And>p f. proc connecting w p \<noteq> Some (key, f)"
  shows "manager_inv (w\<lparr>w_manager := (w_manager w)\<lparr>sm_inflight := AList.delete key (sm_inflight (w_manager w))\<rparr>\<rparr>)"
    (is "manager_inv ?w")
proof -
  have "flight_ok w" using assms(1) by (simp add: manager_inv_def)
  note f = flight_okD [OF this]
  have pr: "proc connecting ?w = proc connecting w" by (simp add: proc_def fun_eq_iff)
  have "map_of (sm_inflight (w_manager ?w)) k = (if k = key then None else map_of (sm_inflight (w_manager w)) k)" for k
    by (simp add: delete_conv' restrict_map_def)
  then have "flight_ok ?w"
    using assms(2) f unfolding flight_ok_def flights_frame pr by auto
  then show ?thesis using assms(1) unfolding manager_inv_def flights_frame by blast
qed

lemma flight_start_inv:
  assumes "manager_inv w" "w_procs w p = Some (AcqStart cfg)" "map_of (sm_inflight (w_manager w)) (sessionKeyFor cfg) = None"
    "sk_p2pPort (sessionKeyFor cfg) \<noteq> 0 \<Longrightarrow> sessions w (sessionKeyFor cfg) = []"
  shows "manager_inv (w\<lparr>w_manager := (w_manager w)\<lparr>sm_inflight := AList.update (sessionKeyFor cfg) f (sm_inflight (w_manager w))\<rparr>,
    w_procs := (w_procs w)(p \<mapsto> AcqConnect cfg f)\<rparr>)" (is "manager_inv ?w")
proof -
  let ?k = "sessionKeyFor cfg"
  let ?P = "(w_procs w)(p \<mapsto> AcqConnect cfg f)"
  let ?u = "w\<lparr>w_procs := ?P\<rparr>"
  have w: "?w = ?u\<lparr>w_manager := (w_manager ?u)\<lparr>sm_inflight := AList.update ?k f (sm_inflight (w_manager w))\<rparr>\<rparr>" by simp
  have "flight_ok w" using assms(1) by (simp add: manager_inv_def)
  note fl = flight_okD [OF this]
  have no: "proc connecting w q \<noteq> Some (?k, g)" for q g using fl(1) [of q ?k g] assms(3) by auto
  have pr: "proc connecting ?w q = (if q = p then Some (?k, f) else proc connecting w q)" for q by (simp add: proc_def)
  have "map_of (sm_inflight (w_manager ?w)) k = (if k = ?k then Some f else map_of (sm_inflight (w_manager w)) k)" for k
    by (simp add: update_conv')
  moreover have "sessions ?w = sessions w" by simp
  ultimately have "flight_ok ?w"
    using no assms(4) fl unfolding flight_ok_def pr by (auto split: if_splits)
  moreover have "callback_ok ?u" "owned_ok ?u"
    using assms(1,2) procs_callback [of w "AcqConnect cfg f" p] procs_owned [of w "AcqConnect cfg f" p]
    by (simp_all add: manager_inv_def proc_def)
  moreover have "table_ok ?u \<and> count_ok ?u \<and> timer_ok ?u \<and> closing_ok ?u"
    using assms(1) unfolding manager_inv_def procs_frame by simp
  ultimately show ?thesis unfolding manager_inv_def w flights_frame by simp
qed


section \<open>Clients that move on\<close>

primrec option_list :: "'a option \<Rightarrow> 'a list" where
  "option_list None = []"
| "option_list (Some x) = [x]"

lemma option_list_mem [simp]: "x \<in> set (option_list y) \<longleftrightarrow> y = Some x"
  by (induction y) auto

definition callbacks :: "client_ref \<Rightarrow> Client \<Rightarrow> world \<Rightarrow> (sessionKey \<times> session_ref) list" where
  "callbacks c cl w =
     option_list (if tn_onCloseRuns (tunnel_of (w_client w c)) < tn_onCloseRuns (tunnel_of cl) then w_onClose w c else None)"

lemma callbacks_mem:
  "x \<in> set (callbacks c cl w) \<longleftrightarrow>
     tn_onCloseRuns (tunnel_of (w_client w c)) < tn_onCloseRuns (tunnel_of cl) \<and> w_onClose w c = Some x"
  by (simp add: callbacks_def)

lemma client_moves_eq:
  "client_moves c cl w = w\<lparr>w_client := (w_client w)(c := cl), w_forgets := callbacks c cl w @ w_forgets w\<rparr>"
  by (simp add: client_moves_def callbacks_def Let_def split: option.split)

lemma clients_frame:
  fixes w C F
  defines "w' \<equiv> w\<lparr>w_client := C, w_forgets := F\<rparr>"
  shows "table_ok w' = table_ok w" "count_ok w' = count_ok w" "timer_ok w' = timer_ok w" "closing_ok w' = closing_ok w"
    "flight_ok w' = flight_ok w" "keyed w' = keyed w" "proc f w' = proc f w" "sessions w' = sessions w"
  by (simp_all add: w'_def table_ok_def count_ok_def timer_ok_def closing_ok_def flight_ok_def proc_def
      holders_def ticking_def keyed_def fun_eq_iff)

lemma watched_iff:
  "watched w k s \<longleftrightarrow> client_closed w (ms_client (w_session w s)) \<and> (k, s) \<in> set (w_forgets w) \<or>
     \<not> client_closed w (ms_client (w_session w s)) \<and> w_onClose w (ms_client (w_session w s)) = Some (k, s) \<and>
       tn_onClose (tunnel_of (w_client w (ms_client (w_session w s))))"
  by (simp add: watched_def Let_def)

lemma advances_onClose:
  assumes "advances t t'"
  shows "tn_onClose t \<Longrightarrow> tn_onClose t'" "\<not> tn_closed t' \<Longrightarrow> tn_onCloseRuns t' = tn_onCloseRuns t"
    "\<not> tn_closed t \<Longrightarrow> tn_closed t' \<Longrightarrow> tn_onClose t \<Longrightarrow> tn_onCloseRuns t < tn_onCloseRuns t'"
  using assms by (simp_all add: advances_def)

lemma client_moves_inv:
  assumes "manager_inv w" "dial_reachable (cl_tunnel cl)" and adv: "advances (tunnel_of (w_client w c)) (tunnel_of cl)"
  shows "manager_inv (client_moves c cl w)" (is "manager_inv ?w")
proof -
  let ?t = "tunnel_of (w_client w c)" and ?t' = "tunnel_of cl"
  have inv: "callback_ok w" "owned_ok w" using assms(1) by (simp_all add: manager_inv_def)
  note cb = callback_okD [OF inv(1)]
  have fr: "w_client ?w = (w_client w)(c := cl)" "w_forgets ?w = callbacks c cl w @ w_forgets w" "w_onClose ?w = w_onClose w"
    "w_session ?w = w_session w" "w_nextSession ?w = w_nextSession w" "w_nextClient ?w = w_nextClient w" "w_procs ?w = w_procs w"
    "w_closing ?w = w_closing w" "sessions ?w = sessions w" "proc publishes ?w = proc publishes w"
    "proc carries ?w = proc carries w" "keyed ?w = keyed w"
    by (simp_all add: client_moves_eq proc_def keyed_def fun_eq_iff)
  have mono: "client_closed ?w d" if "client_closed w d" for d
    using that advancesD(1) [OF adv] by (cases "d = c") (simp_all add: fr)
  have ran: "tn_closed ?t' \<and> w_onClose w c = Some x" if "x \<in> set (callbacks c cl w)" for x
    using that advances_onClose(2) [OF adv] by (auto simp: callbacks_mem)
  have "watched ?w k s" if "watched w k s" for k s
  proof (cases "ms_client (w_session w s) = c")
    case True
    with that advancesD(1) [OF adv] advances_onClose [OF adv] show ?thesis by (auto simp: watched_iff fr callbacks_mem)
  next
    case False
    with that show ?thesis by (auto simp: watched_iff fr)
  qed
  then have 1: "(\<exists>p. proc publishes w p = Some (k, s)) \<or> watched ?w k s" if "s \<in> set (sessions w k)" for k s
    using cb(1) [OF that] by blast
  have 2: "s < w_nextSession w \<and> client_closed ?w (ms_client (w_session w s)) \<and> keyed w s k" if x: "(k, s) \<in> set (w_forgets ?w)" for k s
  proof (cases "(k, s) \<in> set (w_forgets w)")
    case True
    then show ?thesis using cb(2) mono by blast
  next
    case False
    then have n: "(k, s) \<in> set (callbacks c cl w)" using x by (simp add: fr)
    from ran [OF n] cb(3) [of c k s] show ?thesis by (simp add: fr)
  qed
  have 3: "dial_reachable (cl_tunnel (w_client ?w d))" if "d < w_nextClient w" for d
    using cb(5) [OF that] assms(2) by (simp add: fr)
  have "callback_ok ?w" unfolding callback_ok_def fr(3-12) using 1 2 3 cb(3,4) by blast
  moreover have "owned_ok ?w" unfolding owned_ok_def fr(4-12) using owned_okD [OF inv(2)] mono by blast
  ultimately show ?thesis
    using assms(1) unfolding manager_inv_def client_moves_eq clients_frame by blast
qed

lemma closed_after_close:
  assumes "dial_reachable (cl_tunnel cl)"
  shows "tn_closed (tunnel_of (Client_Close now cl))" "advances (tunnel_of cl) (tunnel_of (Client_Close now cl))"
    "dial_reachable (cl_tunnel (Client_Close now cl))"
proof -
  have inv: "tunnel_inv (tunnel_of cl)" using reachable_dial [OF assms] dial_inv_tunnel by blast
  show "tn_closed (tunnel_of (Client_Close now cl))"
    using tunnel_invD(5) [OF inv]
    by (cases "tn_closed (tunnel_of cl)") (simp_all add: client_defs Tunnel_Close_closed Tunnel_Close_open Let_def)
  show "advances (tunnel_of cl) (tunnel_of (Client_Close now cl))"
    using close.moves_on [OF inv] by (simp add: client_defs)
  show "dial_reachable (cl_tunnel (Client_Close now cl))"
    using dial_reachable.step [OF assms dial_step.close] by (simp add: client_defs)
qed

lemma close_client_inv:
  assumes "manager_inv w" "c < w_nextClient w"
  shows "manager_inv (close_client c w)" "client_closed (close_client c w) c"
proof -
  have "dial_reachable (cl_tunnel (w_client w c))"
    using assms callback_okD(5) by (auto simp: manager_inv_def)
  note cl = closed_after_close [OF this, of "w_now w"]
  show "manager_inv (close_client c w)" unfolding close_client_def by (rule client_moves_inv [OF assms(1) cl(3,2)])
  show "client_closed (close_client c w) c" using cl(1) by (simp add: close_client_def client_moves_eq)
qed

lemma publish_inv:
  assumes "manager_inv w" "w_procs w p = Some (AcqPublish cfg flight c s)"
  shows "manager_inv ((Acquire_publish cfg flight c s w)\<lparr>w_procs := (w_procs w)(p \<mapsto> AcqReturned (Inr c))\<rparr>)"
proof -
  let ?k = "sessionKeyFor cfg"
  let ?u = "w\<lparr>w_onClose := (w_onClose w)(c := Some (?k, s))\<rparr>"
  let ?cl = "Client_SetOnClose (w_client w c)"
  let ?v = "client_moves c ?cl ?u"
  have inv: "callback_ok w" "table_ok w" using assms(1) by (simp_all add: manager_inv_def)
  note cb = callback_okD [OF inv(1)]
  have s: "s < w_nextSession w" "ms_client (w_session w s) = c" "keyed w s ?k" using cb(4) [OF assms(2)] by blast+
  have c: "c < w_nextClient w" using inv(2) s by (auto simp: table_ok_def)
  have re: "dial_reachable (cl_tunnel (w_client w c))" using cb(5) c .
  have pub: "proc publishes w p = Some (?k, s)" using assms(2) by (simp add: proc_def)
  have fr: "table_ok ?u = table_ok w" "count_ok ?u = count_ok w" "timer_ok ?u = timer_ok w" "closing_ok ?u = closing_ok w"
    "flight_ok ?u = flight_ok w" "owned_ok ?u = owned_ok w" "keyed ?u = keyed w" "proc publishes ?u = proc publishes w"
    by (simp_all add: table_ok_def count_ok_def timer_ok_def closing_ok_def flight_ok_def proc_def owned_ok_def
        holders_def ticking_def keyed_def fun_eq_iff)
  have 1: "(\<exists>p. proc publishes w p = Some (k, s')) \<or> watched ?u k s'" if l: "s' \<in> set (sessions w k)" for k s'
  proof (cases "ms_client (w_session w s') = c")
    case True
    then have "s' = s" using same_client [OF inv(2) table_okD(1) [OF inv(2) l] s(1)] s(2) by simp
    then show ?thesis using l s(3) pub by (auto simp: keyed_def)
  next
    case False
    then show ?thesis using cb(1) [OF l] by (auto simp: watched_def Let_def split: if_splits)
  qed
  have fr2: "w_client ?u = w_client w" "w_forgets ?u = w_forgets w" "w_session ?u = w_session w" "w_nextSession ?u = w_nextSession w"
    "w_nextClient ?u = w_nextClient w" "w_procs ?u = w_procs w" "sessions ?u = sessions w" by simp_all
  have 2: "s' < w_nextSession w \<and> ms_client (w_session w s') = d \<and> keyed w s' k" if "w_onClose ?u d = Some (k, s')" for d k s'
    using that cb(3) [of d k s'] s by (auto split: if_splits)
  have "callback_ok ?u" unfolding callback_ok_def fr fr2 using 1 2 cb(2,4,5) by blast
  then have u: "manager_inv ?u" using assms(1) unfolding manager_inv_def fr by blast
  have set: "tunnel_of ?cl = Tunnel_SetOnClose (tunnel_of (w_client w c))" by (simp add: client_defs)
  have "tunnel_inv (tunnel_of (w_client w c))" using reachable_dial [OF re] dial_inv_tunnel by blast
  from set_on_close.moves_on [OF this] have "advances (tunnel_of (w_client ?u c)) (tunnel_of ?cl)" unfolding set by simp
  moreover have "dial_reachable (cl_tunnel ?cl)"
    using dial_reachable.step [OF re dial_step.set_on_close] by (simp add: client_defs)
  ultimately have v: "manager_inv ?v" by (intro client_moves_inv u)
  have "watched ?v ?k s" using s(2) by (simp add: watched_def Let_def client_moves_eq callbacks_mem set Tunnel_SetOnClose_def)
  then have "manager_inv (?v\<lparr>w_procs := (w_procs ?v)(p \<mapsto> AcqReturned (Inr c))\<rparr>)"
    using pub assms(2) by (intro procs_inv v) (simp_all add: proc_def client_moves_eq)
  moreover have "(Acquire_publish cfg flight c s w)\<lparr>w_procs := (w_procs w)(p \<mapsto> AcqReturned (Inr c))\<rparr> =
      (?v\<lparr>w_procs := (w_procs ?v)(p \<mapsto> AcqReturned (Inr c))\<rparr>)
        \<lparr>w_inflight := (w_inflight w)(flight := (w_inflight w flight)\<lparr>if_done := True\<rparr>)\<rparr>"
    by (simp add: Acquire_publish_def Let_def client_moves_eq)
  ultimately show ?thesis by (simp only: inflight_store_inv)
qed

lemma report_inv:
  assumes "manager_inv w" "w_procs w p = Some (AcqReport cfg flight e client)"
  shows "manager_inv ((Acquire_report flight client w)\<lparr>w_procs := (w_procs w)(p \<mapsto> AcqReturned (Inl e))\<rparr>)"
proof (cases client)
  case None
  have "manager_inv (w\<lparr>w_procs := (w_procs w)(p \<mapsto> AcqReturned (Inl e))\<rparr>)"
    using assms(2) by (intro procs_inv assms(1)) (simp_all add: proc_def None)
  then show ?thesis by (simp add: Acquire_report_def None)
next
  case (Some c)
  have "proc carries w p = Some c" using assms(2) by (simp add: proc_def Some)
  then have "c < w_nextClient w" using assms(1) owned_okD(1) by (auto simp: manager_inv_def)
  note cl = close_client_inv [OF assms(1) this]
  have pr: "w_procs (close_client c w) = w_procs w" by (simp add: close_client_def client_moves_eq)
  have "manager_inv ((close_client c w)\<lparr>w_procs := (w_procs (close_client c w))(p \<mapsto> AcqReturned (Inl e))\<rparr>)"
    using assms(2) cl(2) by (intro procs_inv cl(1)) (simp_all add: proc_def Some pr)
  moreover have "(Acquire_report flight client w)\<lparr>w_procs := (w_procs w)(p \<mapsto> AcqReturned (Inl e))\<rparr> =
      ((close_client c w)\<lparr>w_procs := (w_procs (close_client c w))(p \<mapsto> AcqReturned (Inl e))\<rparr>)
        \<lparr>w_inflight := (w_inflight w)(flight := (w_inflight w flight)\<lparr>if_done := True\<rparr>)\<rparr>"
    by (simp add: Acquire_report_def Some close_client_def client_moves_eq)
  ultimately show ?thesis by (simp only: inflight_store_inv)
qed

end
