(* ===== verification/Session_Steps.thy ===== *)
theory Session_Steps
  imports Session_Invariant
begin

text \<open>
  The rest of the steps of the session manager: leases, timers and callbacks, new clients and new
  sessions, and the invariant of the reachable states.
\<close>

section \<open>Leases and timers\<close>

lemma count_ok_iff:
  "count_ok w \<longleftrightarrow>
     (\<forall>k s. s \<in> set (sessions w k) \<longrightarrow>
        ms_refCount (w_session w s) = int (length (filter (\<lambda>h. snd h = ms_client (w_session w s)) (w_held w))) \<and>
        ms_refCount (w_session w s) \<le> ms_maxRealms (w_session w s) \<and>
        (\<forall>ser. (ser, ms_client (w_session w s)) \<in> set (w_held w) \<longrightarrow> ser = sk_serial k)) \<and>
     snd ` set (w_held w) \<subseteq> (\<lambda>s. ms_client (w_session w s)) ` {..<w_nextSession w}"
  by (simp add: count_ok_def holders_def)

lemma count_okD:
  assumes "count_ok w" "s \<in> set (sessions w k)"
  shows "ms_refCount (w_session w s) = int (length (filter (\<lambda>h. snd h = ms_client (w_session w s)) (w_held w)))"
    "ms_refCount (w_session w s) \<le> ms_maxRealms (w_session w s)"
    "(ser, ms_client (w_session w s)) \<in> set (w_held w) \<Longrightarrow> ser = sk_serial k"
  using assms unfolding count_ok_iff by blast+

lemma count_held: "count_ok w \<Longrightarrow> snd ` set (w_held w) \<subseteq> (\<lambda>s. ms_client (w_session w s)) ` {..<w_nextSession w}"
  unfolding count_ok_iff by (elim conjE)

lemma timer_okD:
  assumes "timer_ok w"
  shows "s \<in> set (sessions w k) \<Longrightarrow> ms_refCount (w_session w s) = 0 \<Longrightarrow>
        \<exists>t. ms_idleTimer (w_session w s) = Some t \<and> ticking w t k s"
    "ms_idleTimer (w_session w s) = Some t \<Longrightarrow> s < w_nextSession w \<Longrightarrow> t < w_nextTimer w"
    "ms_idleTimer (w_session w s) = Some t \<Longrightarrow> s < w_nextSession w \<Longrightarrow> (t, due, k, s') \<in> set (w_armed w) \<Longrightarrow> s' = s"
    "e \<in> set (w_armed w) \<Longrightarrow> fst e < w_nextTimer w"
    "distinct (map fst (w_armed w))"
  using assms unfolding timer_ok_def by blast+

lemma mem_filter_held: "(ser, c) \<in> set h \<longleftrightarrow> (ser, c) \<in> set (filter (\<lambda>x. snd x = c) h)"
  by simp

lemma touch_inv:
  assumes inv: "manager_inv w" and listed: "s \<in> set (sessions w k)"
    and w': "w' = w\<lparr>w_session := (w_session w)(s := (w_session w s)\<lparr>ms_refCount := n, ms_idleTimer := i\<rparr>),
      w_armed := a, w_nextTimer := nt, w_held := h\<rparr>"
    and n: "n = int (length (filter (\<lambda>x. snd x = ms_client (w_session w s)) h))" "n \<le> ms_maxRealms (w_session w s)"
    and others: "\<And>c. c \<noteq> ms_client (w_session w s) \<Longrightarrow> filter (\<lambda>x. snd x = c) h = filter (\<lambda>x. snd x = c) (w_held w)"
    and sers: "\<And>ser. (ser, ms_client (w_session w s)) \<in> set h \<Longrightarrow> ser = sk_serial k"
    and zero: "n = 0 \<Longrightarrow> \<exists>t due. i = Some t \<and> (t, due, k, s) \<in> set a"
    and i: "\<And>t. i = Some t \<Longrightarrow> t < nt \<and> (\<forall>due k' s'. (t, due, k', s') \<in> set a \<longrightarrow> s' = s)"
    and keep: "\<And>e. e \<in> set (w_armed w) \<Longrightarrow> ms_idleTimer (w_session w s) \<noteq> Some (fst e) \<Longrightarrow> e \<in> set a"
    and new: "\<And>e. e \<in> set a \<Longrightarrow> fst e < nt \<and> (e \<in> set (w_armed w) \<or> fst e = w_nextTimer w)"
    and nt: "w_nextTimer w \<le> nt" "distinct (map fst a)"
  shows "manager_inv w'"
proof -
  have ok: "table_ok w" "count_ok w" "timer_ok w" "callback_ok w" "flight_ok w" "owned_ok w" "closing_ok w"
    using inv by (simp_all add: manager_inv_def)
  have lt: "s < w_nextSession w" using table_okD(1) [OF ok(1) listed] .
  have cl: "ms_client (w_session w' x) = ms_client (w_session w x)" "ms_maxRealms (w_session w' x) = ms_maxRealms (w_session w x)" for x
    by (simp_all add: w')
  have fr: "sessions w' = sessions w" "w_nextSession w' = w_nextSession w" "w_nextClient w' = w_nextClient w" "w_manager w' = w_manager w"
    "w_client w' = w_client w" "w_forgets w' = w_forgets w" "w_onClose w' = w_onClose w" "w_procs w' = w_procs w" "w_closing w' = w_closing w"
    "w_fired w' = w_fired w" "w_armed w' = a" "w_nextTimer w' = nt" "w_held w' = h"
    by (simp_all add: w')
  have fr2: "keyed w' = keyed w" "watched w' = watched w" "proc publishes w' = proc publishes w" "proc carries w' = proc carries w"
    "proc connecting w' = proc connecting w"
    by (simp_all add: keyed_def watched_def Let_def proc_def fr cl fun_eq_iff)
  have 1: "table_ok w'" using ok(1) unfolding table_ok_def fr cl .
  have "flight_ok w'" using ok(5) unfolding flight_ok_def fr fr2 .
  moreover have "owned_ok w'" using ok(6) unfolding owned_ok_def fr fr2 cl .
  moreover have "callback_ok w'" using ok(4) unfolding callback_ok_def fr fr2 cl .
  moreover have "count_ok w'"
  proof -
    have "ms_refCount (w_session w' x) = int (length (filter (\<lambda>y. snd y = ms_client (w_session w x)) h)) \<and>
        ms_refCount (w_session w' x) \<le> ms_maxRealms (w_session w x) \<and>
        (\<forall>ser. (ser, ms_client (w_session w x)) \<in> set h \<longrightarrow> ser = sk_serial k')" if x: "x \<in> set (sessions w k')" for x k'
    proof (cases "x = s")
      case True
      then have "k' = k" using x table_okD(2) [OF ok(1) listed] by (simp add: keyed_def)
      then show ?thesis using True n sers by (simp add: w')
    next
      case False
      then have ne: "ms_client (w_session w x) \<noteq> ms_client (w_session w s)"
        using same_client [OF ok(1) table_okD(1) [OF ok(1) x] lt] by blast
      have mem: "(ser, ms_client (w_session w x)) \<in> set h \<longleftrightarrow> (ser, ms_client (w_session w x)) \<in> set (w_held w)" for ser
        using mem_filter_held [of ser _ h] mem_filter_held [of ser _ "w_held w"] others [OF ne] by metis
      have "w_session w' x = w_session w x" using False by (simp add: w')
      then show ?thesis using count_okD [OF ok(2) x] others [OF ne] mem by simp
    qed
    moreover have "snd ` set h \<subseteq> (\<lambda>s. ms_client (w_session w s)) ` {..<w_nextSession w}"
    proof clarify
      fix ser c assume c: "(ser, c) \<in> set h"
      show "snd (ser, c) \<in> (\<lambda>s. ms_client (w_session w s)) ` {..<w_nextSession w}"
      proof (cases "c = ms_client (w_session w s)")
        case True then show ?thesis using lt by simp
      next
        case False
        then have "(ser, c) \<in> set (w_held w)"
          using mem_filter_held [of ser c h] mem_filter_held [of ser c "w_held w"] others [OF False] c by metis
        then show ?thesis using ok(2) unfolding count_ok_iff by force
      qed
    qed
    ultimately show ?thesis unfolding count_ok_iff fr cl by blast
  qed
  moreover have "timer_ok w'"
  proof -
    have "\<exists>t. ms_idleTimer (w_session w' x) = Some t \<and> ticking w' t k' x"
      if x: "x \<in> set (sessions w k')" "ms_refCount (w_session w' x) = 0" for x k'
    proof (cases "x = s")
      case True
      then have "k' = k" using x table_okD(2) [OF ok(1) listed] by (simp add: keyed_def)
      then show ?thesis using True x zero by (auto simp: w' ticking_def)
    next
      case False
      then obtain t where t: "ms_idleTimer (w_session w x) = Some t" "ticking w t k' x"
        using timer_okD(1) [OF ok(3) x(1)] x(2) by (auto simp: w')
      have "(t, due, k', x) \<in> set a" if "(t, due, k', x) \<in> set (w_armed w)" for due
        using that keep [OF that] timer_okD(3) [OF ok(3) _ lt, of t due k' x] False by auto
      then show ?thesis using t False by (auto simp: w' ticking_def)
    qed
    moreover have "t < nt \<and> (\<forall>due k s'. (t, due, k, s') \<in> set a \<longrightarrow> s' = x)"
      if x: "ms_idleTimer (w_session w' x) = Some t" "x < w_nextSession w" for x t
    proof (cases "x = s")
      case True then show ?thesis using i [of t] x by (auto simp: w')
    next
      case False
      then have x': "ms_idleTimer (w_session w x) = Some t" using x by (simp add: w')
      have lt': "t < w_nextTimer w" using timer_okD(2) [OF ok(3) x' x(2)] .
      have "s' = x" if "(t, due, k, s') \<in> set a" for due k s'
        using new [OF that] lt' timer_okD(3) [OF ok(3) x' x(2), of due k s'] by simp
      then show ?thesis using lt' nt(1) by auto
    qed
    moreover have "\<forall>e \<in> set a. fst e < nt" using new by blast
    ultimately show ?thesis using nt(2) unfolding timer_ok_def fr by blast
  qed
  moreover have "closing_ok w'"
  proof -
    have nc: "\<not> sm_closed (w_manager w)" using ok(1) listed by (auto simp: table_ok_def sessions_def)
    have "holders w' c = 0" if c: "c \<in> set (w_closing w)" for c
    proof -
      have "c \<noteq> ms_client (w_session w s)" using closing_okD(3) [OF ok(7) c nc listed] by blast
      from others [OF this] show ?thesis using closing_okD(2) [OF ok(7) c nc] by (simp add: holders_def fr)
    qed
    then show ?thesis using closing_okD(1,3) [OF ok(7)] unfolding closing_ok_def fr cl by blast
  qed
  ultimately show ?thesis using 1 by (simp add: manager_inv_def)
qed


lemma count_ok_cong:
  assumes "count_ok w" "sessions w' = sessions w" "w_nextSession w' = w_nextSession w" "set (w_held w') \<subseteq> set (w_held w)"
    and cl: "\<And>x. ms_client (w_session w' x) = ms_client (w_session w x)"
    and eq: "\<And>x k. x \<in> set (sessions w k) \<Longrightarrow> w_session w' x = w_session w x \<and>
      filter (\<lambda>h. snd h = ms_client (w_session w x)) (w_held w') = filter (\<lambda>h. snd h = ms_client (w_session w x)) (w_held w)"
  shows "count_ok w'"
  unfolding count_ok_iff assms(2,3) cl
proof (intro conjI allI impI)
  fix k x assume x: "x \<in> set (sessions w k)"
  note c = count_okD [OF assms(1) x] and e = eq [OF x]
  show "ms_refCount (w_session w' x) = int (length (filter (\<lambda>h. snd h = ms_client (w_session w x)) (w_held w')))"
    "ms_refCount (w_session w' x) \<le> ms_maxRealms (w_session w' x)" using c e by auto
  show "ser = sk_serial k" if "(ser, ms_client (w_session w x)) \<in> set (w_held w')" for ser
    using c(3) that assms(4) by blast
next
  show "snd ` set (w_held w') \<subseteq> (\<lambda>s. ms_client (w_session w s)) ` {..<w_nextSession w}"
    using assms(1,4) unfolding count_ok_iff by blast
qed

text \<open>A session that is off the list: its count and timer no longer matter.\<close>

lemma unlisted_ok:
  assumes ok: "table_ok w" "count_ok w" "timer_ok w" "callback_ok w" "flight_ok w" "owned_ok w"
    and s: "\<And>k. s \<notin> set (sessions w k)" "s < w_nextSession w"
    and w': "w' = w\<lparr>w_session := (w_session w)(s := (w_session w s)\<lparr>ms_refCount := n, ms_idleTimer := None\<rparr>),
      w_armed := filter (\<lambda>e. ms_idleTimer (w_session w s) \<noteq> Some (fst e)) (w_armed w),
      w_held := remove1 (ser, ms_client (w_session w s)) (w_held w)\<rparr>"
  shows "table_ok w' \<and> count_ok w' \<and> timer_ok w' \<and> callback_ok w' \<and> flight_ok w' \<and> owned_ok w'"
proof -
  have cl: "ms_client (w_session w' x) = ms_client (w_session w x)" "ms_maxRealms (w_session w' x) = ms_maxRealms (w_session w x)" for x
    by (simp_all add: w')
  have fr: "sessions w' = sessions w" "w_nextSession w' = w_nextSession w" "w_nextClient w' = w_nextClient w" "w_manager w' = w_manager w"
    "w_client w' = w_client w" "w_forgets w' = w_forgets w" "w_onClose w' = w_onClose w" "w_procs w' = w_procs w" "w_closing w' = w_closing w"
    "w_fired w' = w_fired w" "w_nextTimer w' = w_nextTimer w"
    by (simp_all add: w')
  have fr2: "keyed w' = keyed w" "watched w' = watched w" "proc publishes w' = proc publishes w" "proc carries w' = proc carries w"
    "proc connecting w' = proc connecting w"
    by (simp_all add: keyed_def watched_def Let_def proc_def fr cl fun_eq_iff)
  have ne: "x \<noteq> s" "ms_client (w_session w x) \<noteq> ms_client (w_session w s)" "w_session w' x = w_session w x"
    if "x \<in> set (sessions w k)" for x k
  proof -
    show "x \<noteq> s" using that s(1) by blast
    then show "ms_client (w_session w x) \<noteq> ms_client (w_session w s)" "w_session w' x = w_session w x"
      using same_client [OF ok(1) table_okD(1) [OF ok(1) that] s(2)] by (auto simp: w')
  qed
  have 1: "table_ok w'" using ok(1) unfolding table_ok_def fr cl .
  moreover have "flight_ok w'" using ok(5) unfolding flight_ok_def fr fr2 .
  moreover have "owned_ok w'" using ok(6) unfolding owned_ok_def fr fr2 cl .
  moreover have "callback_ok w'" using ok(4) unfolding callback_ok_def fr fr2 cl .
  moreover have "count_ok w'"
  proof -
    have "filter (\<lambda>h. snd h = ms_client (w_session w x)) (w_held w') = filter (\<lambda>h. snd h = ms_client (w_session w x)) (w_held w)"
      if "x \<in> set (sessions w k)" for x k
      using ne(2) [OF that] by (auto simp: w' filter_remove1 intro!: remove1_idem)
    moreover have "set (w_held w') \<subseteq> set (w_held w)" by (simp add: w' set_remove1_subset)
    ultimately show ?thesis by (intro count_ok_cong [OF ok(2) fr(1,2) _ cl(1)]) (simp_all add: ne(3))
  qed
  moreover have "timer_ok w'"
  proof -
    have "ticking w' t k x" if x: "x \<in> set (sessions w k)" "ms_idleTimer (w_session w x) = Some t" "ticking w t k x" for x k t
    proof -
      have "(t, due, k, x) \<in> set (w_armed w')" if "(t, due, k, x) \<in> set (w_armed w)" for due
        using that ne(1) [OF x(1)] timer_okD(3) [OF ok(3) _ s(2) that] by (auto simp: w')
      then show ?thesis using x(3) by (auto simp: ticking_def fr)
    qed
    then have "\<exists>t. ms_idleTimer (w_session w' x) = Some t \<and> ticking w' t k x"
      if "x \<in> set (sessions w k)" "ms_refCount (w_session w' x) = 0" for x k
      using that timer_okD(1) [OF ok(3) that(1)] ne(3) [OF that(1)] by metis
    moreover have "ms_idleTimer (w_session w x) = Some t" if "ms_idleTimer (w_session w' x) = Some t" for x t
      using that by (cases "x = s") (simp_all add: w')
    moreover have "set (w_armed w') \<subseteq> set (w_armed w)" "distinct (map fst (w_armed w'))"
      using timer_okD(5) [OF ok(3)] by (auto simp: w' distinct_map_filter)
    ultimately show ?thesis using timer_okD(2-4) [OF ok(3)] unfolding timer_ok_def fr by blast
  qed
  ultimately show ?thesis by blast
qed

lemma drop_holder_inv:
  assumes inv: "manager_inv w" and c: "\<And>k s. s \<in> set (sessions w k) \<Longrightarrow> ms_client (w_session w s) \<noteq> c"
  shows "manager_inv (w\<lparr>w_held := remove1 (ser, c) (w_held w)\<rparr>)" (is "manager_inv ?w")
proof -
  have ok: "count_ok w" "closing_ok w" using inv by (simp_all add: manager_inv_def)
  have fr: "sessions ?w = sessions w" "w_session ?w = w_session w" "w_nextSession ?w = w_nextSession w" "w_closing ?w = w_closing w"
    "w_manager ?w = w_manager w" by simp_all
  have "filter (\<lambda>h. snd h = ms_client (w_session w x)) (w_held ?w) = filter (\<lambda>h. snd h = ms_client (w_session w x)) (w_held w)"
    if "x \<in> set (sessions w k)" for x k
    using c [OF that] by (auto simp: filter_remove1 intro!: remove1_idem)
  moreover have "set (w_held ?w) \<subseteq> set (w_held w)" by (simp add: set_remove1_subset)
  ultimately have "count_ok ?w" by (intro count_ok_cong [OF ok(1) fr(1,3)]) simp_all
  moreover have "holders ?w d \<le> holders w d" for d
    by (simp add: holders_def filter_remove1 length_remove1)
  then have "closing_ok ?w" using closing_okD [OF ok(2)] unfolding closing_ok_def fr le_zero_eq [symmetric] by (meson order_trans)
  moreover have "table_ok ?w = table_ok w" "timer_ok ?w = timer_ok w" "callback_ok ?w = callback_ok w" "flight_ok ?w = flight_ok w"
    "owned_ok ?w = owned_ok w"
    by (simp_all add: table_ok_def timer_ok_def callback_ok_def flight_ok_def owned_ok_def ticking_def watched_def keyed_def proc_def)
  ultimately show ?thesis using inv unfolding manager_inv_def by blast
qed


text \<open>Pending callbacks run, or are dropped when they have nothing left to do.\<close>

lemma distinct_map_remove1: "distinct (map f xs) \<Longrightarrow> distinct (map f (remove1 x xs))"
  by (auto simp: distinct_map intro: inj_on_diff)

lemma fire_inv:
  assumes inv: "manager_inv w" and e: "(t, due, k, s) \<in> set (w_armed w)"
  shows "manager_inv (w\<lparr>w_armed := remove1 (t, due, k, s) (w_armed w), w_fired := (t, k, s) # w_fired w\<rparr>)" (is "manager_inv ?w")
proof -
  have ok: "timer_ok w" using inv by (simp add: manager_inv_def)
  have fr: "sessions ?w = sessions w" "w_session ?w = w_session w" "w_nextSession ?w = w_nextSession w" "w_nextTimer ?w = w_nextTimer w"
    by simp_all
  have "ticking ?w t' k' s'" if "ticking w t' k' s'" for t' k' s'
  proof (cases "\<exists>d. (t', d, k', s') \<in> set (w_armed w)")
    case True
    then obtain d where d: "(t', d, k', s') \<in> set (w_armed w)" ..
    show ?thesis
    proof (cases "(t', d, k', s') = (t, due, k, s)")
      case False
      then have "(t', d, k', s') \<in> set (remove1 (t, due, k, s) (w_armed w))" using d by (simp add: in_set_remove1)
      then show ?thesis unfolding ticking_def by auto
    qed (simp add: ticking_def)
  next
    case False
    then show ?thesis using that by (simp add: ticking_def)
  qed
  moreover have "set (w_armed ?w) \<subseteq> set (w_armed w)" by (simp add: set_remove1_subset)
  moreover have "distinct (map fst (w_armed ?w))" using timer_okD(5) [OF ok] by (simp add: distinct_map_remove1)
  ultimately have "timer_ok ?w" using timer_okD(1-4) [OF ok] unfolding timer_ok_def fr by blast
  moreover have "table_ok ?w = table_ok w" "count_ok ?w = count_ok w" "callback_ok ?w = callback_ok w" "flight_ok ?w = flight_ok w"
    "owned_ok ?w = owned_ok w" "closing_ok ?w = closing_ok w"
    by (simp_all add: table_ok_def count_ok_def callback_ok_def flight_ok_def owned_ok_def closing_ok_def holders_def watched_def keyed_def proc_def)
  ultimately show ?thesis using inv unfolding manager_inv_def by blast
qed

lemma fired_drop_inv:
  assumes inv: "manager_inv w" and gone: "s \<in> set (sessions w k) \<Longrightarrow> ms_refCount (w_session w s) \<noteq> 0"
  shows "manager_inv (w\<lparr>w_fired := remove1 (t, k, s) (w_fired w)\<rparr>)" (is "manager_inv ?w")
proof -
  have ok: "timer_ok w" using inv by (simp add: manager_inv_def)
  have fr: "sessions ?w = sessions w" "w_session ?w = w_session w" "w_nextSession ?w = w_nextSession w" "w_nextTimer ?w = w_nextTimer w"
    "w_armed ?w = w_armed w" by simp_all
  have keep: "ticking ?w t' k' s'" if "ticking w t' k' s'" "(k', s') \<noteq> (k, s)" for t' k' s'
  proof -
    have "(t', k', s') \<noteq> (t, k, s)" using that(2) by blast
    then show ?thesis using that(1) unfolding ticking_def by (simp add: in_set_remove1)
  qed
  have "\<exists>t. ms_idleTimer (w_session w s') = Some t \<and> ticking ?w t k' s'"
    if l: "s' \<in> set (sessions w k')" "ms_refCount (w_session w s') = 0" for k' s'
  proof -
    obtain u where "ms_idleTimer (w_session w s') = Some u" "ticking w u k' s'" using timer_okD(1) [OF ok l] by blast
    moreover have "(k', s') \<noteq> (k, s)" using l gone by blast
    ultimately show ?thesis using keep by blast
  qed
  then have "timer_ok ?w" using timer_okD(2-5) [OF ok] unfolding timer_ok_def fr by blast
  moreover have "table_ok ?w = table_ok w" "count_ok ?w = count_ok w" "callback_ok ?w = callback_ok w" "flight_ok ?w = flight_ok w"
    "owned_ok ?w = owned_ok w" "closing_ok ?w = closing_ok w"
    by (simp_all add: table_ok_def count_ok_def callback_ok_def flight_ok_def owned_ok_def closing_ok_def holders_def watched_def keyed_def proc_def)
  ultimately show ?thesis using inv unfolding manager_inv_def by blast
qed

lemma forgets_drop_inv:
  assumes inv: "manager_inv w" and gone: "s \<notin> set (sessions w k)"
  shows "manager_inv (w\<lparr>w_forgets := remove1 (k, s) (w_forgets w)\<rparr>)" (is "manager_inv ?w")
proof -
  have ok: "callback_ok w" using inv by (simp add: manager_inv_def)
  have fr: "sessions ?w = sessions w" "w_session ?w = w_session w" "w_nextSession ?w = w_nextSession w" "w_onClose ?w = w_onClose w"
    "w_client ?w = w_client w" "w_procs ?w = w_procs w" "w_nextClient ?w = w_nextClient w" "keyed ?w = keyed w"
    "proc publishes ?w = proc publishes w" by (simp_all add: keyed_def proc_def fun_eq_iff)
  have keep: "watched ?w k' s'" if "watched w k' s'" "(k', s') \<noteq> (k, s)" for k' s'
    using that by (simp add: watched_iff in_set_remove1)
  have "(\<exists>p. proc publishes w p = Some (k', s')) \<or> watched ?w k' s'" if l: "s' \<in> set (sessions w k')" for k' s'
  proof -
    have "(k', s') \<noteq> (k, s)" using l gone by blast
    then show ?thesis using callback_okD(1) [OF ok l] keep by blast
  qed
  moreover have "set (w_forgets ?w) \<subseteq> set (w_forgets w)" by (simp add: set_remove1_subset)
  ultimately have "callback_ok ?w" using callback_okD(2-5) [OF ok] unfolding callback_ok_def fr by blast
  moreover have "table_ok ?w = table_ok w" "count_ok ?w = count_ok w" "timer_ok ?w = timer_ok w" "flight_ok ?w = flight_ok w"
    "owned_ok ?w = owned_ok w" "closing_ok ?w = closing_ok w"
    by (simp_all add: table_ok_def count_ok_def timer_ok_def flight_ok_def owned_ok_def closing_ok_def holders_def ticking_def proc_def)
  ultimately show ?thesis using inv unfolding manager_inv_def by blast
qed

lemma closing_drop_inv:
  assumes inv: "manager_inv w" and closed: "client_closed w c"
  shows "manager_inv (w\<lparr>w_closing := remove1 c (w_closing w)\<rparr>)" (is "manager_inv ?w")
proof -
  have ok: "owned_ok w" "closing_ok w" using inv by (simp_all add: manager_inv_def)
  have fr: "sessions ?w = sessions w" "w_session ?w = w_session w" "w_nextSession ?w = w_nextSession w" "w_manager ?w = w_manager w"
    "w_client ?w = w_client w" "w_nextClient ?w = w_nextClient w" "proc carries ?w = proc carries w" "holders ?w = holders w"
    by (simp_all add: proc_def holders_def fun_eq_iff)
  have "d \<in> set (w_closing ?w) \<or> client_closed w d" if "d \<in> set (w_closing w)" for d
    using that closed by (cases "d = c") (simp_all add: in_set_remove1)
  then have "owned_ok ?w" using owned_okD [OF ok(1)] unfolding owned_ok_def fr by blast
  moreover have "set (w_closing ?w) \<subseteq> set (w_closing w)" by (simp add: set_remove1_subset)
  then have "closing_ok ?w" using closing_okD [OF ok(2)] unfolding closing_ok_def fr by blast
  moreover have "table_ok ?w = table_ok w" "count_ok ?w = count_ok w" "timer_ok ?w = timer_ok w" "flight_ok ?w = flight_ok w"
    "callback_ok ?w = callback_ok w"
    by (simp_all add: table_ok_def count_ok_def timer_ok_def flight_ok_def callback_ok_def holders_def ticking_def proc_def watched_def keyed_def)
  ultimately show ?thesis using inv unfolding manager_inv_def by blast
qed


section \<open>New clients and new sessions\<close>

lemma connected_inv:
  assumes inv: "manager_inv w" and p: "w_procs w p = Some (AcqConnect cfg flight)" and cl: "dial_reachable (cl_tunnel cl)"
  shows "manager_inv (w\<lparr>w_client := (w_client w)(w_nextClient w := cl), w_nextClient := Suc (w_nextClient w),
      w_onClose := (w_onClose w)(w_nextClient w := None),
      w_procs := (w_procs w)(p \<mapsto> AcqInstall cfg flight (Inr (w_nextClient w)))\<rparr>)" (is "manager_inv ?w")
proof -
  let ?c = "w_nextClient w"
  have ok: "table_ok w" "callback_ok w" "owned_ok w" "flight_ok w" "count_ok w" "timer_ok w" "closing_ok w"
    using inv by (simp_all add: manager_inv_def)
  have fr: "sessions ?w = sessions w" "w_session ?w = w_session w" "w_nextSession ?w = w_nextSession w" "w_manager ?w = w_manager w"
    "w_forgets ?w = w_forgets w" "w_closing ?w = w_closing w" "w_nextClient ?w = Suc ?c" "keyed ?w = keyed w"
    "proc connecting ?w = proc connecting w" "proc publishes ?w = proc publishes w"
    using p by (auto simp: keyed_def proc_def fun_eq_iff)
  have carr: "proc carries ?w q = (if q = p then Some ?c else proc carries w q)" for q by (simp add: proc_def)
  have no: "proc carries w p = None" using p by (simp add: proc_def)
  have old: "ms_client (w_session w s) < ?c" if "s < w_nextSession w" for s using ok(1) that by (simp add: table_ok_def)
  have at_old: "w_client ?w d = w_client w d" "w_onClose ?w d = w_onClose w d" if "d < ?c" for d using that by simp_all
  have "watched ?w k s" if w: "watched w k s" and l: "s \<in> set (sessions w k)" for k s
    using w at_old [OF old [OF table_okD(1) [OF ok(1) l]]] by (simp add: watched_iff fr(2,5) del: world.simps)
  then have 1: "(\<exists>p. proc publishes w p = Some (k, s)) \<or> watched ?w k s" if "s \<in> set (sessions w k)" for k s
    using callback_okD(1) [OF ok(2) that] that by blast
  have 2: "client_closed ?w (ms_client (w_session w s))" if "(k, s) \<in> set (w_forgets w)" for k s
    using callback_okD(2) [OF ok(2) that] at_old(1) [OF old] by simp
  have 3: "s < w_nextSession w \<and> ms_client (w_session w s) = c \<and> keyed w s k" if "w_onClose ?w c = Some (k, s)" for c k s
    using that callback_okD(3) [OF ok(2), of c k s] by (cases "c = ?c") simp_all
  have 4: "dial_reachable (cl_tunnel (w_client ?w c))" if "c < Suc ?c" for c
    using that cl callback_okD(5) [OF ok(2)] by (cases "c = ?c") simp_all
  have 5: "w_procs w q = Some (AcqPublish cfg' fl c s)" if "w_procs ?w q = Some (AcqPublish cfg' fl c s)" for q cfg' fl c s
    using that by (cases "q = p") simp_all
  have "callback_ok ?w" unfolding callback_ok_def fr using 1 2 3 4 5 callback_okD(2,4) [OF ok(2)] by blast
  moreover have "owned_ok ?w"
  proof -
    have "c < Suc ?c \<and> (\<forall>s < w_nextSession w. ms_client (w_session w s) \<noteq> c)" if "proc carries ?w q = Some c" for q c
    proof (cases "q = p")
      case True
      then have "c = ?c" using that unfolding carr by simp
      then show ?thesis using old by (metis lessI less_irrefl)
    next
      case False
      then have "proc carries w q = Some c" using that unfolding carr by simp
      from owned_okD(1,2) [OF ok(3) this] show ?thesis by auto
    qed
    moreover have "q = r" if "proc carries ?w q = Some c" "proc carries ?w r = Some c" for q r c
      using that owned_okD(1) [OF ok(3), of q c] owned_okD(1) [OF ok(3), of r c] owned_okD(3) [OF ok(3), of q c r]
      unfolding carr by (cases "q = p"; cases "r = p") auto
    moreover have "client_closed ?w c \<or> c \<in> set (w_closing w) \<or> (\<exists>p. proc carries ?w p = Some c) \<or>
        (\<exists>k s. s \<in> set (sessions w k) \<and> ms_client (w_session w s) = c)" if "c < Suc ?c" for c
    proof (cases "c = ?c")
      case True
      then show ?thesis unfolding carr by auto
    next
      case False
      then have lt: "c < ?c" using that by simp
      have "proc carries ?w q = Some c" if "proc carries w q = Some c" for q
        using that no unfolding carr by auto
      then show ?thesis using owned_okD(4) [OF ok(3) lt] unfolding at_old(1) [OF lt] by blast
    qed
    ultimately show ?thesis unfolding owned_ok_def fr by blast
  qed
  moreover have "table_ok ?w" using ok(1) unfolding table_ok_def fr by auto
  moreover have "flight_ok ?w" using ok(4) unfolding flight_ok_def fr .
  moreover have "count_ok ?w = count_ok w" "timer_ok ?w = timer_ok w" "closing_ok ?w = closing_ok w"
    by (simp_all add: count_ok_def timer_ok_def closing_ok_def holders_def ticking_def)
  ultimately show ?thesis using ok unfolding manager_inv_def by blast
qed

lemma sessionKeyFor_max: "1 \<le> sk_maxRealms (sessionKeyFor cfg)" "sk_serial (sessionKeyFor cfg) = cf_Serial cfg"
  by (simp_all add: sessionKeyFor_def DefaultMaxRealmsPerTunnel_def Let_def)

lemma install_inv:
  assumes inv: "manager_inv w" and p: "w_procs w p = Some (AcqInstall cfg flight (Inr c))" and nc: "\<not> sm_closed (w_manager w)"
    and w': "w' = (set_sessions (sessionKeyFor cfg) (sessions w (sessionKeyFor cfg) @ [w_nextSession w])
      (w\<lparr>w_manager := (w_manager w)\<lparr>sm_inflight := AList.delete (sessionKeyFor cfg) (sm_inflight (w_manager w))\<rparr>,
         w_session := (w_session w)(w_nextSession w :=
           \<lparr>ms_client = c, ms_refCount = 1, ms_idleTimer = None, ms_maxRealms = sk_maxRealms (sessionKeyFor cfg)\<rparr>),
         w_nextSession := Suc (w_nextSession w), w_held := (cf_Serial cfg, c) # w_held w\<rparr>))
      \<lparr>w_procs := (w_procs w)(p \<mapsto> AcqPublish cfg flight c (w_nextSession w))\<rparr>"
  shows "manager_inv w'"
proof -
  let ?k = "sessionKeyFor cfg" and ?s = "w_nextSession w"
  have ok: "table_ok w" "callback_ok w" "owned_ok w" "flight_ok w" "count_ok w" "timer_ok w" "closing_ok w"
    using inv by (simp_all add: manager_inv_def)
  have se: "sessions w' k = (if k = ?k then sessions w ?k @ [?s] else sessions w k)" for k by (simp add: w')
  have ses: "w_session w' ?s = \<lparr>ms_client = c, ms_refCount = 1, ms_idleTimer = None, ms_maxRealms = sk_maxRealms ?k\<rparr>"
    "x \<noteq> ?s \<Longrightarrow> w_session w' x = w_session w x" for x by (simp_all add: w')
  have fr: "w_nextSession w' = Suc ?s" "w_nextClient w' = w_nextClient w" "w_client w' = w_client w" "w_forgets w' = w_forgets w"
    "w_closing w' = w_closing w" "w_onClose w' = w_onClose w" "w_armed w' = w_armed w" "w_fired w' = w_fired w"
    "w_nextTimer w' = w_nextTimer w" "w_held w' = (cf_Serial cfg, c) # w_held w" "sm_closed (w_manager w') = sm_closed (w_manager w)"
    by (simp_all add: w')
  have mem: "x \<in> set (sessions w' k) \<longleftrightarrow> x \<in> set (sessions w k) \<or> x = ?s \<and> k = ?k" for x k by (auto simp: se)
  have old: "x \<in> set (sessions w k) \<Longrightarrow> x < ?s" for x k using table_okD(1) [OF ok(1)] .
  have pc: "proc carries w p = Some c" "proc connecting w p = Some (?k, flight)" "proc publishes w p = None"
    using p by (simp_all add: proc_def)
  have c: "c < w_nextClient w" "\<And>x. x < ?s \<Longrightarrow> ms_client (w_session w x) \<noteq> c" using owned_okD(1,2) [OF ok(3) pc(1)] by blast+
  have carr: "proc carries w' q = (if q = p then None else proc carries w q)"
    "proc connecting w' q = (if q = p then None else proc connecting w q)"
    "proc publishes w' q = (if q = p then Some (?k, ?s) else proc publishes w q)" for q by (simp_all add: w' proc_def)
  have cl: "ms_client (w_session w' x) = ms_client (w_session w x)" if "x < ?s" for x using that ses(2) by simp
  have key: "keyed w' x k = keyed w x k" if "x < ?s" for x k using that by (auto simp: keyed_def mem)
  have key2: "keyed w' ?s ?k" using old by (auto simp: keyed_def mem)
  have "table_ok w'"
  proof -
    have "distinct (map fst (sm_sessions (w_manager w')))"
      using ok(1) by (auto simp: w' table_ok_def intro!: distinct_set_sessions)
    moreover have "distinct (sessions w' k)" for k
      using ok(1) old by (auto simp: se table_ok_def)
    moreover have "k = k'" if "x \<in> set (sessions w' k)" "x \<in> set (sessions w' k')" for x k k'
    proof (cases "x = ?s")
      case True
      then show ?thesis using that old by (auto simp: mem)
    next
      case False
      then have "x \<in> set (sessions w k)" "x \<in> set (sessions w k')" using that by (simp_all add: mem)
      then show ?thesis using table_okD(2) [OF ok(1)] unfolding keyed_def by blast
    qed
    moreover have "x < Suc ?s \<and> ms_maxRealms (w_session w' x) = sk_maxRealms k \<and> 1 \<le> sk_maxRealms k" if "x \<in> set (sessions w' k)" for x k
      using that table_okD [OF ok(1), of x k] old [of x k] ses sessionKeyFor_max(1) [of cfg] unfolding mem by (cases "x = ?s") auto
    moreover have "ms_client (w_session w' x) < w_nextClient w" if "x < Suc ?s" for x
      using that ok(1) c(1) ses by (cases "x = ?s") (auto simp: table_ok_def)
    moreover have "inj_on (\<lambda>x. ms_client (w_session w' x)) {..<Suc ?s}"
    proof -
      have "inj_on (\<lambda>x. ms_client (w_session w' x)) {..<?s}"
        using ok(1) cl unfolding table_ok_def inj_on_def by simp
      moreover have "ms_client (w_session w' ?s) \<notin> (\<lambda>x. ms_client (w_session w' x)) ` {..<?s}"
        using c(2) cl ses(1) by auto
      ultimately show ?thesis by (simp add: lessThan_Suc)
    qed
    ultimately show ?thesis using nc unfolding table_ok_def fr by blast
  qed
  moreover have "count_ok w'"
  proof -
    have "c \<notin> snd ` set (w_held w)"
    proof
      assume "c \<in> snd ` set (w_held w)"
      then have "c \<in> (\<lambda>x. ms_client (w_session w x)) ` {..<?s}" by (rule subsetD [OF count_held [OF ok(5)]])
      then obtain x where "x < ?s" "c = ms_client (w_session w x)" by auto
      then show False using c(2) [of x] by simp
    qed
    then have un: "filter (\<lambda>h. snd h = c) (w_held w) = []" by (auto simp: filter_empty_conv)
    have "ms_refCount (w_session w' x) = int (length (filter (\<lambda>h. snd h = ms_client (w_session w' x)) (w_held w'))) \<and>
        ms_refCount (w_session w' x) \<le> ms_maxRealms (w_session w' x) \<and>
        (\<forall>ser. (ser, ms_client (w_session w' x)) \<in> set (w_held w') \<longrightarrow> ser = sk_serial k)" if x: "x \<in> set (sessions w' k)" for x k
    proof (cases "x = ?s")
      case True
      have "(ser, c) \<notin> set (w_held w)" for ser using un by (auto simp: filter_empty_conv)
      moreover have "k = ?k" using x True old by (auto simp: mem)
      ultimately show ?thesis using True un sessionKeyFor_max [of cfg] by (simp add: ses(1) fr)
    next
      case False
      then have l: "x \<in> set (sessions w k)" using x by (simp add: mem)
      have ne: "c \<noteq> ms_client (w_session w x)" using c(2) [OF old [OF l]] by blast
      then have "filter (\<lambda>h. snd h = ms_client (w_session w x)) (w_held w') = filter (\<lambda>h. snd h = ms_client (w_session w x)) (w_held w)"
        by (simp add: fr)
      moreover have "(ser, ms_client (w_session w x)) \<in> set (w_held w') \<longleftrightarrow> (ser, ms_client (w_session w x)) \<in> set (w_held w)" for ser
        using ne by (simp add: fr)
      ultimately show ?thesis
        using count_okD(1,2) [OF ok(5) l] count_okD(3) [OF ok(5) l] unfolding ses(2) [OF False] by presburger
    qed
    moreover have "snd ` set (w_held w') \<subseteq> (\<lambda>x. ms_client (w_session w' x)) ` {..<Suc ?s}"
    proof -
      have "snd ` set (w_held w) \<subseteq> (\<lambda>x. ms_client (w_session w x)) ` {..<?s}" by (rule count_held [OF ok(5)])
      also have "\<dots> = (\<lambda>x. ms_client (w_session w' x)) ` {..<?s}" using cl by (intro image_cong) auto
      finally show ?thesis using ses(1) by (auto simp: fr lessThan_Suc)
    qed
    ultimately show ?thesis unfolding count_ok_iff fr(1) by blast
  qed
  moreover have "timer_ok w'"
  proof -
    have tick: "ticking w' = ticking w" by (simp add: ticking_def fr fun_eq_iff)
    have "\<exists>t. ms_idleTimer (w_session w' x) = Some t \<and> ticking w t k x"
      if x: "x \<in> set (sessions w' k)" "ms_refCount (w_session w' x) = 0" for x k
    proof -
      have ne: "x \<noteq> ?s" using x(2) ses(1) by auto
      then have "x \<in> set (sessions w k)" using x(1) by (simp add: mem)
      then show ?thesis using timer_okD(1) [OF ok(6)] x(2) unfolding ses(2) [OF ne] by blast
    qed
    moreover have "t < w_nextTimer w \<and> (\<forall>due k s'. (t, due, k, s') \<in> set (w_armed w) \<longrightarrow> s' = x)"
      if x: "ms_idleTimer (w_session w' x) = Some t" "x < Suc ?s" for x t
    proof -
      have ne: "x \<noteq> ?s" using x(1) ses(1) by auto
      then have "x < ?s" using x(2) by simp
      then show ?thesis using timer_okD(2,3) [OF ok(6)] x(1) unfolding ses(2) [OF ne] by blast
    qed
    ultimately show ?thesis using timer_okD(4,5) [OF ok(6)] unfolding timer_ok_def fr tick by blast
  qed
  moreover have "callback_ok w'"
  proof -
    have "(\<exists>q. proc publishes w' q = Some (k, x)) \<or> watched w' k x" if x: "x \<in> set (sessions w' k)" for x k
    proof (cases "x = ?s")
      case True
      then show ?thesis using x old carr(3) [of p] by (auto simp: mem)
    next
      case False
      then have l: "x \<in> set (sessions w k)" using x by (simp add: mem)
      have "watched w' k x = watched w k x" using ses(2) [OF False] by (simp add: watched_iff fr)
      moreover have "proc publishes w' q = Some (k, x)" if "proc publishes w q = Some (k, x)" for q using that pc(3) carr(3) by auto
      ultimately show ?thesis using callback_okD(1) [OF ok(2) l] by blast
    qed
    moreover have "x < Suc ?s \<and> client_closed w' (ms_client (w_session w' x)) \<and> keyed w' x k" if "(k, x) \<in> set (w_forgets w)" for k x
      using callback_okD(2) [OF ok(2) that] cl key by (simp add: fr)
    moreover have "x < Suc ?s \<and> ms_client (w_session w' x) = d \<and> keyed w' x k" if "w_onClose w d = Some (k, x)" for d k x
      using callback_okD(3) [OF ok(2) that] cl key by simp
    moreover have "x < Suc ?s \<and> ms_client (w_session w' x) = d \<and> keyed w' x (sessionKeyFor cfg')"
      if "w_procs w' q = Some (AcqPublish cfg' fl d x)" for q cfg' fl d x
    proof (cases "q = p")
      case True
      then show ?thesis using that key2 ses(1) by (simp add: w')
    next
      case False
      then have "w_procs w q = Some (AcqPublish cfg' fl d x)" using that by (simp add: w')
      from callback_okD(4) [OF ok(2) this] show ?thesis using cl key by simp
    qed
    ultimately show ?thesis using callback_okD(5) [OF ok(2)] unfolding callback_ok_def fr by blast
  qed
  moreover have "flight_ok w'"
  proof -
    have fl: "map_of (sm_inflight (w_manager w')) k = (if k = ?k then None else map_of (sm_inflight (w_manager w)) k)" for k
      by (simp add: w' delete_conv' restrict_map_def)
    have con: "proc connecting w q = Some (k, f) \<and> k \<noteq> ?k" if "proc connecting w' q = Some (k, f)" for q k f
      using that flight_okD(2) [OF ok(4) pc(2), of q] unfolding carr by (auto split: if_splits)
    have "sessions w ?k = []" if "sk_p2pPort ?k \<noteq> 0"
      using flight_okD(4) [OF ok(4) that] flight_okD(1) [OF ok(4) pc(2)] by simp
    then have "length (sessions w' k) \<le> 1 \<and> (map_of (sm_inflight (w_manager w')) k \<noteq> None \<longrightarrow> sessions w' k = [])"
      if "sk_p2pPort k \<noteq> 0" for k
      using flight_okD(3,4) [OF ok(4) that] that by (cases "k = ?k") (simp_all add: se fl)
    moreover have "map_of (sm_inflight (w_manager w')) k = Some f" if "proc connecting w' q = Some (k, f)" for q k f
      using con [OF that] flight_okD(1) [OF ok(4), of q k f] by (simp add: fl)
    moreover have "q = r" if "proc connecting w' q = Some (k, f)" "proc connecting w' r = Some (k, f')" for q r k f f'
      using con [OF that(1)] con [OF that(2)] flight_okD(2) [OF ok(4)] by blast
    ultimately show ?thesis unfolding flight_ok_def by blast
  qed
  moreover have "owned_ok w'"
  proof -
    have sub: "proc carries w q = Some d \<and> d \<noteq> c" if "proc carries w' q = Some d" for q d
      using that owned_okD(3) [OF ok(3) pc(1), of q] unfolding carr by (auto split: if_splits)
    have "d < w_nextClient w \<and> (\<forall>x < Suc ?s. ms_client (w_session w' x) \<noteq> d)" if "proc carries w' q = Some d" for q d
    proof -
      have q: "proc carries w q = Some d" "d \<noteq> c" using sub [OF that] by blast+
      have "ms_client (w_session w' x) \<noteq> d" if "x < Suc ?s" for x
        using that owned_okD(2) [OF ok(3) q(1), of x] cl [of x] ses(1) q(2) by (cases "x = ?s") auto
      then show ?thesis using owned_okD(1) [OF ok(3) q(1)] by blast
    qed
    moreover have "client_closed w d \<or> d \<in> set (w_closing w) \<or> (\<exists>q. proc carries w' q = Some d) \<or>
        (\<exists>k x. x \<in> set (sessions w' k) \<and> ms_client (w_session w' x) = d)" if "d < w_nextClient w" for d
    proof (cases "d = c")
      case True
      have "?s \<in> set (sessions w' ?k)" "ms_client (w_session w' ?s) = d" using True by (simp_all add: mem ses(1))
      then show ?thesis by blast
    next
      case False
      have "proc carries w' q = Some d" if "proc carries w q = Some d" for q using that pc(1) False carr(1) by auto
      moreover have "x \<in> set (sessions w' k) \<and> ms_client (w_session w' x) = d"
        if "x \<in> set (sessions w k)" "ms_client (w_session w x) = d" for x k
        using that old cl by (simp add: mem)
      ultimately show ?thesis using owned_okD(4) [OF ok(3) that] by blast
    qed
    moreover have "q = r" if "proc carries w' q = Some d" "proc carries w' r = Some d" for q r d
      using sub [OF that(1)] sub [OF that(2)] owned_okD(3) [OF ok(3), of q d r] by simp
    ultimately show ?thesis unfolding owned_ok_def fr by simp
  qed
  moreover have "closing_ok w'"
  proof -
    have ne: "d \<noteq> c" if "d \<in> set (w_closing w)" for d using closing_okD(1) [OF ok(7) that] c(2) by auto
    have "\<exists>x < Suc ?s. ms_client (w_session w' x) = d" if "d \<in> set (w_closing w)" for d
      using closing_okD(1) [OF ok(7) that] cl by (auto intro: less_SucI)
    moreover have "holders w' d = 0" if "d \<in> set (w_closing w)" for d
      using closing_okD(2) [OF ok(7) that nc] ne [OF that] by (simp add: holders_def fr)
    moreover have "ms_client (w_session w' x) \<noteq> d" if "d \<in> set (w_closing w)" "x \<in> set (sessions w' k)" for d x k
    proof (cases "x = ?s")
      case True
      then show ?thesis using ne [OF that(1)] ses(1) by simp
    next
      case False
      then have "x \<in> set (sessions w k)" using that(2) by (simp add: mem)
      then show ?thesis using closing_okD(3) [OF ok(7) that(1) nc] ses(2) [OF False] by simp
    qed
    ultimately show ?thesis unfolding closing_ok_def fr by blast
  qed
  ultimately show ?thesis by (simp add: manager_inv_def)
qed

section \<open>Every step keeps the invariant\<close>

lemma find_SomeD: "find P xs = Some x \<Longrightarrow> x \<in> set xs \<and> P x"
  by (induction xs) (auto split: if_splits)

lemma prune_inv:
  assumes "manager_inv w" "\<not> sm_closed (w_manager w)" "findAvailableSession key w = (r, v)"
  shows "manager_inv v" "delists w v"
proof -
  have ok: "table_ok w" "closing_ok w" using assms(1) by (simp_all add: manager_inv_def)
  note d = findAvailableSession_delists [OF ok(1) assms(3)]
  show "delists w v" by (rule d)
  show "manager_inv v"
    by (rule delists_inv [OF assms(1) d(1)]) (use closing_okD(3) [OF ok(2) _ assms(2)] d(2) in auto)
qed

lemma session_upd_swap: "ms\<lparr>ms_idleTimer := t, ms_refCount := n\<rparr> = ms\<lparr>ms_refCount := n, ms_idleTimer := t\<rparr>"
  by simp

lemma select_inv:
  assumes inv: "manager_inv w" and p: "w_procs w p = Some (AcqStart cfg)" and sel: "Acquire_select cfg w = (pc, w')"
  shows "manager_inv (w'\<lparr>w_procs := (w_procs w')(p \<mapsto> pc)\<rparr>)"
proof (cases "sm_closed (w_manager w)")
  case True
  then have w': "w' = w" "pc = AcqReturned (Inl ErrSessionManagerClosed)" using sel by (simp_all add: Acquire_select_def)
  show ?thesis unfolding w' using p by (intro procs_inv inv) (simp_all add: proc_def)
next
  case False
  let ?k = "sessionKeyFor cfg"
  obtain r v where find: "findAvailableSession ?k w = (r, v)" by fastforce
  note pr = prune_inv [OF inv False find]
  have ok: "table_ok v" "count_ok v" "timer_ok v" using pr(1) by (simp_all add: manager_inv_def)
  have pv: "w_procs v p = Some (AcqStart cfg)" using p delists_frame(10) [OF pr(2)] by simp
  have start: "manager_inv (u\<lparr>w_procs := (w_procs u)(p \<mapsto> pc')\<rparr>)"
    if "manager_inv u" "w_procs u p = Some (AcqStart cfg)" "connecting pc' = None" "carries pc' = None" "publishes pc' = None" for u pc'
    using that by (intro procs_inv) (simp_all add: proc_def)
  show ?thesis
  proof (cases r)
    case (Some s)
    have found: "s \<in> set (sessions v ?k)" "available v s"
    proof -
      obtain live where live: "r = find (available v) live" "sessions v ?k = live"
        using find by (auto simp: findAvailableSession_def Let_def)
      then show "s \<in> set (sessions v ?k)" "available v s" 
        using find_SomeD [of "available v" live s] Some by simp_all
    qed
    let ?c = "ms_client (w_session v s)" and ?ms = "w_session v s"
    let ?a = "filter (\<lambda>e. ms_idleTimer ?ms \<noteq> Some (fst e)) (w_armed v)"
    have w': "w' = v\<lparr>w_session := (w_session v)(s := ?ms\<lparr>ms_refCount := ms_refCount ?ms + 1, ms_idleTimer := None\<rparr>),
        w_armed := ?a, w_nextTimer := w_nextTimer v, w_held := (cf_Serial cfg, ?c) # w_held v\<rparr>"
      and pc: "pc = AcqReturned (Inr ?c)"
      using sel False find Some by (auto simp: Acquire_select_def Let_def stop_idle_eq update_session_def session_upd_swap)
    note c = count_okD [OF ok(2) found(1)]
    have "manager_inv w'"
    proof (rule touch_inv [OF pr(1) found(1) w'])
      show "ms_refCount ?ms + 1 = int (length (filter (\<lambda>x. snd x = ?c) ((cf_Serial cfg, ?c) # w_held v)))" using c(1) by simp
      show "ms_refCount ?ms + 1 \<le> ms_maxRealms ?ms" using found(2) by (simp add: available_def)
      show "ser = sk_serial ?k" if "(ser, ?c) \<in> set ((cf_Serial cfg, ?c) # w_held v)" for ser
        using that c(3) sessionKeyFor_max(2) by auto
      show "\<exists>t due. None = Some t \<and> (t, due, ?k, s) \<in> set ?a" if "ms_refCount ?ms + 1 = 0" using that c(1) by simp
      show "distinct (map fst ?a)" using timer_okD(5) [OF ok(3)] by (simp add: distinct_map_filter)
    qed (use timer_okD(4) [OF ok(3)] in auto)
    then show ?thesis unfolding pc using pv by (intro start) (simp_all add: w')
  next
    case None
    show ?thesis
    proof (cases "sk_p2pPort ?k \<noteq> 0 \<and> sessions v ?k \<noteq> []")
      case True
      then have w': "w' = v" "pc = AcqReturned (Inl (ErrFixedPortCapacity (sk_p2pPort ?k)))"
        using sel False find None by (auto simp: Acquire_select_def Let_def)
      show ?thesis unfolding w' using pr(1) pv by (intro start) simp_all
    next
      case cap: False
      show ?thesis
      proof (cases "map_of (sm_inflight (w_manager v)) ?k")
        case (Some flight)
        then have w': "w' = v" "pc = AcqWait cfg flight"
          using sel False find None cap by (auto simp: Acquire_select_def Let_def)
        show ?thesis unfolding w' using pr(1) pv by (intro start) simp_all
      next
        case fl: None
        let ?f = "w_nextInflight v"
        have w': "w' = v\<lparr>w_inflight := (w_inflight v)(?f := \<lparr>if_done = False, if_err = None\<rparr>), w_nextInflight := Suc ?f,
            w_manager := (w_manager v)\<lparr>sm_inflight := AList.update ?k ?f (sm_inflight (w_manager v))\<rparr>\<rparr>"
          and pc: "pc = AcqConnect cfg ?f"
          using sel False find None cap fl by (auto simp: Acquire_select_def Let_def)
        have "w'\<lparr>w_procs := (w_procs w')(p \<mapsto> pc)\<rparr> =
          ((v\<lparr>w_manager := (w_manager v)\<lparr>sm_inflight := AList.update ?k ?f (sm_inflight (w_manager v))\<rparr>,
             w_procs := (w_procs v)(p \<mapsto> AcqConnect cfg ?f)\<rparr>)
            \<lparr>w_inflight := (w_inflight v)(?f := \<lparr>if_done = False, if_err = None\<rparr>)\<rparr>)\<lparr>w_nextInflight := Suc ?f\<rparr>"
          by (simp add: w' pc)
        moreover have "manager_inv (v\<lparr>w_manager := (w_manager v)\<lparr>sm_inflight := AList.update ?k ?f (sm_inflight (w_manager v))\<rparr>,
             w_procs := (w_procs v)(p \<mapsto> AcqConnect cfg ?f)\<rparr>)"
          using cap by (intro flight_start_inv [OF pr(1) pv fl]) simp
        ultimately show ?thesis by (simp only: inflight_store_inv)
      qed
    qed
  qed
qed


lemma length_filter_remove1:
  "x \<in> set xs \<Longrightarrow> P x \<Longrightarrow> length (filter P xs) = Suc (length (filter P (remove1 x xs)))"
  by (induction xs) auto

lemma filter_remove1_other: "\<not> P x \<Longrightarrow> filter P (remove1 x xs) = filter P xs"
  by (induction xs) auto

lemma release_inv:
  assumes inv: "manager_inv w" and h: "(ser, c) \<in> set (w_held w)"
  shows "manager_inv (Release ser c (w\<lparr>w_held := remove1 (ser, c) (w_held w)\<rparr>))" (is "manager_inv (Release ser c ?u)")
proof -
  let ?h = "remove1 (ser, c) (w_held w)"
  have ok: "table_ok w" "count_ok w" "timer_ok w" "callback_ok w" "flight_ok w" "owned_ok w" "closing_ok w"
    using inv by (simp_all add: manager_inv_def)
  have d: "distinct (map fst (sm_sessions (w_manager w)))" using ok(1) by (simp add: table_ok_def)
  have ser: "serial_sessions ser ?u = serial_sessions ser w" by (simp add: serial_sessions_def)
  have others: "filter (\<lambda>x. snd x = b) ?h = filter (\<lambda>x. snd x = b) (w_held w)" if "b \<noteq> c" for b
    using that by (intro filter_remove1_other) simp
  show ?thesis
  proof (cases "find (\<lambda>(key, s). ms_client (w_session w s) = c) (serial_sessions ser w)")
    case None
    have "ms_client (w_session w s) \<noteq> c" if s: "s \<in> set (sessions w k)" for k s
    proof
      assume eq: "ms_client (w_session w s) = c"
      then have "sk_serial k = ser" using count_okD(3) [OF ok(2) s] h by blast
      then have "(k, s) \<in> set (serial_sessions ser w)" using s by (simp add: serial_sessions_mem [OF d])
      then show False using None eq unfolding find_None_iff by auto
    qed
    moreover have "Release ser c ?u = ?u" using None by (simp add: Release_def ser)
    ultimately show ?thesis using drop_holder_inv [OF inv] by simp
  next
    case (Some ks)
    obtain k s where ks: "ks = (k, s)" by fastforce
    note f = find_SomeD [OF Some]
    have s: "s \<in> set (sessions w k)" "sk_serial k = ser" "ms_client (w_session w s) = c"
      using f by (auto simp: ks serial_sessions_mem [OF d])
    let ?ms = "w_session w s"
    let ?n = "ms_refCount ?ms - 1" and ?t = "w_nextTimer w"
    let ?a = "filter (\<lambda>e. ms_idleTimer ?ms \<noteq> Some (fst e)) (w_armed w)"
    have lt: "s < w_nextSession w" using table_okD(1) [OF ok(1) s(1)] .
    have cnt: "?n = int (length (filter (\<lambda>x. snd x = c) ?h))"
      using count_okD(1) [OF ok(2) s(1)] length_filter_remove1 [OF h, of "\<lambda>x. snd x = c"] s(3) by simp
    have sers: "ser' = sk_serial k" if "(ser', ms_client ?ms) \<in> set ?h" for ser'
      using that count_okD(3) [OF ok(2) s(1)] by (meson notin_set_remove1)
    have max: "?n \<le> ms_maxRealms ?ms" using count_okD(2) [OF ok(2) s(1)] by simp
    have find: "find (\<lambda>(key, s). ms_client (w_session ?u s) = c) (serial_sessions ser ?u) = Some (k, s)"
      using Some by (simp add: ks ser)
    show ?thesis
    proof (cases "?n > 0")
      case True
      have w': "Release ser c ?u = w\<lparr>w_session := (w_session w)(s := ?ms\<lparr>ms_refCount := ?n, ms_idleTimer := ms_idleTimer ?ms\<rparr>),
          w_armed := w_armed w, w_nextTimer := ?t, w_held := ?h\<rparr>"
        using True find by (simp add: Release_def Let_def update_session_def)
      show ?thesis
        by (rule touch_inv [OF inv s(1) w'])
          (use cnt max True others sers s(3) timer_okD(2-5) [OF ok(3)] lt in auto)
    next
      case False
      then have zero: "?n = 0" using cnt by simp
      show ?thesis
      proof (cases "Client_IsRetired (w_client w c)")
        case False
        let ?e = "(?t, w_now w + sm_IdleTimeout (w_manager w), k, s)"
        have w': "Release ser c ?u = w\<lparr>w_session := (w_session w)(s := ?ms\<lparr>ms_refCount := ?n, ms_idleTimer := Some ?t\<rparr>),
            w_armed := ?e # ?a, w_nextTimer := Suc ?t, w_held := ?h\<rparr>"
          using zero False find s(3)
          by (simp add: Release_def Let_def update_session_def stop_idle_eq session_client_def)
        have fresh: "fst e \<noteq> ?t" if "e \<in> set (w_armed w)" for e using timer_okD(4) [OF ok(3) that] by simp
        show ?thesis
        proof (rule touch_inv [OF inv s(1) w'])
          show "t < Suc ?t \<and> (\<forall>due k' s'. (t, due, k', s') \<in> set (?e # ?a) \<longrightarrow> s' = s)" if "Some ?t = Some t" for t
            using that fresh by fastforce
          show "distinct (map fst (?e # ?a))" 
          proof -
            have "?t \<notin> fst ` set ?a" using fresh by (metis (no_types, lifting) filter_is_subset image_iff subsetD)
            then show ?thesis using timer_okD(5) [OF ok(3)] by (simp add: distinct_map_filter)
          qed
          show "fst e < Suc ?t \<and> (e \<in> set (w_armed w) \<or> fst e = ?t)" if "e \<in> set (?e # ?a)" for e
            using that timer_okD(4) [OF ok(3), of e] by auto
        qed (use cnt max others sers s(3) in auto)
      next
        case True
        let ?v = "set_sessions k (remove1 s (sessions w k)) (w\<lparr>w_closing := [c] @ w_closing w\<rparr>)"
        let ?w = "Release ser c ?u"
        have w': "?w = ?v\<lparr>w_session := (w_session ?v)(s := (w_session ?v s)\<lparr>ms_refCount := 0, ms_idleTimer := None\<rparr>),
            w_armed := filter (\<lambda>e. ms_idleTimer (w_session ?v s) \<noteq> Some (fst e)) (w_armed ?v),
            w_held := remove1 (ser, ms_client (w_session ?v s)) (w_held ?v)\<rparr>"
          using zero True find s(3)
          by (simp add: Release_def Let_def update_session_def stop_idle_eq session_client_def set_sessions_def)
        have dist: "distinct (sessions w k)" using ok(1) by (simp add: table_ok_def)
        have del: "delists w ?v"
          by (rule delists_set [OF ok(1) subseq_remove1, where f = "\<lambda>_. True" and cs = "[c]"]) (use s dist in auto)
        have gone: "s \<notin> set (sessions ?v k')" for k'
          using table_okD(2) [OF ok(1) s(1)] dist by (auto simp: keyed_def)
        have six: "table_ok ?w \<and> count_ok ?w \<and> timer_ok ?w \<and> callback_ok ?w \<and> flight_ok ?w \<and> owned_ok ?w"
          by (rule unlisted_ok [OF delists_table [OF ok(1) del] delists_count [OF ok(2) del] delists_timer [OF ok(3) del]
                delists_callback [OF ok(4) del] delists_flight [OF ok(5) del] delists_owned [OF ok(6) del] gone _ w'])
            (simp add: lt)
        have nc: "\<not> sm_closed (w_manager w)" using ok(1) s(1) by (auto simp: table_ok_def sessions_def)
        have fr: "w_closing ?w = c # w_closing w" "w_nextSession ?w = w_nextSession w" "holders ?w b = length (filter (\<lambda>x. snd x = b) ?h)"
          "ms_client (w_session ?w x) = ms_client (w_session w x)" "sessions ?w k' = sessions ?v k'" for b x k'
          by (simp_all add: w' holders_def s(3))
        have "(\<exists>x < w_nextSession w. ms_client (w_session w x) = b) \<and> holders ?w b = 0 \<and>
            (\<forall>k' x. x \<in> set (sessions ?w k') \<longrightarrow> ms_client (w_session w x) \<noteq> b)" if "b \<in> set (c # w_closing w)" for b
        proof (cases "b = c")
          case True
          have "ms_client (w_session w x) \<noteq> c" if "x \<in> set (sessions ?v k')" for x k'
            using delisted_client [OF ok(1) del s(1) gone that] s(3) by simp
          then show ?thesis using True cnt zero lt s(3) by (auto simp: fr)
        next
          case False
          then have b: "b \<in> set (w_closing w)" using that by simp
          have "ms_client (w_session w x) \<noteq> b" if "x \<in> set (sessions ?v k')" for x k'
            using closing_okD(3) [OF ok(7) b nc] that delists_sub(1) [OF del] by blast
          moreover have "holders ?w b = holders w b" unfolding fr(3) others [OF False] by (simp add: holders_def)
          ultimately show ?thesis using closing_okD(1,2) [OF ok(7) b] nc unfolding fr(5) by auto
        qed
        then have "closing_ok ?w" unfolding closing_ok_def fr(1,2,4) by blast
        with six show ?thesis by (simp add: manager_inv_def)
      qed
    qed
  qed
qed


lemma manager_step_inv: "manager_step w w' \<Longrightarrow> manager_inv w \<Longrightarrow> manager_inv w'"
proof (induction rule: manager_step.induct)
  case (acquire w p cfg)
  then show ?case by (intro procs_inv) (simp_all add: proc_def)
next
  case (select w p cfg pc w')
  then show ?case using select_inv by blast
next
  case (woken w p cfg flight)
  then show ?case by (intro procs_inv) (auto simp: proc_def Acquire_woken_def split: option.split)
next
  case (connect_failed w p cfg flight new e)
  then show ?case by (intro procs_inv) (simp_all add: proc_def)
next
  case (connected w p cfg flight new cl)
  then show ?case using connected_inv by blast
next
  case (install w p cfg flight res pc w')
  let ?k = "sessionKeyFor cfg"
  have fl: "flight_ok w" using install.prems by (simp add: manager_inv_def)
  have pc: "proc connecting w p = Some (?k, flight)" using install.hyps(1) by (simp add: proc_def)
  have fail: "manager_inv ((w\<lparr>w_manager := (w_manager w)\<lparr>sm_inflight := AList.delete ?k (sm_inflight (w_manager w))\<rparr>,
      w_inflight := i, w_procs := (w_procs w)(p \<mapsto> AcqReport cfg flight e client)\<rparr>))"
    if "client = proc carries w p" for e i client
  proof -
    let ?u = "w\<lparr>w_procs := (w_procs w)(p \<mapsto> AcqReport cfg flight e client)\<rparr>"
    have u: "manager_inv ?u" using that install.hyps(1) by (intro procs_inv install.prems) (simp_all add: proc_def)
    have "proc connecting ?u q \<noteq> Some (?k, f)" for q f
      using flight_okD(2) [OF fl pc, of q f] by (cases "q = p") auto
    from flight_delete_inv [OF u this]
    have "manager_inv ((?u\<lparr>w_manager := (w_manager ?u)\<lparr>sm_inflight := AList.delete ?k (sm_inflight (w_manager ?u))\<rparr>\<rparr>)\<lparr>w_inflight := i\<rparr>)"
      by (simp only: inflight_store_inv)
    moreover have "w\<lparr>w_manager := (w_manager w)\<lparr>sm_inflight := AList.delete ?k (sm_inflight (w_manager w))\<rparr>,
        w_inflight := i, w_procs := (w_procs w)(p \<mapsto> AcqReport cfg flight e client)\<rparr> =
      (?u\<lparr>w_manager := (w_manager ?u)\<lparr>sm_inflight := AList.delete ?k (sm_inflight (w_manager ?u))\<rparr>\<rparr>)\<lparr>w_inflight := i\<rparr>" by simp
    ultimately show ?thesis by (simp only:)
  qed
  show ?case
  proof (cases res)
    case (Inl e)
    then show ?thesis using install.hyps fail by (auto simp: Acquire_install_def Let_def proc_def)
  next
    case (Inr c)
    show ?thesis
    proof (cases "sm_closed (w_manager w)")
      case True
      then show ?thesis using Inr install.hyps fail by (auto simp: Acquire_install_def Let_def proc_def)
    next
      case False
      let ?w = "(set_sessions ?k (sessions w ?k @ [w_nextSession w])
        (w\<lparr>w_manager := (w_manager w)\<lparr>sm_inflight := AList.delete ?k (sm_inflight (w_manager w))\<rparr>,
           w_session := (w_session w)(w_nextSession w :=
             \<lparr>ms_client = c, ms_refCount = 1, ms_idleTimer = None, ms_maxRealms = sk_maxRealms ?k\<rparr>),
           w_nextSession := Suc (w_nextSession w), w_held := (cf_Serial cfg, c) # w_held w\<rparr>))
        \<lparr>w_procs := (w_procs w)(p \<mapsto> AcqPublish cfg flight c (w_nextSession w))\<rparr>"
      have "manager_inv ?w" using install_inv [OF install.prems install.hyps(1) [unfolded Inr] False refl] .
      moreover have "w'\<lparr>w_procs := (w_procs w')(p \<mapsto> pc)\<rparr> =
          ?w\<lparr>w_inflight := (w_inflight w)(flight := (w_inflight w flight)\<lparr>if_err := None\<rparr>)\<rparr>"
        using install.hyps(2) False by (auto simp: Acquire_install_def Let_def Inr set_sessions_def)
      ultimately show ?thesis by (simp only: inflight_store_inv)
    qed
  qed
next
  case (publish w p cfg flight c s w')
  then show ?case using publish_inv [of w p cfg flight c s] by (auto simp: Acquire_publish_def Let_def client_moves_eq)
next
  case (report w p cfg flight e client w')
  then show ?case using report_inv [of w p cfg flight e client]
    by (cases client) (auto simp: Acquire_report_def Let_def close_client_def client_moves_eq)
next
  case (release serial c w)
  then show ?case using release_inv by blast
next
  case (fire t due key s w)
  then show ?case using fire_inv by blast
next
  case (idle t key s w)
  have ok: "table_ok w" "count_ok w" "closing_ok w" using idle.prems by (simp_all add: manager_inv_def)
  have eq: "idle_callback key s (w\<lparr>w_fired := f\<rparr>) = (idle_callback key s w)\<lparr>w_fired := f\<rparr>" for f
    by (simp add: idle_callback_def set_sessions_def)
  have fired: "w_fired (idle_callback key s w) = w_fired w" by (simp add: idle_callback_def)
  show ?case
  proof (cases "s \<in> set (sessions w key) \<and> \<not> ms_refCount (w_session w s) > 0")
    case True
    then have s: "s \<in> set (sessions w key)" "ms_refCount (w_session w s) \<le> 0" by simp_all
    note d = idle_delists [OF ok(1) s]
    have dist: "distinct (sessions w key)" using ok(1) by (simp add: table_ok_def)
    have zero: "holders w (ms_client (w_session w s)) = 0"
      using count_okD(1) [OF ok(2) s(1)] s(2) by (simp add: holders_def)
    have inv: "manager_inv (idle_callback key s w)"
    proof (rule delists_inv [OF idle.prems d(1)])
      fix k x assume x: "x \<in> set (sessions w k)" "x \<notin> set (sessions (idle_callback key s w) k)"
        "ms_client (w_session w x) \<in> set (w_closing (idle_callback key s w))" "\<not> sm_closed (w_manager (idle_callback key s w))"
      have nc: "\<not> sm_closed (w_manager w)" using x(4) delistsD(1) [OF d(1)] by blast
      have "ms_client (w_session w x) \<notin> set (w_closing w)" using not_listed_client [OF ok(3) x(1) nc] .
      then show "holders w (ms_client (w_session w x)) = 0" using x(3) d(2) zero by simp
    qed
    have "manager_inv ((idle_callback key s w)\<lparr>w_fired := remove1 (t, key, s) (w_fired (idle_callback key s w))\<rparr>)"
      using dist by (intro fired_drop_inv inv) (simp add: d(3))
    then show ?thesis unfolding eq fired .
  next
    case False
    then have "idle_callback key s w = w" by (auto simp: idle_callback_def)
    moreover have "manager_inv (w\<lparr>w_fired := remove1 (t, key, s) (w_fired w)\<rparr>)"
      using False by (intro fired_drop_inv idle.prems) auto
    ultimately show ?thesis unfolding eq by simp
  qed
next
  case (forgotten key s w)
  have ok: "table_ok w" "callback_ok w" "closing_ok w" using forgotten.prems by (simp_all add: manager_inv_def)
  have f: "s < w_nextSession w" "keyed w s key" "client_closed w (ms_client (w_session w s))"
    using callback_okD(2) [OF ok(2) forgotten.hyps] by blast+
  note d = forget_delists [OF ok(1) f]
  have inv: "manager_inv (forget key s w)"
  proof (rule delists_inv [OF forgotten.prems d(1)])
    fix k x assume x: "x \<in> set (sessions w k)" "ms_client (w_session w x) \<in> set (w_closing (forget key s w))"
      "\<not> sm_closed (w_manager (forget key s w))"
    have "\<not> sm_closed (w_manager w)" using x(3) delistsD(1) [OF d(1)] by blast
    then show "holders w (ms_client (w_session w x)) = 0" using not_listed_client [OF ok(3) x(1)] x(2) d(2) by simp
  qed
  have dist: "distinct (sessions w key)" using ok(1) by (simp add: table_ok_def)
  have "s \<notin> set (sessions (forget key s w) key)" using dist by (simp add: forget_def Let_def stop_idle_eq)
  from forgets_drop_inv [OF inv this]
  have "manager_inv ((forget key s w)\<lparr>w_forgets := remove1 (key, s) (w_forgets w)\<rparr>)"
    by (simp add: forget_def Let_def stop_idle_eq)
  moreover have "forget key s (w\<lparr>w_forgets := f\<rparr>) = (forget key s w)\<lparr>w_forgets := f\<rparr>" for f
    by (simp add: forget_def Let_def stop_idle_eq set_sessions_def)
  ultimately show ?case by simp
next
  case (close c w)
  have ok: "table_ok w" "closing_ok w" using close.prems by (simp_all add: manager_inv_def)
  have "c < w_nextClient w" using closing_okD(1) [OF ok(2) close.hyps] ok(1) by (auto simp: table_ok_def)
  note cl = close_client_inv [OF close.prems this]
  have "w_closing (close_client c w) = w_closing w" by (simp add: close_client_def client_moves_eq)
  then have "close_client c (w\<lparr>w_closing := remove1 c (w_closing w)\<rparr>) =
      (close_client c w)\<lparr>w_closing := remove1 c (w_closing (close_client c w))\<rparr>"
    by (simp add: close_client_def client_moves_eq callbacks_def)
  then show ?case using closing_drop_inv [OF cl] by simp
next
  case (client c w cl)
  have "dial_reachable (cl_tunnel (w_client w c))"
    using client.prems client.hyps(1) callback_okD(5) by (auto simp: manager_inv_def)
  then show ?case
    using client client_moves_inv dial_step_advances reachable_dial dial_reachable.step by blast
next
  case (close_all w)
  have ok: "table_ok w" using close_all by (simp add: manager_inv_def)
  show ?case by (rule delists_inv [OF close_all CloseAll_delists(1) [OF ok]]) (use CloseAll_delists(2) [OF ok] in simp)
next
  case (tick d w)
  then show ?case by simp
qed

lemma reachable_manager: "manager_reachable w \<Longrightarrow> manager_inv w"
proof (induction rule: manager_reachable.induct)
  case (init w d)
  have "sessions w k = []" for k using init(1) by (simp add: sessions_def NewSessionManager_def)
  then show ?case
    using init by (simp add: manager_inv_def table_ok_def count_ok_def timer_ok_def callback_ok_def flight_ok_def owned_ok_def
        closing_ok_def proc_def NewSessionManager_def)
qed (rule manager_step_inv)

end
