(* ===== verification/Session_Pool.thy ===== *)
theory Session_Pool
  imports Session_Steps
begin

text \<open>
  What the session manager promises: it refines a pool of counted leases, keeps to the capacity of a
  tunnel and to one tunnel per configuration with a fixed port, and loses track of no tunnel it opened.
\<close>

section \<open>The specification: a pool of leases\<close>

text \<open>
  What users of the manager may rely on, without keys, timers, callbacks or goroutines: for each
  client on offer the number of leases and the capacity. \<open>dead\<close> and \<open>retired\<close> say which tunnels have
  closed or were retired, \<open>down\<close> that the manager was closed.
\<close>

type_synonym pool = "client_ref \<rightharpoonup> int \<times> int"

inductive pool_step :: "(client_ref \<Rightarrow> bool) \<Rightarrow> (client_ref \<Rightarrow> bool) \<Rightarrow> bool \<Rightarrow> pool \<Rightarrow> pool \<Rightarrow> bool"
  for dead retired down where
  offer: "m c = None \<Longrightarrow> 1 \<le> cap \<Longrightarrow> \<not> down \<Longrightarrow> pool_step dead retired down m (m(c \<mapsto> (1, cap)))"
| lease: "m c = Some (n, cap) \<Longrightarrow> n < cap \<Longrightarrow> \<not> dead c \<Longrightarrow> \<not> retired c \<Longrightarrow> \<not> down \<Longrightarrow>
    pool_step dead retired down m (m(c \<mapsto> (n + 1, cap)))"
| give_back: "m c = Some (n, cap) \<Longrightarrow> 0 < n \<Longrightarrow> pool_step dead retired down m (m(c \<mapsto> (n - 1, cap)))"
| drop: "m c = Some (n, cap) \<Longrightarrow> n = 0 \<or> dead c \<or> down \<Longrightarrow> pool_step dead retired down m (m(c := None))"

definition pool_of :: "world \<Rightarrow> pool" where
  "pool_of w = map_of (map (\<lambda>s. (ms_client (w_session w s), ms_refCount (w_session w s), ms_maxRealms (w_session w s)))
     (concat (map snd (sm_sessions (w_manager w)))))"

abbreviation pool_steps :: "world \<Rightarrow> world \<Rightarrow> pool \<Rightarrow> pool \<Rightarrow> bool" where
  "pool_steps w w' \<equiv> (pool_step (client_closed w) (\<lambda>c. Client_IsRetired (w_client w c)) (sm_closed (w_manager w')))\<^sup>*\<^sup>*"

section \<open>The manager implements it\<close>

lemma pool_of_iff:
  assumes "table_ok w"
  shows "pool_of w c = Some x \<longleftrightarrow> (\<exists>k s. s \<in> set (sessions w k) \<and> ms_client (w_session w s) = c \<and>
    x = (ms_refCount (w_session w s), ms_maxRealms (w_session w s)))"
proof -
  let ?all = "concat (map snd (sm_sessions (w_manager w)))"
  let ?f = "\<lambda>s. (ms_refCount (w_session w s), ms_maxRealms (w_session w s))"
  let ?l = "map (\<lambda>s. (ms_client (w_session w s), ?f s)) ?all"
  have d: "distinct (map fst (sm_sessions (w_manager w)))" using assms by (simp add: table_ok_def)
  have all: "s \<in> set ?all \<longleftrightarrow> (\<exists>k. s \<in> set (sessions w k))" for s by (force simp: sessions_mem [OF d])
  have uniq: "s = s'" if "s \<in> set ?all" "s' \<in> set ?all" "ms_client (w_session w s) = ms_client (w_session w s')" for s s'
    using that same_client [OF assms] table_okD(1) [OF assms] unfolding all by blast
  show ?thesis
  proof
    assume "pool_of w c = Some x"
    then have "(c, x) \<in> set ?l" unfolding pool_of_def by (rule map_of_SomeD)
    then show "\<exists>k s. s \<in> set (sessions w k) \<and> ms_client (w_session w s) = c \<and> x = ?f s"
    proof -
      obtain s where "s \<in> set ?all" "(c, x) = (ms_client (w_session w s), ?f s)" using \<open>(c, x) \<in> set ?l\<close> unfolding set_map by blast
      then show ?thesis using all [of s] by blast
    qed
  next
    assume "\<exists>k s. s \<in> set (sessions w k) \<and> ms_client (w_session w s) = c \<and> x = ?f s"
    then obtain s where s: "s \<in> set ?all" "ms_client (w_session w s) = c" "x = ?f s" using all by blast
    have "(c, x) \<in> set ?l" unfolding set_map using s by (intro image_eqI [of _ _ s]) simp_all
    then obtain y where y: "map_of ?l c = Some y" using weak_map_of_SomeI by fast
    then have "(c, y) \<in> set ?l" by (rule map_of_SomeD)
    then obtain s' where s': "s' \<in> set ?all" "(c, y) = (ms_client (w_session w s'), ?f s')" unfolding set_map by blast
    have "ms_client (w_session w s) = ms_client (w_session w s')" using s(2) s'(2) by blast
    from uniq [OF s(1) s'(1) this] have "y = x" using s(3) s'(2) by blast
    then show "pool_of w c = Some x" using y unfolding pool_of_def by blast
  qed
qed

lemma pool_of_listed:
  "table_ok w \<Longrightarrow> s \<in> set (sessions w k) \<Longrightarrow>
    pool_of w (ms_client (w_session w s)) = Some (ms_refCount (w_session w s), ms_maxRealms (w_session w s))"
  using pool_of_iff by blast

lemma pool_eqI:
  assumes "table_ok w" "table_ok w'"
    "\<And>k s. s \<in> set (sessions w' k) \<Longrightarrow> m (ms_client (w_session w' s)) = Some (ms_refCount (w_session w' s), ms_maxRealms (w_session w' s))"
    "\<And>c x. m c = Some x \<Longrightarrow> \<exists>k s. s \<in> set (sessions w' k) \<and> ms_client (w_session w' s) = c"
  shows "pool_of w' = m"
proof
  fix c
  show "pool_of w' c = m c"
  proof (cases "m c")
    case None
    then show ?thesis using assms(3) pool_of_iff [OF assms(2)] by (metis not_None_eq)
  next
    case (Some x)
    then obtain k s where s: "s \<in> set (sessions w' k)" "ms_client (w_session w' s) = c" using assms(4) by blast
    then show ?thesis using pool_of_listed [OF assms(2) s(1)] assms(3) [OF s(1)] by simp
  qed
qed

text \<open>Taking any number of clients off the offer.\<close>

lemma drops:
  assumes "finite D" "\<And>c. c \<in> D \<Longrightarrow> \<exists>n cap. m c = Some (n, cap) \<and> (n = 0 \<or> dead c \<or> down)"
  shows "(pool_step dead retired down)\<^sup>*\<^sup>* m (m |` (- D))"
  using assms
proof (induction D rule: finite_induct)
  case (insert c D)
  have IH: "(pool_step dead retired down)\<^sup>*\<^sup>* m (m |` (- D))" using insert by blast
  obtain n cap where c: "m c = Some (n, cap)" "n = 0 \<or> dead c \<or> down" using insert.prems by blast
  then have "(m |` (- D)) c = Some (n, cap)" using insert.hyps by (simp add: restrict_map_def)
  then have "pool_step dead retired down (m |` (- D)) ((m |` (- D))(c := None))"
    using c(2) pool_step.drop [of "m |` (- D)" c n cap dead down retired] by blast
  moreover have "(m |` (- D))(c := None) = m |` (- insert c D)" by (auto simp: restrict_map_def fun_eq_iff)
  ultimately show ?case using IH by (simp add: rtranclp.rtrancl_into_rtrancl)
qed (simp add: restrict_map_def)

lemma delists_pool:
  assumes t: "table_ok w" "table_ok w'" and d: "delists w w'"
    and why: "\<And>k s. s \<in> set (sessions w k) \<Longrightarrow> s \<notin> set (sessions w' k) \<Longrightarrow>
      ms_refCount (w_session w s) = 0 \<or> dead (ms_client (w_session w s)) \<or> down"
  shows "(pool_step dead retired down)\<^sup>*\<^sup>* (pool_of w) (pool_of w')"
proof -
  let ?D = "{c. \<exists>k s. s \<in> set (sessions w k) \<and> s \<notin> set (sessions w' k) \<and> ms_client (w_session w s) = c}"
  have "?D \<subseteq> dom (pool_of w)" using pool_of_listed [OF t(1)] by auto
  moreover have "finite (dom (pool_of w))" by (simp add: pool_of_def finite_dom_map_of)
  ultimately have fin: "finite ?D" by (rule finite_subset)
  have "(pool_step dead retired down)\<^sup>*\<^sup>* (pool_of w) (pool_of w |` (- ?D))"
  proof (rule drops [OF fin])
    fix c assume "c \<in> ?D"
    then obtain k s where s: "s \<in> set (sessions w k)" "s \<notin> set (sessions w' k)" "ms_client (w_session w s) = c" by blast
    then show "\<exists>n cap. pool_of w c = Some (n, cap) \<and> (n = 0 \<or> dead c \<or> down)"
      using pool_of_listed [OF t(1) s(1)] why [OF s(1,2)] by auto
  qed
  moreover have "pool_of w' = pool_of w |` (- ?D)"
  proof (rule pool_eqI [OF t])
    fix k s assume s: "s \<in> set (sessions w' k)"
    have s': "s \<in> set (sessions w k)" using s delists_sub(1) [OF d] by blast
    have "ms_client (w_session w s) \<notin> ?D" using delisted_client [OF t(1) d _ _ s] by fastforce
    then show "(pool_of w |` (- ?D)) (ms_client (w_session w' s)) = Some (ms_refCount (w_session w' s), ms_maxRealms (w_session w' s))"
      using pool_of_listed [OF t(1) s'] by (simp add: delists_frame(1) [OF d] restrict_map_def)
  next
    fix c x assume "(pool_of w |` (- ?D)) c = Some x"
    then have "c \<notin> ?D" "pool_of w c = Some x" by (auto simp: restrict_map_def split: if_splits)
    then show "\<exists>k s. s \<in> set (sessions w' k) \<and> ms_client (w_session w' s) = c"
      using pool_of_iff [OF t(1)] by (auto simp: delists_frame(1) [OF d])
  qed
  ultimately show ?thesis by simp
qed

lemma pool_of_cong:
  "sm_sessions (w_manager w') = sm_sessions (w_manager w) \<Longrightarrow> w_session w' = w_session w \<Longrightarrow> pool_of w' = pool_of w"
  by (simp add: pool_of_def)

lemma pool_touch:
  assumes t: "table_ok w" "table_ok w'" and s: "s \<in> set (sessions w k)"
    and w': "\<And>k. sessions w' k = sessions w k" "w_session w' = (w_session w)(s := ms)"
      "ms_client ms = ms_client (w_session w s)" "ms_maxRealms ms = ms_maxRealms (w_session w s)"
  shows "pool_of w' = (pool_of w)(ms_client (w_session w s) \<mapsto> (ms_refCount ms, ms_maxRealms (w_session w s)))"
proof (rule pool_eqI [OF t])
  fix k' x assume x: "x \<in> set (sessions w' k')"
  then have "ms_client (w_session w x) = ms_client (w_session w s) \<Longrightarrow> x = s"
    using same_client [OF t(1)] table_okD(1) [OF t(1)] s by (simp add: w'(1))
  then show "((pool_of w)(ms_client (w_session w s) \<mapsto> (ms_refCount ms, ms_maxRealms (w_session w s)))) (ms_client (w_session w' x)) =
      Some (ms_refCount (w_session w' x), ms_maxRealms (w_session w' x))"
    using x pool_of_listed [OF t(1)] by (auto simp: w')
next
  fix c x assume "((pool_of w)(ms_client (w_session w s) \<mapsto> (ms_refCount ms, ms_maxRealms (w_session w s)))) c = Some x"
  then have "\<exists>k y. y \<in> set (sessions w k) \<and> ms_client (w_session w y) = c"
    using pool_of_iff [OF t(1)] s by (auto split: if_splits)
  then show "\<exists>k y. y \<in> set (sessions w' k) \<and> ms_client (w_session w' y) = c"
    by (auto simp: w')
qed

lemma pool_remove:
  assumes t: "table_ok w" "table_ok w'" and s: "s \<in> set (sessions w k)"
    and w': "\<And>k'. sessions w' k' = (if k' = k then remove1 s (sessions w k) else sessions w k')"
      "\<And>x. x \<noteq> s \<Longrightarrow> w_session w' x = w_session w x"
  shows "pool_of w' = (pool_of w)(ms_client (w_session w s) := None)"
proof (rule pool_eqI [OF t])
  have d: "distinct (sessions w k)" using t(1) by (simp add: table_ok_def)
  fix k' x assume x: "x \<in> set (sessions w' k')"
  have x': "x \<in> set (sessions w k')" "x \<noteq> s"
  proof -
    show "x \<in> set (sessions w k')" using x d by (cases "k' = k") (simp_all add: w'(1))
    show "x \<noteq> s"
    proof (cases "k' = k")
      case True
      then show ?thesis using x d by (auto simp: w'(1))
    next
      case False
      then have "x \<in> set (sessions w k')" using x by (simp add: w'(1))
      then show ?thesis using False table_okD(2) [OF t(1) s] unfolding keyed_def by blast
    qed
  qed
  have "ms_client (w_session w x) \<noteq> ms_client (w_session w s)"
    using same_client [OF t(1) table_okD(1) [OF t(1) x'(1)] table_okD(1) [OF t(1) s]] x'(2) by blast
  then show "((pool_of w)(ms_client (w_session w s) := None)) (ms_client (w_session w' x)) =
      Some (ms_refCount (w_session w' x), ms_maxRealms (w_session w' x))"
    using x' pool_of_listed [OF t(1)] by (simp add: w')
next
  fix c x assume "((pool_of w)(ms_client (w_session w s) := None)) c = Some x"
  then obtain k' y where "c \<noteq> ms_client (w_session w s)" "y \<in> set (sessions w k')" "ms_client (w_session w y) = c"
    using pool_of_iff [OF t(1)] by (auto split: if_splits)
  moreover from this have "y \<noteq> s" by blast
  ultimately show "\<exists>k y. y \<in> set (sessions w' k) \<and> ms_client (w_session w' y) = c"
    by (intro exI [of _ k'] exI [of _ y]) (auto simp: w' in_set_remove1)
qed

text \<open>The two operations that change a count, and the one that adds a session.\<close>

lemma release_pool:
  assumes inv: "manager_inv w" and h: "(ser, c) \<in> set (w_held w)"
  defines "w' \<equiv> Release ser c (w\<lparr>w_held := remove1 (ser, c) (w_held w)\<rparr>)"
  shows "(pool_step dead retired down)\<^sup>*\<^sup>* (pool_of w) (pool_of w')"
proof -
  let ?u = "w\<lparr>w_held := remove1 (ser, c) (w_held w)\<rparr>"
  have t: "table_ok w" "count_ok w" "table_ok w'"
    using inv release_inv [OF inv h] by (simp_all add: manager_inv_def w'_def)
  have d: "distinct (map fst (sm_sessions (w_manager w)))" using t(1) by (simp add: table_ok_def)
  have ser: "serial_sessions ser ?u = serial_sessions ser w" by (simp add: serial_sessions_def)
  show ?thesis
  proof (cases "find (\<lambda>(key, s). ms_client (w_session w s) = c) (serial_sessions ser w)")
    case None
    then have "w' = ?u" by (simp add: w'_def Release_def ser)
    then show ?thesis using pool_of_cong [of w' w] by simp
  next
    case (Some ks)
    obtain k s where ks: "ks = (k, s)" by fastforce
    have s: "s \<in> set (sessions w k)" "ms_client (w_session w s) = c"
      using find_SomeD [OF Some] by (auto simp: ks serial_sessions_mem [OF d])
    let ?ms = "w_session w s"
    let ?n = "ms_refCount ?ms" and ?cap = "ms_maxRealms ?ms"
    have pos: "0 < ?n"
    proof -
      have "filter (\<lambda>x. snd x = c) (w_held w) \<noteq> []" using h by (force simp: filter_empty_conv)
      then show ?thesis using count_okD(1) [OF t(2) s(1)] s(2) by simp
    qed
    have in_pool: "pool_of w c = Some (?n, ?cap)" using pool_of_listed [OF t(1) s(1)] s(2) by simp
    then have less: "pool_step dead retired down (pool_of w) ((pool_of w)(c \<mapsto> (?n - 1, ?cap)))"
      using pos pool_step.give_back [of "pool_of w" c ?n ?cap] by blast
    have find: "find (\<lambda>(key, s). ms_client (w_session ?u s) = c) (serial_sessions ser ?u) = Some (k, s)"
      using Some by (simp add: ks ser)
    show ?thesis
    proof (cases "?n - 1 = 0 \<and> Client_IsRetired (w_client w c)")
      case True
      have "sessions w' k' = (if k' = k then remove1 s (sessions w k) else sessions w k')"
        "x \<noteq> s \<Longrightarrow> w_session w' x = w_session w x" for k' x
        using True find s(2)
        by (auto simp: w'_def Release_def Let_def update_session_def stop_idle_eq session_client_def)
      from pool_remove [OF t(1,3) s(1) this]
      have "pool_of w' = ((pool_of w)(c \<mapsto> (?n - 1, ?cap)))(c := None)" by (simp add: s(2))
      moreover have "pool_step dead retired down ((pool_of w)(c \<mapsto> (?n - 1, ?cap))) (((pool_of w)(c \<mapsto> (?n - 1, ?cap)))(c := None))"
        using True by (intro pool_step.drop [of _ c 0 ?cap]) simp_all
      ultimately show ?thesis using less by simp
    next
      case False
      have "\<exists>ms. (\<forall>k. sessions w' k = sessions w k) \<and> w_session w' = (w_session w)(s := ms) \<and> ms_client ms = ms_client ?ms \<and>
          ms_maxRealms ms = ?cap \<and> ms_refCount ms = ?n - 1"
      proof (cases "?n - 1 > 0")
        case True
        then show ?thesis using find by (auto simp: w'_def Release_def Let_def update_session_def)
      next
        case no: False
        then show ?thesis using pos False find s(2)
          by (auto simp: w'_def Release_def Let_def update_session_def stop_idle_eq session_client_def)
      qed
      then obtain ms where "\<And>k. sessions w' k = sessions w k" "w_session w' = (w_session w)(s := ms)" "ms_client ms = ms_client ?ms"
        "ms_maxRealms ms = ?cap" "ms_refCount ms = ?n - 1" by blast
      from pool_touch [OF t(1,3) s(1) this(1-4)] this(5) show ?thesis using less s(2) by simp
    qed
  qed
qed

lemma select_pool:
  assumes inv: "manager_inv w" and p: "w_procs w p = Some (AcqStart cfg)" and sel: "Acquire_select cfg w = (pc, w')"
  shows "(pool_step (client_closed w) (\<lambda>c. Client_IsRetired (w_client w c)) (sm_closed (w_manager w')))\<^sup>*\<^sup>* (pool_of w) (pool_of w')"
    (is "?step\<^sup>*\<^sup>* _ _")
proof (cases "sm_closed (w_manager w)")
  case True
  then show ?thesis using sel by (simp add: Acquire_select_def)
next
  case False
  let ?k = "sessionKeyFor cfg"
  obtain r v where find: "findAvailableSession ?k w = (r, v)" by fastforce
  note pr = prune_inv [OF inv False find]
  have t: "table_ok w" "table_ok v" using inv pr(1) by (simp_all add: manager_inv_def)
  have v: "v = snd (findAvailableSession ?k w)" using find by simp
  have live: "sessions v k = (if k = ?k then filter (\<lambda>s. \<not> client_closed w (ms_client (w_session w s))) (sessions w k) else sessions w k)"
    and open_still: "sm_closed (w_manager v) = sm_closed (w_manager w)" for k
    unfolding v by (simp_all add: findAvailableSession_def Let_def session_client_def client_defs fold_stop_idle)
  have prune: "?step\<^sup>*\<^sup>* (pool_of w) (pool_of v)"
    by (rule delists_pool [OF t pr(2)]) (simp add: live split: if_splits)
  show ?thesis
  proof (cases r)
    case None
    then have "pool_of w' = pool_of v"
      using sel False find by (auto simp: Acquire_select_def Let_def split: if_splits option.splits intro!: pool_of_cong)
    then show ?thesis using prune by simp
  next
    case (Some s)
    have found: "s \<in> set (sessions v ?k)" "available v s"
    proof -
      obtain l where l: "r = find (available v) l" "sessions v ?k = l"
        using find by (auto simp: findAvailableSession_def Let_def)
      then show "s \<in> set (sessions v ?k)" "available v s" using find_SomeD [of "available v" l s] Some by simp_all
    qed
    let ?ms = "w_session v s"
    let ?c = "ms_client ?ms" and ?n = "ms_refCount ?ms" and ?cap = "ms_maxRealms ?ms"
    have fr: "w_client v = w_client w" "w_session v = w_session w" using delists_frame [OF pr(2)] by simp_all
    have "\<not> client_closed w ?c" using found(1) by (simp add: live fr)
    moreover have "?n < ?cap" "\<not> Client_IsRetired (w_client w ?c)" using found(2) by (simp_all add: available_def session_client_def fr)
    moreover have "\<not> sm_closed (w_manager w')"
      using sel False find Some open_still by (auto simp: Acquire_select_def Let_def stop_idle_eq update_session_def)
    ultimately have lease: "?step (pool_of v) ((pool_of v)(?c \<mapsto> (?n + 1, ?cap)))"
      using pool_of_listed [OF t(2) found(1)] by (intro pool_step.lease)
    have "table_ok w'"
      using select_inv [OF inv p sel] by (simp add: manager_inv_def table_ok_def sessions_def)
    moreover have "sessions w' k = sessions v k"
      "w_session w' = (w_session v)(s := ?ms\<lparr>ms_idleTimer := None, ms_refCount := ?n + 1\<rparr>)" for k
      using sel False find Some by (auto simp: Acquire_select_def Let_def stop_idle_eq update_session_def)
    ultimately have "pool_of w' = (pool_of v)(?c \<mapsto> (?n + 1, ?cap))" using pool_touch [OF t(2) _ found(1)] by simp
    then show ?thesis using prune lease by (simp add: rtranclp.rtrancl_into_rtrancl)
  qed
qed

lemma install_pool:
  assumes inv: "manager_inv w" and p: "w_procs w p = Some (AcqInstall cfg flight res)"
    and i: "Acquire_install cfg flight res w = (pc, w')" and inv': "manager_inv (w'\<lparr>w_procs := (w_procs w')(p \<mapsto> pc)\<rparr>)"
  shows "(pool_step dead retired (sm_closed (w_manager w')))\<^sup>*\<^sup>* (pool_of w) (pool_of w')"
proof (cases "\<exists>c. res = Inr c \<and> \<not> sm_closed (w_manager w)")
  case False
  then have "sm_sessions (w_manager w') = sm_sessions (w_manager w)" "w_session w' = w_session w"
    using i by (auto simp: Acquire_install_def Let_def split: sum.splits)
  then show ?thesis using pool_of_cong by (metis rtranclp.rtrancl_refl)
next
  case True
  then obtain c where c: "res = Inr c" "\<not> sm_closed (w_manager w)" by blast
  let ?k = "sessionKeyFor cfg" and ?s = "w_nextSession w"
  have ok: "table_ok w" "owned_ok w" "table_ok w'"
    using inv inv' by (simp_all add: manager_inv_def table_ok_def sessions_def)
  have se: "sessions w' k = (if k = ?k then sessions w ?k @ [?s] else sessions w k)"
    "w_session w' = (w_session w)(?s := \<lparr>ms_client = c, ms_refCount = 1, ms_idleTimer = None, ms_maxRealms = sk_maxRealms ?k\<rparr>)"
    "\<not> sm_closed (w_manager w')" for k
    using i c by (auto simp: Acquire_install_def Let_def)
  have "proc carries w p = Some c" using p c(1) by (simp add: proc_def)
  then have fresh: "ms_client (w_session w x) \<noteq> c" if "x \<in> set (sessions w k)" for k x
    using owned_okD(2) [OF ok(2)] table_okD(1) [OF ok(1) that] by blast
  have lt: "x \<noteq> ?s" if "x \<in> set (sessions w k)" for k x using table_okD(1) [OF ok(1) that] by simp
  have "pool_of w c = None" using pool_of_iff [OF ok(1)] fresh by (metis not_None_eq)
  then have "pool_step dead retired (sm_closed (w_manager w')) (pool_of w) ((pool_of w)(c \<mapsto> (1, sk_maxRealms ?k)))"
    using se(3) sessionKeyFor_max(1) by (intro pool_step.offer) simp_all
  moreover have "pool_of w' = (pool_of w)(c \<mapsto> (1, sk_maxRealms ?k))"
  proof (rule pool_eqI [OF ok(1,3)])
    fix k x assume "x \<in> set (sessions w' k)"
    then consider "x = ?s" | "x \<in> set (sessions w k)" by (auto simp: se split: if_splits)
    then show "((pool_of w)(c \<mapsto> (1, sk_maxRealms ?k))) (ms_client (w_session w' x)) =
        Some (ms_refCount (w_session w' x), ms_maxRealms (w_session w' x))"
      using fresh lt pool_of_listed [OF ok(1)] by cases (auto simp: se(2))
  next
    fix b x assume b: "((pool_of w)(c \<mapsto> (1, sk_maxRealms ?k))) b = Some x"
    show "\<exists>k x. x \<in> set (sessions w' k) \<and> ms_client (w_session w' x) = b"
    proof (cases "b = c")
      case True
      then show ?thesis by (intro exI [of _ ?k] exI [of _ ?s]) (simp add: se)
    next
      case False
      then obtain k y where y: "y \<in> set (sessions w k)" "ms_client (w_session w y) = b"
        using b pool_of_iff [OF ok(1)] by auto
      then show ?thesis using lt [OF y(1)] by (intro exI [of _ k] exI [of _ y]) (auto simp: se)
    qed
  qed
  ultimately show ?thesis by simp
qed

lemma only_removed:
  assumes "\<And>k. sessions v k = (if k = key then remove1 s (sessions w key) else sessions w k)"
    "x \<in> set (sessions w k)" "x \<notin> set (sessions v k)"
  shows "x = s"
  using assms(2,3) by (cases "k = key"; cases "x = s") (simp_all add: assms(1) in_set_remove1)

lemma pool_same:
  "sm_sessions (w_manager w') = sm_sessions (w_manager w) \<Longrightarrow> w_session w' = w_session w \<Longrightarrow>
    (pool_step dead retired down)\<^sup>*\<^sup>* (pool_of w) (pool_of w')"
  by (drule (1) pool_of_cong) simp

lemma idle_callback_fired: "idle_callback key s (w\<lparr>w_fired := f\<rparr>) = (idle_callback key s w)\<lparr>w_fired := f\<rparr>"
  by (simp add: idle_callback_def set_sessions_def)

lemma forget_forgets: "forget key s (w\<lparr>w_forgets := f\<rparr>) = (forget key s w)\<lparr>w_forgets := f\<rparr>"
  by (simp add: forget_def Let_def stop_idle_eq set_sessions_def)

lemma delists_pool_frame:
  assumes "manager_inv w" "delists w v" "sm_sessions (w_manager w') = sm_sessions (w_manager v)" "w_session w' = w_session v"
    "\<And>k s. s \<in> set (sessions w k) \<Longrightarrow> s \<notin> set (sessions v k) \<Longrightarrow>
      ms_refCount (w_session w s) = 0 \<or> dead (ms_client (w_session w s)) \<or> down"
  shows "(pool_step dead retired down)\<^sup>*\<^sup>* (pool_of w) (pool_of w')"
proof -
  have t: "table_ok w" using assms(1) by (simp add: manager_inv_def)
  show ?thesis unfolding pool_of_cong [OF assms(3,4)]
    by (rule delists_pool [OF t delists_table [OF t assms(2)] assms(2,5)])
qed

lemma callbacks_pool:
  assumes inv: "manager_inv w"
  shows "(t, key, s) \<in> set (w_fired w) \<Longrightarrow>
      (pool_step dead retired down)\<^sup>*\<^sup>* (pool_of w) (pool_of (idle_callback key s (w\<lparr>w_fired := f\<rparr>)))"
    "(key, s) \<in> set (w_forgets w) \<Longrightarrow>
      (pool_step (client_closed w) retired down)\<^sup>*\<^sup>* (pool_of w) (pool_of (forget key s (w\<lparr>w_forgets := fs\<rparr>)))"
    "(pool_step dead retired True)\<^sup>*\<^sup>* (pool_of w) (pool_of (CloseAll w))"
proof -
  have ok: "table_ok w" "callback_ok w" "count_ok w" using inv by (simp_all add: manager_inv_def)
  show "(pool_step dead retired down)\<^sup>*\<^sup>* (pool_of w) (pool_of (idle_callback key s (w\<lparr>w_fired := f\<rparr>)))"
  proof (cases "s \<in> set (sessions w key) \<and> \<not> ms_refCount (w_session w s) > 0")
    case True
    then have s: "s \<in> set (sessions w key)" "ms_refCount (w_session w s) \<le> 0" by simp_all
    note d = idle_delists [OF ok(1) s]
    have zero: "ms_refCount (w_session w s) = 0" using s(2) count_okD(1) [OF ok(3) s(1)] by simp
    have se: "sessions (idle_callback key s w) k = (if k = key then remove1 s (sessions w key) else sessions w k)" for k
      using True by (simp add: idle_callback_def)
    show ?thesis unfolding idle_callback_fired
    proof (rule delists_pool_frame [OF inv d(1)])
      fix k x assume "x \<in> set (sessions w k)" "x \<notin> set (sessions (idle_callback key s w) k)"
      from only_removed [OF se this] have "x = s" .
      then show "ms_refCount (w_session w x) = 0 \<or> dead (ms_client (w_session w x)) \<or> down" using zero by simp
    qed simp_all
  next
    case False
    then have "idle_callback key s w = w" by (auto simp: idle_callback_def)
    then show ?thesis using pool_of_cong [of "w\<lparr>w_fired := f\<rparr>" w] by (simp add: idle_callback_fired)
  qed
  show "(pool_step (client_closed w) retired down)\<^sup>*\<^sup>* (pool_of w) (pool_of (forget key s (w\<lparr>w_forgets := fs\<rparr>)))"
    if "(key, s) \<in> set (w_forgets w)"
  proof -
    have f: "s < w_nextSession w" "keyed w s key" "client_closed w (ms_client (w_session w s))"
      using callback_okD(2) [OF ok(2) that] by blast+
    have se: "sessions (forget key s w) k = (if k = key then remove1 s (sessions w key) else sessions w k)" for k
      by (simp add: forget_def Let_def stop_idle_eq)
    show ?thesis unfolding forget_forgets
    proof (rule delists_pool_frame [OF inv forget_delists(1) [OF ok(1) f]])
      fix k x assume "x \<in> set (sessions w k)" "x \<notin> set (sessions (forget key s w) k)"
      from only_removed [OF se this] have "x = s" .
      then show "ms_refCount (w_session w x) = 0 \<or> client_closed w (ms_client (w_session w x)) \<or> down" using f(3) by simp
    qed simp_all
  qed
  show "(pool_step dead retired True)\<^sup>*\<^sup>* (pool_of w) (pool_of (CloseAll w))"
    by (rule delists_pool_frame [OF inv CloseAll_delists(1) [OF ok(1)]]) simp_all
qed

lemma manager_step_pool:
  assumes "manager_step w w'" "manager_inv w"
  shows "pool_steps w w' (pool_of w) (pool_of w')"
  using assms
proof (cases rule: manager_step.cases)
  case (select p cfg pc v)
  have "pool_of w' = pool_of v" using select(1) by (intro pool_of_cong) simp_all
  then show ?thesis using select_pool [OF assms(2) select(2,3)] select(1) by simp
next
  case (install p cfg flight res pc v)
  have "manager_inv (v\<lparr>w_procs := (w_procs v)(p \<mapsto> pc)\<rparr>)" using manager_step_inv [OF assms] install(1) by simp
  from install_pool [OF assms(2) install(2,3) this] have "pool_steps w w' (pool_of w) (pool_of v)" using install(1) by simp
  moreover have "pool_of w' = pool_of v" using install(1) by (intro pool_of_cong) simp_all
  ultimately show ?thesis by simp
next
  case (release serial c)
  then show ?thesis using release_pool [OF assms(2)] by simp
next
  case (idle t key s)
  then show ?thesis using callbacks_pool(1) [OF assms(2) idle(2)] by simp
next
  case (forgotten key s)
  then show ?thesis using callbacks_pool(2) [OF assms(2) forgotten(2)] by simp
next
  case close_all
  have "sm_closed (w_manager w')" using close_all by (simp add: CloseAll_def Let_def)
  then show ?thesis using callbacks_pool(3) [OF assms(2)] close_all by simp
next
  case (publish p cfg flight c s v)
  then show ?thesis by (intro pool_same) (auto simp: Acquire_publish_def client_moves_eq Let_def)
next
  case (report p cfg flight e client v)
  then show ?thesis by (intro pool_same) (auto simp: Acquire_report_def close_client_def client_moves_eq Let_def split: option.split)
qed (auto simp: close_client_def client_moves_eq intro!: pool_same)

section \<open>A sample run\<close>

text \<open>One goroutine acquires a tunnel for a configuration nobody has asked for before.\<close>

lemma fresh_client:
  obtains d :: dialer and cl where "ConnectWithConfig (\<lambda>_. Inr d) cfg = Inr cl" "dial_reachable (cl_tunnel cl)"
    "\<not> tn_onClose (tunnel_of cl)" "\<not> tn_closed (tunnel_of cl)" "\<not> tn_retired (tunnel_of cl)" "tn_onCloseRuns (tunnel_of cl) = 0"
proof -
  define u where "u = \<lparr>u_conn = \<lparr>k_open = True, k_out = [], k_wfaults = [], k_in = [], k_rdeadline = None, k_wdeadline = None\<rparr>,
    u_laddr = \<lparr>a_IP = [], a_Port = 0\<rparr>, u_raddr = None, u_timeout = 0, u_cseq = 0\<rparr>"
  define d where "d = \<lparr>ds_tunnel = Tunnel_New u NewSession 554,
    ds_queue = [], ds_pc = DialIdle, ds_draws = [], ds_results = [], ds_trace = [], ds_closing = []\<rparr>"
  have "dial_reachable d" unfolding d_def by (rule dial_reachable.init) (simp add: u_def)
  then show thesis
    by (intro that [of d "\<lparr>cl_tunnel = d, cl_negotiateSem = False, cl_lastNegotiate = None\<rparr>"])
      (simp_all add: ConnectWithConfig_def d_def Tunnel_New_def)
qed

lemma SetOnClose_moves:
  assumes "\<not> tn_closed (tunnel_of cl)"
  shows "tn_closed (tunnel_of (Client_SetOnClose cl)) = tn_closed (tunnel_of cl)"
    "tn_retired (tunnel_of (Client_SetOnClose cl)) = tn_retired (tunnel_of cl)"
    "tn_onCloseRuns (tunnel_of (Client_SetOnClose cl)) = tn_onCloseRuns (tunnel_of cl)"
  using assms by (simp_all add: client_defs Tunnel_SetOnClose_def)

abbreviation sample_config :: "int \<Rightarrow> Config" where
  "sample_config port \<equiv>
     \<lparr>cf_Serial = ''7A03'', cf_Username = ''admin'', cf_Password = ''pw'', cf_Timeout = 0, cf_P2PPort = port, cf_MaxRealms = 0\<rparr>"

definition sole_lease :: "Config \<Rightarrow> world \<Rightarrow> bool" where
  "sole_lease cfg w \<longleftrightarrow> sm_sessions (w_manager w) = [(sessionKeyFor cfg, [0])] \<and> sm_inflight (w_manager w) = [] \<and>
     \<not> sm_closed (w_manager w) \<and> w_held w = [(cf_Serial cfg, 0)] \<and> w_nextClient w = 1 \<and>
     w_session w 0 = \<lparr>ms_client = 0, ms_refCount = 1, ms_idleTimer = None, ms_maxRealms = sk_maxRealms (sessionKeyFor cfg)\<rparr> \<and>
     \<not> client_closed w 0 \<and> \<not> Client_IsRetired (w_client w 0) \<and> w_procs w = [0 \<mapsto> AcqReturned (Inr 0)] \<and>
     w_armed w = [] \<and> w_fired w = [] \<and> w_nextTimer w = 0 \<and> w_closing w = []"

lemma first_session:
  obtains w where "manager_reachable w" "sole_lease cfg w"
proof -
  let ?k = "sessionKeyFor cfg"
  obtain d cl where cl: "ConnectWithConfig (\<lambda>_. Inr d) cfg = Inr cl" "dial_reachable (cl_tunnel cl)" "\<not> tn_onClose (tunnel_of cl)"
    "\<not> tn_closed (tunnel_of cl)" "\<not> tn_retired (tunnel_of cl)" "tn_onCloseRuns (tunnel_of cl) = 0" by (rule fresh_client)
  define w0 :: world where "w0 = \<lparr>w_now = 0, w_manager = NewSessionManager, w_session = (\<lambda>_. undefined), w_nextSession = 0,
    w_inflight = (\<lambda>_. undefined), w_nextInflight = 0, w_client = (\<lambda>_. undefined), w_nextClient = 0, w_armed = [], w_fired = [],
    w_nextTimer = 0, w_onClose = (\<lambda>_. None), w_forgets = [], w_closing = [], w_held = [], w_procs = (\<lambda>_. None)\<rparr>"
  have r0: "manager_reachable w0"
    by (rule manager_reachable.init [where d = DefaultIdleTimeout]) (simp_all add: w0_def NewSessionManager_def)
  define w1 where "w1 = w0\<lparr>w_procs := (w_procs w0)(0 \<mapsto> AcqStart cfg)\<rparr>"
  have r1: "manager_reachable w1" unfolding w1_def by (rule manager_reachable.step [OF r0 manager_step.acquire]) (simp add: w0_def)
  define w2 where "w2 = w1\<lparr>w_inflight := (w_inflight w1)(0 := \<lparr>if_done = False, if_err = None\<rparr>), w_nextInflight := 1,
    w_manager := NewSessionManager\<lparr>sm_inflight := [(?k, 0)]\<rparr>, w_procs := [0 \<mapsto> AcqConnect cfg 0]\<rparr>"
  have se1: "sessions w1 key = []" for key by (simp add: sessions_def w1_def w0_def NewSessionManager_def)
  have s1: "Acquire_select cfg w1 = (AcqConnect cfg 0, w2\<lparr>w_procs := w_procs w1\<rparr>)"
    by (simp add: Acquire_select_def findAvailableSession_def Let_def se1)
      (simp add: w2_def w1_def w0_def NewSessionManager_def set_sessions_def)
  have "manager_reachable ((w2\<lparr>w_procs := w_procs w1\<rparr>)\<lparr>w_procs := (w_procs (w2\<lparr>w_procs := w_procs w1\<rparr>))(0 \<mapsto> AcqConnect cfg 0)\<rparr>)"
    by (rule manager_reachable.step [OF r1 manager_step.select [OF _ s1]]) (simp add: w1_def)
  then have r2: "manager_reachable w2" by (simp add: w2_def w1_def w0_def)
  define w3 where "w3 = w2\<lparr>w_client := (w_client w2)(w_nextClient w2 := cl), w_nextClient := Suc (w_nextClient w2),
      w_onClose := (w_onClose w2)(w_nextClient w2 := None),
      w_procs := (w_procs w2)(0 \<mapsto> AcqInstall cfg 0 (Inr (w_nextClient w2)))\<rparr>"
  have r3: "manager_reachable w3" unfolding w3_def
    by (rule manager_reachable.step [OF r2 manager_step.connected [OF _ cl(1-3)]]) (simp add: w2_def)
  define w4 where "w4 = w3\<lparr>w_manager := NewSessionManager\<lparr>sm_sessions := [(?k, [0])]\<rparr>,
     w_inflight := (w_inflight w3)(0 := (w_inflight w3 0)\<lparr>if_err := None\<rparr>),
     w_session := (w_session w3)(0 := \<lparr>ms_client = 0, ms_refCount = 1, ms_idleTimer = None, ms_maxRealms = sk_maxRealms ?k\<rparr>),
     w_nextSession := 1, w_held := [(cf_Serial cfg, 0)], w_procs := [0 \<mapsto> AcqPublish cfg 0 0 0]\<rparr>"
  have s3: "Acquire_install cfg 0 (Inr 0) w3 = (AcqPublish cfg 0 0 0, w4\<lparr>w_procs := w_procs w3\<rparr>)"
    by (simp add: Acquire_install_def Let_def sessions_def set_sessions_def w4_def w3_def w2_def w1_def w0_def NewSessionManager_def)
  have "manager_reachable ((w4\<lparr>w_procs := w_procs w3\<rparr>)\<lparr>w_procs := (w_procs (w4\<lparr>w_procs := w_procs w3\<rparr>))(0 \<mapsto> AcqPublish cfg 0 0 0)\<rparr>)"
    by (rule manager_reachable.step [OF r3 manager_step.install [OF _ s3]]) (simp add: w3_def w2_def w1_def w0_def)
  then have r4: "manager_reachable w4" by (simp add: w4_def w3_def w2_def w1_def w0_def)
  define w5 where "w5 = Acquire_publish cfg 0 0 0 w4"
  have p4: "w_procs w4 0 = Some (AcqPublish cfg 0 0 0)" by (simp add: w4_def)
  let ?w = "w5\<lparr>w_procs := (w_procs w5)(0 \<mapsto> AcqReturned (Inr 0))\<rparr>"
  have r5: "manager_reachable ?w" by (rule manager_reachable.step [OF r4 manager_step.publish [OF p4 w5_def [symmetric]]])
  have c4: "w_client w4 0 = cl" by (simp add: w4_def w3_def w2_def w1_def w0_def)
  show thesis
    by (rule that [of ?w, OF r5])
      (simp add: w5_def Acquire_publish_def Let_def client_moves_eq c4 SetOnClose_moves cl Client_IsRetired_def Tunnel_IsRetired_def callbacks_def
        sole_lease_def w4_def w3_def w2_def w1_def w0_def NewSessionManager_def)
qed

text \<open>
  After its only user has released the tunnel and the idle timer has fired, the session is off the
  list while its tunnel is still open. A new \<open>Acquire\<close> starts a handshake at once, on the same fixed
  port if the configuration has one.
\<close>

lemma fixed_port_overlap:
  "\<exists>w p flight. manager_reachable w \<and> proc connecting w p = Some (sessionKeyFor cfg, flight) \<and>
     0 < w_nextClient w \<and> \<not> client_closed w 0 \<and> w_closing w = [0]"
proof -
  let ?k = "sessionKeyFor cfg"
  obtain w where w: "manager_reachable w" "sole_lease cfg w" by (rule first_session)
  note w = this(1) this(2) [unfolded sole_lease_def]
  define w1 where "w1 = Release (cf_Serial cfg) 0 (w\<lparr>w_held := remove1 (cf_Serial cfg, 0) (w_held w)\<rparr>)"
  have r1: "manager_reachable w1" unfolding w1_def by (rule manager_reachable.step [OF w(1) manager_step.release]) (simp add: w)
  let ?d = "w_now w + sm_IdleTimeout (w_manager w)"
  have w1: "w1 = w\<lparr>w_held := [], w_session := (w_session w)(0 := \<lparr>ms_client = 0, ms_refCount = 0, ms_idleTimer = Some 0,
      ms_maxRealms = sk_maxRealms ?k\<rparr>), w_nextTimer := 1, w_armed := [(0, ?d, ?k, 0)]\<rparr>"
    using w by (simp add: w1_def Release_def serial_sessions_def sessionKeyFor_max Let_def update_session_def stop_idle_def session_client_def)
  define w2 where "w2 = w1\<lparr>w_now := w_now w1 + max 0 (sm_IdleTimeout (w_manager w))\<rparr>"
  have r2: "manager_reachable w2" unfolding w2_def by (rule manager_reachable.step [OF r1 manager_step.tick]) simp
  define w3 where "w3 = w2\<lparr>w_armed := remove1 (0, ?d, ?k, 0) (w_armed w2), w_fired := (0, ?k, 0) # w_fired w2\<rparr>"
  have r3: "manager_reachable w3" unfolding w3_def
    by (rule manager_reachable.step [OF r2 manager_step.fire]) (simp_all add: w2_def w1)
  define w4 where "w4 = idle_callback ?k 0 (w3\<lparr>w_fired := remove1 (0, ?k, 0) (w_fired w3)\<rparr>)"
  have r4: "manager_reachable w4" unfolding w4_def
    by (rule manager_reachable.step [OF r3 manager_step.idle]) (simp add: w3_def)
  have w4: "w4 = w3\<lparr>w_fired := [], w_manager := (w_manager w)\<lparr>sm_sessions := []\<rparr>, w_closing := [0]\<rparr>"
    using w by (simp add: w4_def idle_callback_def w3_def w2_def w1 sessions_def set_sessions_def)
  define w5 where "w5 = w4\<lparr>w_procs := (w_procs w4)(1 \<mapsto> AcqStart cfg)\<rparr>"
  have r5: "manager_reachable w5" unfolding w5_def
    by (rule manager_reachable.step [OF r4 manager_step.acquire]) (simp add: w4 w3_def w2_def w1 w)
  let ?f = "w_nextInflight w5"
  define w6 where "w6 = snd (Acquire_select cfg w5)"
  have se: "sessions w5 key = []" "sm_inflight (w_manager w5) = []" for key
    using w by (simp_all add: sessions_def w5_def w4)
  have s: "Acquire_select cfg w5 = (AcqConnect cfg ?f, w6)"
    "w_client w6 = w_client w5" "w_nextClient w6 = w_nextClient w5" "w_closing w6 = w_closing w5"
    using w unfolding w6_def
    by (simp_all add: Acquire_select_def findAvailableSession_def Let_def se) (simp_all add: w5_def w4 w3_def w2_def w1)
  let ?w = "w6\<lparr>w_procs := (w_procs w6)(1 \<mapsto> AcqConnect cfg ?f)\<rparr>"
  have "manager_reachable ?w" by (rule manager_reachable.step [OF r5 manager_step.select [OF _ s(1)]]) (simp add: w5_def)
  moreover have "proc connecting ?w 1 = Some (?k, ?f)" by (simp add: proc_def)
  moreover have "0 < w_nextClient ?w" "\<not> client_closed ?w 0" "w_closing ?w = [0]"
    using w by (simp_all add: s w5_def w4 w3_def w2_def w1)
  ultimately show ?thesis by blast
qed

lemma closed_step:
  assumes "manager_step w w'" "sm_closed (w_manager w)"
  shows "sm_closed (w_manager w')"
  using assms
proof (cases rule: manager_step.cases)
  case (install p cfg flight res pc v)
  then show ?thesis using assms(2) by (auto simp: Acquire_install_def Let_def split: sum.splits)
next
  case (report p cfg flight e client v)
  then show ?thesis using assms(2) by (cases client) (auto simp: Acquire_report_def close_client_def client_moves_eq Let_def)
next
  case (release serial c)
  then show ?thesis using assms(2)
    by (auto simp: Release_def Let_def update_session_def stop_idle_eq split: option.splits)
qed (auto simp: Acquire_select_def Acquire_publish_def client_moves_eq close_client_def idle_callback_def forget_def CloseAll_def
    Let_def stop_idle_eq)

section \<open>Properties\<close>

text \<open>
  (C8) Refinement: seen as a pool of leases, every step of the manager, of its timers and callbacks
  and of the tunnels themselves is a sequence of pool steps. A lease is granted only on a tunnel that
  is open, not retired and below its capacity; a tunnel leaves the pool only when nobody leases it,
  when it has closed or when the manager was closed; nothing is offered by a closed manager.
\<close>

theorem manager_refines_pool:
  assumes "manager_reachable w" "manager_step w w'"
  shows "(pool_step (\<lambda>c. Client_IsClosed (w_client w c)) (\<lambda>c. Client_IsRetired (w_client w c)) (sm_closed (w_manager w')))\<^sup>*\<^sup>*
    (pool_of w) (pool_of w')"
  using manager_step_pool [OF assms(2) reachable_manager [OF assms(1)]]
  by (simp add: Client_IsClosed_def Tunnel_IsClosed_def)

theorem manager_refines_pool_witness:
  "\<exists>w w' cap. pool_of w = [0 \<mapsto> (1, cap)] \<and> pool_of w' = [0 \<mapsto> (0, cap)] \<and>
     (pool_step (\<lambda>c. Client_IsClosed (w_client w c)) (\<lambda>c. Client_IsRetired (w_client w c)) (sm_closed (w_manager w')))\<^sup>*\<^sup>*
       (pool_of w) (pool_of w')"
proof -
  let ?cfg = "sample_config 0"
  let ?k = "sessionKeyFor ?cfg"
  obtain w where w: "manager_reachable w" "sole_lease ?cfg w" by (rule first_session)
  note w = this(1) this(2) [unfolded sole_lease_def]
  let ?w' = "Release (cf_Serial ?cfg) 0 (w\<lparr>w_held := remove1 (cf_Serial ?cfg, 0) (w_held w)\<rparr>)"
  have step: "manager_step w ?w'" by (rule manager_step.release) (simp add: w)
  have "pool_of w = [0 \<mapsto> (1, sk_maxRealms ?k)]" "pool_of ?w' = [0 \<mapsto> (0, sk_maxRealms ?k)]"
    using w by (simp_all add: pool_of_def Release_def serial_sessions_def sessionKeyFor_max Let_def update_session_def
        stop_idle_def session_client_def)
  with manager_refines_pool [OF w(1) step] show ?thesis by blast
qed

text \<open>
  (C9) The reference counts are exact: the count of a listed session is the number of callers that
  acquired its client and have not released it, and never exceeds the capacity. A client the manager
  is closing is held by nobody, unless the whole manager was closed.
\<close>

theorem leases_counted:
  assumes "manager_reachable w"
  shows "(\<forall>key. \<forall>s \<in> set (sessions w key).
       ms_refCount (w_session w s) = int (holders w (ms_client (w_session w s))) \<and>
       ms_refCount (w_session w s) \<le> ms_maxRealms (w_session w s) \<and> ms_maxRealms (w_session w s) = sk_maxRealms key) \<and>
    (\<forall>c \<in> set (w_closing w). sm_closed (w_manager w) \<or> holders w c = 0)"
proof -
  have ok: "table_ok w" "count_ok w" "closing_ok w" using reachable_manager [OF assms] by (simp_all add: manager_inv_def)
  show ?thesis
    using count_okD(1,2) [OF ok(2)] table_okD(3) [OF ok(1)] closing_okD(2) [OF ok(3)] by (auto simp: holders_def)
qed

theorem leases_counted_witness:
  "\<exists>w key. 0 \<in> set (sessions w key) \<and> holders w (ms_client (w_session w 0)) = 1 \<and> ms_refCount (w_session w 0) = 1"
proof -
  obtain w where w: "manager_reachable w" "sole_lease (sample_config 0) w" by (rule first_session)
  then have "0 \<in> set (sessions w (sessionKeyFor (sample_config 0)))" by (simp add: sole_lease_def sessions_def)
  moreover from leases_counted [OF w(1)] this have "ms_refCount (w_session w 0) = int (holders w (ms_client (w_session w 0)))" by blast
  ultimately show ?thesis using w(2) by (auto simp: sole_lease_def)
qed

text \<open>
  (C11) One tunnel per configuration with a fixed local port: \<open>Acquire\<close> never gives such a configuration
  more than one listed session or more than one handshake at a time, and no handshake while a
  session is listed. Two configurations share that session or handshake exactly when they agree in
  serial, user name, password, port and the number of realms they ask for, with the default for
  those that ask for none. Configurations that differ in one of these have keys of their own and
  are kept apart, even if they name the same port.
\<close>

theorem fixed_port_configuration_shared:
  assumes "manager_reachable w" "cf_P2PPort cfg \<noteq> 0"
  shows "length (sessions w (sessionKeyFor cfg)) \<le> 1 \<and>
    (proc connecting w p = Some (sessionKeyFor cfg, flight) \<longrightarrow> sessions w (sessionKeyFor cfg) = [] \<and>
       (\<forall>q flight'. proc connecting w q = Some (sessionKeyFor cfg, flight') \<longrightarrow> q = p \<and> flight' = flight)) \<and>
    (sessionKeyFor cfg' = sessionKeyFor cfg \<longleftrightarrow>
       cf_Serial cfg' = cf_Serial cfg \<and> cf_Username cfg' = cf_Username cfg \<and> cf_Password cfg' = cf_Password cfg \<and>
       cf_P2PPort cfg' = cf_P2PPort cfg \<and>
       (cf_MaxRealms cfg' = cf_MaxRealms cfg \<or>
        {cf_MaxRealms cfg', cf_MaxRealms cfg} \<subseteq> {..0} \<union> {DefaultMaxRealmsPerTunnel}))"
proof -
  have port: "sk_p2pPort (sessionKeyFor cfg) \<noteq> 0" using assms(2) by (simp add: sessionKeyFor_def Let_def)
  have ok: "flight_ok w" using reachable_manager [OF assms(1)] by (simp add: manager_inv_def)
  have "sessions w (sessionKeyFor cfg) = []" if "proc connecting w p = Some (sessionKeyFor cfg, flight)"
    using flight_okD(1) [OF ok that] ok port unfolding flight_ok_def by blast
  moreover have "length (sessions w (sessionKeyFor cfg)) \<le> 1" using ok port unfolding flight_ok_def by blast
  moreover have "q = p \<and> f = flight"
    if "proc connecting w p = Some (sessionKeyFor cfg, flight)" "proc connecting w q = Some (sessionKeyFor cfg, f)" for q f
    using flight_okD(1) [OF ok that(1)] flight_okD(1) [OF ok that(2)] flight_okD(2) [OF ok that] by simp
  ultimately show ?thesis by (auto simp: sessionKeyFor_def Let_def)
qed

theorem fixed_port_configuration_shared_witness:
  "\<exists>w p flight. proc connecting w p = Some (sessionKeyFor (sample_config 40000), flight) \<and>
     sessions w (sessionKeyFor (sample_config 40000)) = [] \<and>
     sessionKeyFor ((sample_config 40000)\<lparr>cf_MaxRealms := 1\<rparr>) \<noteq> sessionKeyFor (sample_config 40000)"
proof -
  obtain w p flight where w: "manager_reachable w" "proc connecting w p = Some (sessionKeyFor (sample_config 40000), flight)"
    using fixed_port_overlap by blast
  note shared = fixed_port_configuration_shared [OF w(1), of "sample_config 40000" p flight "(sample_config 40000)\<lparr>cf_MaxRealms := 1\<rparr>"]
  from shared w(2) have "sessions w (sessionKeyFor (sample_config 40000)) = []" by simp
  moreover from shared have "sessionKeyFor ((sample_config 40000)\<lparr>cf_MaxRealms := 1\<rparr>) \<noteq> sessionKeyFor (sample_config 40000)"
    by (simp add: DefaultMaxRealmsPerTunnel_def)
  ultimately show ?thesis using w(2) by blast
qed

text \<open>
  (C10) No tunnel is lost: a tunnel the manager opened has closed, is about to be closed, is still
  with the goroutine that opened it, or is on the list. On the list, an unused tunnel has its idle
  timer running or its callback under way; one that has closed is about to be taken off the list,
  by its close callback or by the goroutine that is about to install it.
\<close>

theorem no_tunnel_lost:
  assumes "manager_reachable w"
  shows "(\<forall>c < w_nextClient w. Client_IsClosed (w_client w c) \<or> c \<in> set (w_closing w) \<or> (\<exists>p. proc carries w p = Some c) \<or>
       (\<exists>key. \<exists>s \<in> set (sessions w key). ms_client (w_session w s) = c)) \<and>
    (\<forall>key. \<forall>s \<in> set (sessions w key).
       (ms_refCount (w_session w s) = 0 \<longrightarrow> (\<exists>t. ms_idleTimer (w_session w s) = Some t \<and> ticking w t key s)) \<and>
       (Client_IsClosed (session_client w s) \<longrightarrow> (key, s) \<in> set (w_forgets w) \<or> (\<exists>p. proc publishes w p = Some (key, s))))"
proof -
  have ok: "owned_ok w" "timer_ok w" "callback_ok w" using reachable_manager [OF assms] by (simp_all add: manager_inv_def)
  have "(key, s) \<in> set (w_forgets w) \<or> (\<exists>p. proc publishes w p = Some (key, s))"
    if "s \<in> set (sessions w key)" "Client_IsClosed (session_client w s)" for key s
    using callback_okD(1) [OF ok(3) that(1)] that(2)
    by (auto simp: watched_def Let_def session_client_def Client_IsClosed_def Tunnel_IsClosed_def)
  moreover have "Client_IsClosed (w_client w c) \<or> c \<in> set (w_closing w) \<or> (\<exists>p. proc carries w p = Some c) \<or>
       (\<exists>key. \<exists>s \<in> set (sessions w key). ms_client (w_session w s) = c)" if "c < w_nextClient w" for c
    using owned_okD(4) [OF ok(1) that] by (auto simp: Client_IsClosed_def Tunnel_IsClosed_def)
  ultimately show ?thesis using timer_okD(1) [OF ok(2)] by blast
qed

theorem no_tunnel_lost_witness:
  "\<exists>w. w_nextClient w = 1 \<and> \<not> Client_IsClosed (w_client w 0) \<and> w_closing w = [] \<and>
     (\<exists>key. \<exists>s \<in> set (sessions w key). ms_client (w_session w s) = 0)"
proof -
  obtain w where w: "manager_reachable w" "sole_lease (sample_config 0) w" by (rule first_session)
  note w' = w(2) [unfolded sole_lease_def]
  have "\<not> Client_IsClosed (w_client w 0)" using w' by (simp add: Client_IsClosed_def Tunnel_IsClosed_def)
  moreover have "proc carries w p \<noteq> Some c" for p c using w' by (simp add: proc_def)
  moreover have "w_nextClient w = 1" "w_closing w = []" using w' by simp_all
  moreover have "Client_IsClosed (w_client w 0) \<or> 0 \<in> set (w_closing w) \<or> (\<exists>p. proc carries w p = Some 0) \<or>
       (\<exists>key. \<exists>s \<in> set (sessions w key). ms_client (w_session w s) = 0)"
    using no_tunnel_lost [OF w(1)] \<open>w_nextClient w = 1\<close> by simp
  ultimately show ?thesis by (intro exI [of _ w]) auto
qed

text \<open>
  (C12) Closing is final: once \<open>CloseAll\<close> has run, the manager stays closed, lists nothing and refuses
  every \<open>Acquire\<close>; a handshake that was still running is not installed but closed by its goroutine.
  Every tunnel it opened has closed, is being closed or is with such a goroutine.
\<close>

theorem closed_manager:
  assumes "manager_reachable w" "sm_closed (w_manager w)"
  shows "sm_sessions (w_manager w) = [] \<and>
    Acquire_select cfg w = (AcqReturned (Inl ErrSessionManagerClosed), w) \<and>
    fst (Acquire_install cfg flight (Inr c) w) = AcqReport cfg flight ErrSessionManagerClosed (Some c) \<and>
    (c < w_nextClient w \<longrightarrow> Client_IsClosed (w_client (Acquire_report flight (Some c) w) c)) \<and>
    (\<forall>c < w_nextClient w. Client_IsClosed (w_client w c) \<or> c \<in> set (w_closing w) \<or> (\<exists>p. proc carries w p = Some c)) \<and>
    (manager_step w w' \<longrightarrow> sm_closed (w_manager w'))"
proof -
  have inv: "manager_inv w" by (rule reachable_manager [OF assms(1)])
  have ok: "table_ok w" "owned_ok w" using inv by (simp_all add: manager_inv_def)
  have none: "sm_sessions (w_manager w) = []" using ok(1) assms(2) by (simp add: table_ok_def)
  then have "sessions w k = []" for k by (simp add: sessions_def)
  then have "Client_IsClosed (w_client w c) \<or> c \<in> set (w_closing w) \<or> (\<exists>p. proc carries w p = Some c)" if "c < w_nextClient w" for c
    using owned_okD(4) [OF ok(2) that] by (auto simp: Client_IsClosed_def Tunnel_IsClosed_def)
  moreover have "Client_IsClosed (w_client (Acquire_report flight (Some c) w) c)" if "c < w_nextClient w"
    using close_client_inv(2) [OF inv that] by (simp add: Acquire_report_def Let_def Client_IsClosed_def Tunnel_IsClosed_def)
  moreover have "sm_closed (w_manager w')" if "manager_step w w'" using closed_step [OF that assms(2)] .
  ultimately show ?thesis using none assms(2) by (simp add: Acquire_select_def Acquire_install_def Let_def)
qed

theorem closed_manager_witness:
  "\<exists>w. sm_closed (w_manager w) \<and> w_nextClient w = 1 \<and> sm_sessions (w_manager w) = [] \<and>
     Acquire_select (sample_config 0) w = (AcqReturned (Inl ErrSessionManagerClosed), w)"
proof -
  obtain w where w: "manager_reachable w" "sole_lease (sample_config 0) w" by (rule first_session)
  have r: "manager_reachable (CloseAll w)" by (rule manager_reachable.step [OF w(1) manager_step.close_all])
  have c: "sm_closed (w_manager (CloseAll w))" "w_nextClient (CloseAll w) = 1"
    using w(2) by (simp_all add: CloseAll_def Let_def fold_stop_idle sole_lease_def)
  from closed_manager [OF r c(1), of "sample_config 0"] c show ?thesis by blast
qed

end
