(* ===== verification/Tunnel_Liveness.thy ===== *)
theory Tunnel_Liveness
  imports Tunnel_Reader
begin

text \<open>
  The failure detectors of a tunnel (\<^verbatim>\<open>tunnel/tunnel.go\<close>): missed heartbeats, a device that stops
  consuming, read and acknowledgement errors, each shown to close the tunnel when, and where it is
  a count only when, its threshold is reached; and, for \<open>Tunnel_Retirement\<close>, that none of them
  notices retirement.
\<close>

section \<open>A device that does not consume\<close>

text \<open>
  Before each event of the run the device's receive counter is still \<open>r\<close> and the bytes
  outstanding are at least none, with room for one more heartbeat in a signed difference.
  \<open>drain_seen\<close> is what the detector remembers.
\<close>

fun starved :: "u32 \<Rightarrow> tunnel_event list \<Rightarrow> Tunnel \<Rightarrow> bool" where
  "starved r [] t \<longleftrightarrow> True"
| "starved r (e # es) t \<longleftrightarrow>
     s_peerRecv (tn_session t) = r \<and> 0 \<le> OutBytes (Tunnel_Stats t) \<and> OutBytes (Tunnel_Stats t) + 12 < 2 ^ 31 \<and>
     starved r es (handle_event e t)"

definition drain_seen :: "u32 \<Rightarrow> int \<Rightarrow> Tunnel \<Rightarrow> bool" where
  "drain_seen r x t \<longleftrightarrow> tn_closed t \<or> tn_lastDrain t = r \<and> tn_lastDrainTime t = Some x"

abbreviation retire :: "Tunnel \<Rightarrow> Tunnel" where
  "retire t \<equiv> t\<lparr>tn_retired := True\<rparr>"

section \<open>Steps of the detectors\<close>

lemma Body_Len_heartbeat [simp]: "Body_Len NewHeartbeatBody = 12"
  by (simp add: Body_Len_def NewHeartbeatBody_def zero_Body_def)

lemma outboundStalled_iff:
  "fst (outboundStalled now t) \<longleftrightarrow>
     0 < delta (s_sent (tn_session t)) (s_peerRecv (tn_session t)) \<and> s_peerRecv (tn_session t) = tn_lastDrain t \<and>
     (\<exists>since. tn_lastDrainTime t = Some since \<and> 20 * second < now - since)"
  by (auto simp: outboundStalled_def Let_def OutBytes_def Session_Stats_def outboundStallTimeout_def split: option.splits)

lemma outboundStalled_frame [simp]:
  "tn_closed (snd (outboundStalled now t)) = tn_closed t"
  "tn_activeWriter (snd (outboundStalled now t)) = tn_activeWriter t"
  "tn_session (snd (outboundStalled now t)) = tn_session t"
  "tn_missedHeartbeats (snd (outboundStalled now t)) = tn_missedHeartbeats t"
  by (simp_all add: outboundStalled_def Let_def split: option.splits)

lemma sendHeartbeat_closed:
  assumes "\<not> tn_closed t" "tn_activeWriter t = None"
  shows "tn_closed (sendHeartbeat now t) \<longleftrightarrow>
     maxMissedHeartbeats \<le> tn_missedHeartbeats t \<or>
     fst (outboundStalled now (snd (sendPacket now NewHeartbeatBody t)))"
  using assms
  by (auto simp: sendHeartbeat_def Let_def case_prod_beta outboundStalled_iff Tunnel_Close_closes)

lemma delta_add:
  assumes "0 \<le> delta a b" "delta a b + int n < 2 ^ 31"
  shows "delta (a + of_nat n) b = delta a b + int n"
proof -
  have eq: "a + of_nat n = b + of_int (delta a b + int n)" by (simp add: delta_def)
  show ?thesis unfolding eq by (rule delta_exact) (use assms in simp_all)
qed

lemma close_drain [simp]:
  assumes "tn_activeWriter t = None"
  shows "tn_lastDrain (snd (Tunnel_Close now t)) = tn_lastDrain t"
    "tn_lastDrainTime (snd (Tunnel_Close now t)) = tn_lastDrainTime t"
  using assms by (cases "tn_closed t"; simp add: Tunnel_Close_closed Tunnel_Close_open Let_def close_conns_def)+

lemma reader_packet_drain:
  assumes "tunnel_inv t"
  shows "tn_lastDrain (reader_packet now p t) = tn_lastDrain t"
    "tn_lastDrainTime (reader_packet now p t) = tn_lastDrainTime t"
  using tunnel_invD(5) [OF assms]
  by (simp_all add: reader_packet_def Let_def scheduleACK_def reader_connect_def
      reader_disconnect_def reader_payload_def connCh_delete_def signalClosed_eq realm_delete_def update_conn_def
      close_conns_def sendPacket_eq
      split: BodyType.splits option.splits)

lemma reader_handle_drain:
  assumes "tunnel_inv t"
  shows "tn_lastDrain (snd (reader_handle now res t)) = tn_lastDrain t \<and>
    tn_lastDrainTime (snd (reader_handle now res t)) = tn_lastDrainTime t"
proof (cases res)
  case (Inr data)
  from reader_packet_drain [OF reading_inv [OF assms]] show ?thesis
    by (auto simp: reader_handle_def Inr Let_def ackHeartbeat_def split: sum.splits)
qed (use tunnel_invD(5) [OF assms] in \<open>simp add: reader_handle_def Let_def\<close>)

lemma tick_starved:
  assumes "tunnel_inv t" "\<not> tn_closed (sendHeartbeat now t)" "s_peerRecv (tn_session t) = r"
    "0 \<le> OutBytes (Tunnel_Stats t)" "OutBytes (Tunnel_Stats t) + 12 < 2 ^ 31"
  shows "tn_lastDrain (sendHeartbeat now t) = r"
    "tn_lastDrainTime (sendHeartbeat now t) =
       (if r = tn_lastDrain t \<and> tn_lastDrainTime t \<noteq> None then tn_lastDrainTime t else Some now)"
    "tn_lastDrain t = r \<Longrightarrow> tn_lastDrainTime t = Some x \<Longrightarrow> now - x \<le> 20 * second"
proof -
  have op: "\<not> tn_closed t"
    using assms(1,2) sendHeartbeat_advances [of t now] by (auto simp: advances_def)
  have out: "0 < delta (s_sent (tn_session t) + 12) r"
    using delta_add [of "s_sent (tn_session t)" r 12] assms(3-5)
    by (simp add: Tunnel_Stats_def OutBytes_def Session_Stats_def)
  have nc: "\<not> maxMissedHeartbeats \<le> tn_missedHeartbeats t"
    "\<not> fst (outboundStalled now (snd (sendPacket now NewHeartbeatBody t)))"
    using assms(2) sendHeartbeat_closed [OF op tunnel_invD(5) [OF assms(1)]] by simp_all
  then have eq: "sendHeartbeat now t =
      snd (outboundStalled now (snd (sendPacket now NewHeartbeatBody (t\<lparr>tn_missedHeartbeats := Suc (tn_missedHeartbeats t)\<rparr>))))"
    using op by (auto simp: sendHeartbeat_def Let_def case_prod_beta outboundStalled_iff not_le)
  show "tn_lastDrain (sendHeartbeat now t) = r"
    "tn_lastDrainTime (sendHeartbeat now t) =
       (if r = tn_lastDrain t \<and> tn_lastDrainTime t \<noteq> None then tn_lastDrainTime t else Some now)"
    using out assms(3) unfolding eq
    by (auto simp: outboundStalled_def Let_def Session_Stats_def OutBytes_def split: option.splits)
  show "tn_lastDrain t = r \<Longrightarrow> tn_lastDrainTime t = Some x \<Longrightarrow> now - x \<le> 20 * second"
    using nc(2) out assms(3) by (simp add: outboundStalled_iff)
qed

lemma flushACK_drain:
  assumes "tunnel_inv t"
  shows "tn_lastDrain (flushACK now t) = tn_lastDrain t" "tn_lastDrainTime (flushACK now t) = tn_lastDrainTime t"
  using tunnel_invD(5) [OF assms] by (simp_all add: flushACK_def Let_def case_prod_beta)

lemma starved_seen:
  "tunnel_inv t \<Longrightarrow> drain_seen r x t \<Longrightarrow> starved r es t \<Longrightarrow> drain_seen r x (fold handle_event es t)"
proof (induction es arbitrary: t)
  case (Cons e es)
  have inv: "tunnel_inv (handle_event e t)" using Cons.prems(1) by (rule events.keeps_inv)
  have "drain_seen r x (handle_event e t)"
  proof (cases "tn_closed (handle_event e t)")
    case False
    then have op: "\<not> tn_closed t" using events.moves_on [OF Cons.prems(1), of e] by (auto simp: advances_def)
    show ?thesis
      using False op Cons.prems
      by (cases e) (auto simp: drain_seen_def tick_starved flushACK_drain reader_handle_drain)
  qed (simp add: drain_seen_def)
  then show ?case using Cons.IH [OF inv] Cons.prems(3) by simp
qed simp

lemma starved_append: "starved r (es @ fs) t \<longleftrightarrow> starved r es t \<and> starved r fs (fold handle_event es t)"
  by (induction es arbitrary: t) auto

lemma reader_error_step:
  assumes "tunnel_inv t" "\<not> tn_closed t" "e \<noteq> NetTimeout"
  shows "tn_closed (snd (reader_handle now (Inl e) t)) \<longleftrightarrow> 9 \<le> tn_consecutiveReadErrs t"
    "tn_consecutiveReadErrs t < 9 \<Longrightarrow>
       tn_consecutiveReadErrs (snd (reader_handle now (Inl e) t)) = Suc (tn_consecutiveReadErrs t)"
  using assms tunnel_invD(1,5) [OF assms(1)]
  by (simp_all add: reader_handle_def Let_def life_inv_def Tunnel_Close_closes maxConsecutiveReadErrors_def)

lemma flush_failing:
  assumes "tunnel_inv t" "\<not> tn_closed t" "k_wfaults (u_conn (tn_client t)) = Some e # fs"
    "u_raddr (tn_client t) \<noteq> None"
  shows "tn_closed (flushACK now t) \<longleftrightarrow> 4 \<le> tn_consecutiveSendErrs t"
    "tn_consecutiveSendErrs t < 4 \<Longrightarrow> tn_consecutiveSendErrs (flushACK now t) = Suc (tn_consecutiveSendErrs t) \<and>
       k_wfaults (u_conn (tn_client (flushACK now t))) = fs \<and> u_raddr (tn_client (flushACK now t)) \<noteq> None"
proof -
  have "k_open (u_conn (tn_client t))" using assms(1,2) by (simp add: tunnel_inv_def life_inv_def)
  then show "tn_closed (flushACK now t) \<longleftrightarrow> 4 \<le> tn_consecutiveSendErrs t"
    "tn_consecutiveSendErrs t < 4 \<Longrightarrow> tn_consecutiveSendErrs (flushACK now t) = Suc (tn_consecutiveSendErrs t) \<and>
       k_wfaults (u_conn (tn_client (flushACK now t))) = fs \<and> u_raddr (tn_client (flushACK now t)) \<noteq> None"
    using assms tunnel_invD(5) [OF assms(1)]
    by (auto simp: flushACK_def sendPacket_eq UDP_Send_def WriteToUDP_def Let_def Tunnel_Close_closes
        maxConsecutiveSendErrors_def)
qed

lemma sendPacket_retire: "sendPacket now b (retire t) = apsnd retire (sendPacket now b t)"
  by (simp add: sendPacket_eq)

lemma close_retire:
  "tn_activeWriter t = None \<Longrightarrow> snd (Tunnel_Close now (retire t)) = retire (snd (Tunnel_Close now t))"
  by (cases "tn_closed t") (simp_all add: Tunnel_Close_closed Tunnel_Close_open Let_def close_conns_def)

lemma reader_packet_retire:
  "tunnel_inv t \<Longrightarrow> reader_packet now p (retire t) = retire (reader_packet now p t)"
  by (simp add: reader_packet_def Let_def scheduleACK_def reader_connect_def realm_lookup_def
      reader_disconnect_def reader_payload_def connCh_delete_def signalClosed_eq tunnel_invD realm_delete_def update_conn_def
      close_conns_def sendPacket_eq split: BodyType.splits option.splits)

lemma handle_event_retire:
  assumes "tunnel_inv t" shows "handle_event e (retire t) = retire (handle_event e t)"
proof (cases e)
  case (Tick now)
  have eq: "(retire t)\<lparr>tn_missedHeartbeats := n\<rparr> = retire (t\<lparr>tn_missedHeartbeats := n\<rparr>)" for n by simp
  have st: "outboundStalled now (retire u) = apsnd retire (outboundStalled now u)" for u
    by (simp add: outboundStalled_def Let_def split: option.splits)
  show ?thesis using tunnel_invD(5) [OF assms]
    by (simp add: Tick sendHeartbeat_def Let_def case_prod_beta eq sendPacket_retire st close_retire)
next
  case (AckTimer now)
  have eq: "(retire t)\<lparr>tn_session := s, tn_client := cl, tn_consecutiveSendErrs := n, tn_ackPending := b\<rparr> =
      retire (t\<lparr>tn_session := s, tn_client := cl, tn_consecutiveSendErrs := n, tn_ackPending := b\<rparr>)" for s cl n b by simp
  show ?thesis using tunnel_invD(5) [OF assms]
    by (simp add: AckTimer flushACK_def Let_def sendPacket_eq eq close_retire)
next
  case (Inbound now res)
  show ?thesis
  proof (cases res)
    case (Inl err)
    have eq: "(retire t)\<lparr>tn_consecutiveReadErrs := n\<rparr> = retire (t\<lparr>tn_consecutiveReadErrs := n\<rparr>)" for n by simp
    show ?thesis using tunnel_invD(5) [OF assms]
      by (simp add: Inbound Inl reader_handle_def Let_def eq close_retire)
  next
    case (Inr data)
    have eq: "(ackHeartbeat now ((retire t)\<lparr>tn_consecutiveReadErrs := n\<rparr>))\<lparr>tn_session := s\<rparr> =
        retire ((ackHeartbeat now (t\<lparr>tn_consecutiveReadErrs := n\<rparr>))\<lparr>tn_session := s\<rparr>)" for n s
      by (simp add: ackHeartbeat_def)
    show ?thesis
      by (simp add: Inbound Inr reader_handle_def Let_def eq reader_packet_retire [OF reading_inv [OF assms]] split: sum.splits)
        (simp add: ackHeartbeat_def)
  qed
qed

section \<open>Properties\<close>

text \<open>
  (C7) A device that stops consuming is detected although it keeps sending: if from one heartbeat to
  another more than 20 seconds later the device's reported receive counter never moves and bytes
  stay outstanding, the tunnel is closed, whatever packets, read errors and acknowledgements are
  handled in between.
\<close>

theorem stalled_device_closes:
  assumes "tunnel_inv t" "starved r (Tick start # es @ [Tick now]) t" "20 * second < now - start"
    "\<forall>since. tn_lastDrainTime t = Some since \<longrightarrow> since \<le> start"
  shows "tn_closed (fold handle_event (Tick start # es @ [Tick now]) t)"
proof -
  define u where "u = sendHeartbeat start t"
  define v where "v = fold handle_event es u"
  have u: "tunnel_inv u" using assms(1) by (simp add: u_def sendHeartbeat_inv)
  have v: "tunnel_inv v" using u by (simp add: v_def events.run_inv)
  have st: "starved r es u" "starved r [Tick now] v"
    using assms(2) by (simp_all add: starved_append u_def v_def)
  have "\<exists>x \<le> start. drain_seen r x u"
    using assms tick_starved(1,2) [OF assms(1), of start r]
    by (cases "tn_closed u") (auto simp: drain_seen_def u_def)
  then obtain x where x: "x \<le> start" "drain_seen r x u" by blast
  have seen: "drain_seen r x v" unfolding v_def using u x(2) st(1) by (rule starved_seen)
  have "tn_closed (sendHeartbeat now v)"
  proof (rule ccontr)
    assume n: "\<not> tn_closed (sendHeartbeat now v)"
    then have "\<not> tn_closed v" using heartbeat.moves_on [OF v, of now] by (auto simp: advances_def)
    with seen have "tn_lastDrain v = r" "tn_lastDrainTime v = Some x" by (simp_all add: drain_seen_def)
    with tick_starved(3) [OF v n, of r x] st(2) have "now - x \<le> 20 * second" by simp
    with x(1) assms(3) show False by simp
  qed
  then show ?thesis by (simp add: u_def v_def)
qed

theorem stalled_device_closes_witness:
  "tn_closed (fold handle_event (Tick 0 # [] @ [Tick (21 * second)]) (sample_tunnel [7]))"
proof (rule stalled_device_closes)
  show "tunnel_inv (sample_tunnel [7])" by (rule sample_inv) simp
  show "starved 0 (Tick 0 # [] @ [Tick (21 * second)]) (sample_tunnel [7])"
    by (simp add: Tunnel_Stats_def Session_Stats_def OutBytes_def delta_def sendHeartbeat_def outboundStalled_def
        sample_tunnel_def Tunnel_New_def NewSession_def Let_def case_prod_beta sendPacket_eq
        maxMissedHeartbeats_def)
  show "\<forall>since. tn_lastDrainTime (sample_tunnel [7]) = Some since \<longrightarrow> since \<le> 0"
    by (simp add: sample_tunnel_def Tunnel_New_def)
qed simp

text \<open>
  (C32) A silent device is detected: once the heartbeats sent without an answer number more than 24,
  counting those already missed, the tunnel is closed.
\<close>

theorem silent_device_closes:
  assumes "tunnel_inv t" "24 < tn_missedHeartbeats t + length nows"
  shows "tn_closed (fold sendHeartbeat nows t)"
  using assms
proof (induction nows arbitrary: t)
  case Nil
  then show ?case by (auto simp: tunnel_inv_def health_inv_def maxMissedHeartbeats_def)
next
  case (Cons now nows)
  have inv: "tunnel_inv (sendHeartbeat now t)" using Cons.prems(1) by (rule sendHeartbeat_inv)
  show ?case
  proof (cases "tn_closed (sendHeartbeat now t)")
    case True
    then show ?thesis using heartbeat.run_advances [OF inv, of nows] by (simp add: advances_def)
  next
    case False
    then have "tn_missedHeartbeats (sendHeartbeat now t) = Suc (tn_missedHeartbeats t)"
      using tunnel_invD(5) [OF Cons.prems(1)]
      by (auto simp: sendHeartbeat_def Let_def case_prod_beta Tunnel_Close_closes split: if_splits)
    then show ?thesis using Cons.IH [OF inv] Cons.prems(2) by simp
  qed
qed

theorem silent_device_closes_witness:
  "tn_closed (fold sendHeartbeat (map (\<lambda>i. int i * (5 * second)) [0..<25]) (sample_tunnel [7, 9]))"
  by (rule silent_device_closes) (simp_all add: sample_inv)

text \<open>
  (C26) A heartbeat closes an open tunnel in exactly two cases: 24 heartbeats are already unanswered, or,
  counting the 12 bytes of the heartbeat itself, bytes are outstanding, the device's receive
  counter is the one last seen, and that was more than 20 seconds ago.
\<close>

theorem heartbeat_closes_iff:
  assumes "tunnel_inv t" "\<not> tn_closed t"
  shows "tn_closed (sendHeartbeat now t) \<longleftrightarrow>
     tn_missedHeartbeats t = 24 \<or>
     0 < delta (s_sent (tn_session t) + 12) (s_peerRecv (tn_session t)) \<and> s_peerRecv (tn_session t) = tn_lastDrain t \<and>
     (\<exists>since. tn_lastDrainTime t = Some since \<and> 20 * second < now - since)"
proof -
  have "tn_missedHeartbeats t \<le> 24"
    using tunnel_invD(4) [OF assms(1)] assms(2) by (simp add: health_inv_def maxMissedHeartbeats_def)
  then show ?thesis
    using sendHeartbeat_closed [OF assms(2) tunnel_invD(5) [OF assms(1)]]
    by (auto simp: outboundStalled_iff maxMissedHeartbeats_def sendPacket_eq)
qed

theorem heartbeat_closes_iff_witness:
  "\<not> tn_closed (sendHeartbeat 0 (sample_tunnel [7])) \<and>
   tn_closed (sendHeartbeat 0 ((sample_tunnel [7])\<lparr>tn_missedHeartbeats := 24\<rparr>))"
proof -
  have t: "\<not> tn_closed (sample_tunnel [7])" "tn_missedHeartbeats (sample_tunnel [7]) = 0"
    "tn_lastDrainTime (sample_tunnel [7]) = None"
    by (simp_all add: sample_tunnel_def Tunnel_New_def)
  have "tunnel_inv ((sample_tunnel [7])\<lparr>tn_missedHeartbeats := 24\<rparr>)"
    using sample_inv [of "[7]"] by (auto simp: inv_defs maxMissedHeartbeats_def)
  then show ?thesis
    using heartbeat_closes_iff [OF sample_inv t(1), of 0] heartbeat_closes_iff [where now = 0] t by simp
qed

text \<open>
  (C33) A run of read errors other than timeouts closes an open tunnel exactly when, with those counted
  before it, they number ten or more.
\<close>

theorem read_errors_close:
  assumes "tunnel_inv t" "\<not> tn_closed t" "\<forall>(now, e) \<in> set errs. e \<noteq> NetTimeout"
  shows "tn_closed (fold handle_event (map (\<lambda>(now, e). Inbound now (Inl e)) errs) t) \<longleftrightarrow>
    10 \<le> tn_consecutiveReadErrs t + length errs"
  using assms
proof (induction errs arbitrary: t)
  case Nil
  then show ?case by (simp add: tunnel_inv_def health_inv_def maxConsecutiveReadErrors_def)
next
  case (Cons ev errs)
  obtain now e where ev: "ev = (now, e)" by fastforce
  let ?u = "handle_event (Inbound now (Inl e)) t"
  have inv: "tunnel_inv ?u" using Cons.prems(1) by (rule events.keeps_inv)
  note stays = events.run_closed [OF inv]
  have "e \<noteq> NetTimeout" using Cons.prems(3) ev by simp
  note step = reader_error_step [OF Cons.prems(1,2) this, of now]
  show ?case
  proof (cases "9 \<le> tn_consecutiveReadErrs t")
    case True
    then show ?thesis using step(1) stays ev by simp
  next
    case False
    then show ?thesis using step Cons.IH [OF inv] Cons.prems(3) ev by simp
  qed
qed

theorem read_errors_close_witness:
  "tn_closed (fold handle_event (map (\<lambda>(now, e). Inbound now (Inl e)) (replicate 10 (0, NetClosed))) (sample_tunnel [7])) \<and>
   \<not> tn_closed (fold handle_event (map (\<lambda>(now, e). Inbound now (Inl e)) (replicate 9 (0, NetClosed))) (sample_tunnel [7]))"
proof -
  have "\<not> tn_closed (sample_tunnel [7])" "tn_consecutiveReadErrs (sample_tunnel [7]) = 0"
    by (simp_all add: sample_tunnel_def Tunnel_New_def)
  then show ?thesis
    using read_errors_close [OF sample_inv, of "[7]" "replicate 10 (0, NetClosed)"]
      read_errors_close [OF sample_inv, of "[7]" "replicate 9 (0, NetClosed)"]
    by simp
qed

text \<open>
  (C34) A run of acknowledgements whose writes all fail closes an open tunnel exactly when, with the
  failures counted before it, they number five or more.
\<close>

theorem ack_errors_close:
  assumes "tunnel_inv t" "\<not> tn_closed t" "u_raddr (tn_client t) \<noteq> None"
    "k_wfaults (u_conn (tn_client t)) = map (Some \<circ> snd) fails @ rest"
  shows "tn_closed (fold handle_event (map (AckTimer \<circ> fst) fails) t) \<longleftrightarrow>
    5 \<le> tn_consecutiveSendErrs t + length fails"
  using assms
proof (induction fails arbitrary: t)
  case Nil
  then show ?case by (simp add: tunnel_inv_def health_inv_def maxConsecutiveSendErrors_def)
next
  case (Cons ev fails)
  obtain now e where ev: "ev = (now, e)" by fastforce
  let ?u = "handle_event (AckTimer now) t"
  have inv: "tunnel_inv ?u" using Cons.prems(1) by (rule events.keeps_inv)
  note stays = events.run_closed [OF inv]
  have "k_wfaults (u_conn (tn_client t)) = Some e # map (Some \<circ> snd) fails @ rest"
    using Cons.prems(4) ev by simp
  note step = flush_failing [OF Cons.prems(1,2) this Cons.prems(3), of now]
  show ?case
  proof (cases "4 \<le> tn_consecutiveSendErrs t")
    case True
    then show ?thesis using step(1) stays ev by simp
  next
    case False
    then show ?thesis using step Cons.IH [OF inv] ev by simp
  qed
qed

theorem ack_errors_close_witness:
  "tn_closed (fold handle_event (map (AckTimer \<circ> fst) (replicate 5 (0, NetClosed)))
     ((sample_tunnel [7])\<lparr>tn_client := sample_client\<lparr>u_conn := (u_conn sample_client)\<lparr>k_wfaults := replicate 5 (Some NetClosed)\<rparr>\<rparr>\<rparr>))"
proof -
  let ?t = "(sample_tunnel [7])\<lparr>tn_client := sample_client\<lparr>u_conn := (u_conn sample_client)\<lparr>k_wfaults := replicate 5 (Some NetClosed)\<rparr>\<rparr>\<rparr>"
  have "tunnel_inv ?t"
    using sample_inv [of "[7]"] by (simp add: inv_defs sample_tunnel_def Tunnel_New_def)
  moreover have "\<not> tn_closed ?t" "u_raddr (tn_client ?t) \<noteq> None"
    "k_wfaults (u_conn (tn_client ?t)) = map (Some \<circ> snd) (replicate 5 (0 :: int, NetClosed)) @ []"
    by (simp_all add: sample_tunnel_def Tunnel_New_def sample_client_def)
  ultimately show ?thesis
    using ack_errors_close [of ?t "replicate 5 (0, NetClosed)" "[]"] by simp
qed

end
