(* ===== verification/Tunnel_Retirement.thy ===== *)
theory Tunnel_Retirement
  imports Tunnel_Stream Tunnel_Liveness
begin

text \<open>
  Retirement (\<^verbatim>\<open>tunnel/tunnel.go\<close>, \<open>Retire\<close>) as the realms of a tunnel see it: the goroutines and the calls
  on connections, with what they return, on a retired tunnel and on the same tunnel unretired.
\<close>

section \<open>Serving\<close>

text \<open>
  What happens on a tunnel besides dialling: an event of its goroutines, a call on a connection, or
  a read that wakes up from its select statement.
\<close>

datatype service =
  Event tunnel_event
| Call conn_ref conn_call
| Wake conn_ref int nat time nat wake

text \<open>What the caller gets.\<close>

datatype outcome =
  Nothing
| Wrote "nat \<times> tun_error option"
| Status "tun_error option"
| Reading read_state
| Woken "read_state option"

fun serve :: "service \<Rightarrow> Tunnel \<Rightarrow> outcome \<times> Tunnel" where
  "serve (Event e) t = (Nothing, handle_event e t)"
| "serve (Call c (CallWrite clock p)) t = apfst Wrote (Conn_Write clock c p t)"
| "serve (Call c (CallClose now)) t = (Nothing, Conn_Close now c t)"
| "serve (Call c (CallSetDeadline d)) t = apfst Status (Conn_SetDeadline c d t)"
| "serve (Call c (CallSetReadDeadline d)) t = apfst Status (Conn_SetReadDeadline c d t)"
| "serve (Call c (CallSetWriteDeadline d)) t = apfst Status (Conn_SetWriteDeadline c d t)"
| "serve (Call c (CallRead now n)) t = apfst Reading (Conn_Read now n c t)"
| "serve (Wake c now n d ch w) t =
     (case read_select now n c d ch w t of None \<Rightarrow> (Woken None, t) | Some (r, t) \<Rightarrow> (Woken (Some r), t))"

fun serve_all :: "service list \<Rightarrow> Tunnel \<Rightarrow> outcome list \<times> Tunnel" where
  "serve_all [] t = ([], t)"
| "serve_all (x # xs) t = (let (r, t) = serve x t; (rs, t) = serve_all xs t in (r # rs, t))"

section \<open>Nothing looks at the mark\<close>

lemma update_conn_retire: "update_conn c f (retire t) = retire (update_conn c f t)"
  by (simp add: update_conn_def)

lemma sendPacketFor_retire: "sendPacketFor now b w (retire t) = apsnd retire (sendPacketFor now b w t)"
  by (cases w) (auto simp: sendPacketFor_def acquireSendPermit_def send_body_def update_conn_def Let_def case_prod_beta
      split: prod.splits option.splits)

lemma write_loop_retire: "write_loop clock i c p n (retire t) = apsnd retire (write_loop clock i c p n t)"
proof (induction clock i c p n t rule: write_loop.induct)
  case (1 clock i c p n t)
  show ?case
  proof (cases "p = []")
    case False
    let ?chunk = "if length p > maxPayloadSize then take maxPayloadSize p else p"
    obtain e u where s: "sendPacketFor (clock i) (NewPayloadBody (c_realmID (tn_conns t c)) ?chunk) (Some c) t = (e, u)" by fastforce
    show ?thesis
    proof (cases e)
      case None
      have "write_loop clock (Suc i) c (drop (length ?chunk) p) (n + length ?chunk) (retire u) =
          apsnd retire (write_loop clock (Suc i) c (drop (length ?chunk) p) (n + length ?chunk) u)"
        using "1.IH" [OF False refl refl s [symmetric] None] .
      then show ?thesis
        using False None s by (simp add: write_loop.simps [of clock i c p n] sendPacketFor_retire Let_def del: if_split)
    qed (use False s in \<open>simp add: write_loop.simps [of clock i c p n] sendPacketFor_retire Let_def\<close>)
  qed (simp add: write_loop.simps [of clock i c "[]" n])
qed

lemma Conn_Write_retire: "Conn_Write clock c p (retire t) = apsnd retire (Conn_Write clock c p t)"
  by (simp add: Conn_Write_def Tunnel_IsClosed_def write_loop_retire)

lemma pop_data_retire: "pop_data c (retire t) = map_option (apsnd retire) (pop_data c t)"
  by (simp add: pop_data_def update_conn_retire split: list.split)

lemma readData_retire: "readData n c d (retire t) = apsnd retire (readData n c d t)"
  by (simp add: readData_def Let_def update_conn_retire)

lemma Conn_Read_retire: "Conn_Read now n c (retire t) = apsnd retire (Conn_Read now n c t)"
  by (simp add: Conn_Read_def Let_def update_conn_retire pop_data_retire readData_retire split: option.split)

lemma read_select_retire: "read_select now n c d ch w (retire t) = map_option (apsnd retire) (read_select now n c d ch w t)"
  by (cases w) (auto simp: pop_data_retire readData_retire Conn_Read_retire split: option.split)

lemma send_discs_retire: "send_discs now c k (retire t) = retire (send_discs now c k t)"
  by (induction k arbitrary: t) (auto simp: sendPacket_retire split: prod.split option.split)

lemma realm_delete_retire: "realm_delete r (retire t) = retire (realm_delete r t)"
  by (simp add: realm_delete_def)

lemma Conn_Close_retire:
  assumes "tunnel_inv t"
  shows "Conn_Close now c (retire t) = retire (Conn_Close now c t)"
proof -
  have "tunnel_inv (retire t)" using retire.keeps_inv [OF assms] by (simp add: Tunnel_Retire_def)
  moreover have "close_conns {c} (retire t) = retire (close_conns {c} t)" by (simp add: close_conns_def)
  ultimately show ?thesis by (simp add: Conn_Close_eq assms send_discs_retire realm_delete_retire)
qed

lemma updateWriteDeadline_retire: "updateWriteDeadline c d (retire t) = apsnd retire (updateWriteDeadline c d t)"
  by (simp add: updateWriteDeadline_def Let_def case_prod_beta)

lemma serve_retire:
  assumes "tunnel_inv t"
  shows "serve x (retire t) = apsnd retire (serve x t)"
proof (cases x)
  case (Call c k)
  then show ?thesis
    by (cases k) (simp_all add: Conn_Write_retire Conn_Close_retire [OF assms] Conn_Read_retire Conn_SetDeadline_def
        Conn_SetReadDeadline_def Conn_SetWriteDeadline_def Let_def update_conn_retire updateWriteDeadline_retire apfst_def apsnd_def map_prod_def case_prod_beta)
qed (simp_all add: handle_event_retire [OF assms] read_select_retire split: option.split)

lemma read_select_inv:
  assumes "tunnel_inv t" "read_select now n c d ch w t = Some (r, t')"
  shows "tunnel_inv t'"
proof (cases w)
  case WakeData
  then obtain data u where u: "pop_data c t = Some (data, u)" "readData n c data u = (r, t')"
    using assms(2) by (auto split: option.splits)
  have "tunnel_inv u" using pop_data_effect(2) [OF u(1)] assms(1) by (simp add: read_frame_def)
  moreover have "read_frame c u t'" using u(2) by (auto simp: readData_def Let_def intro!: read_frame_refl read_frame_update split: if_splits)
  ultimately show ?thesis by (simp add: read_frame_def)
next
  case WakeTimeout
  then show ?thesis using assms by (auto split: if_splits)
qed (use assms Conn_Read_effect [of now n c t r t'] in \<open>auto simp: read_frame_def split: if_splits\<close>)

lemma serve_inv:
  assumes "tunnel_inv t"
  shows "tunnel_inv (snd (serve x t))"
proof (cases x)
  case (Call c k)
  then have "snd (serve x t) = call (c, k) t" by (cases k) simp_all
  then show ?thesis using calls.keeps_inv [OF assms] by simp
next
  case (Event e)
  then show ?thesis using events.keeps_inv [OF assms] by simp
next
  case (Wake c now n d ch w)
  then show ?thesis using assms read_select_inv [OF assms] by (auto split: option.split)
qed

section \<open>Properties\<close>

text \<open>
  (C36) Retiring a tunnel does not disturb the realms it serves: every sequence of heartbeats,
  acknowledgements, inbound packets, reads, writes, deadline changes and closes of its connections,
  and of reads woken from their wait, returns exactly what it returns on the tunnel that was not
  retired, and has the same effect but for the mark.
\<close>

theorem retirement_is_transparent:
  "tunnel_inv t \<Longrightarrow> serve_all xs (Tunnel_Retire t) = apsnd Tunnel_Retire (serve_all xs t)"
proof (induction xs arbitrary: t)
  case (Cons x xs)
  then show ?case
    using Cons.IH [OF serve_inv [OF Cons.prems]] serve_retire [OF Cons.prems, of x]
    by (simp add: Tunnel_Retire_def Let_def case_prod_beta)
qed simp

theorem retirement_is_transparent_witness:
  "serve_all [Event (Tick 0), Call 0 (CallWrite (\<lambda>_. 0) [1, 2]), Call 0 (CallRead 0 4)] (Tunnel_Retire (sample_tunnel [7])) =
     apsnd Tunnel_Retire (serve_all [Event (Tick 0), Call 0 (CallWrite (\<lambda>_. 0) [1, 2]), Call 0 (CallRead 0 4)] (sample_tunnel [7]))"
  by (rule retirement_is_transparent) (simp add: sample_inv)

end
