(* ===== verification/Go_Text.thy ===== *)
theory Go_Text
  imports Prelude
begin

text \<open>
  The string functions of Go's standard library that the protocol code uses, on byte strings
  (\<^verbatim>\<open>strings\<close>, \<^verbatim>\<open>strconv\<close>, \<^verbatim>\<open>fmt\<close>, \<^verbatim>\<open>encoding/base64\<close>), with the round trips between printing and
  parsing that the components rest on.
\<close>

section \<open>Searching and splitting\<close>

definition HasPrefix :: "string \<Rightarrow> string \<Rightarrow> bool" where
  "HasPrefix s p \<longleftrightarrow> take (length p) s = p"

fun Cut :: "string \<Rightarrow> string \<Rightarrow> (string \<times> string) option" where
  "Cut sep [] = (if sep = [] then Some ([], []) else None)"
| "Cut sep (c # s) =
     (if HasPrefix (c # s) sep then Some ([], drop (length sep) (c # s))
      else map_option (\<lambda>(a, b). (c # a, b)) (Cut sep s))"

text \<open>\<open>SplitN\<close> with a positive bound, and \<open>Split\<close>, both for a separator that is not empty.\<close>

fun SplitN :: "string \<Rightarrow> nat \<Rightarrow> string \<Rightarrow> string list" where
  "SplitN sep 0 s = []"
| "SplitN sep (Suc 0) s = [s]"
| "SplitN sep (Suc (Suc n)) s =
     (case Cut sep s of None \<Rightarrow> [s] | Some (a, b) \<Rightarrow> a # SplitN sep (Suc n) b)"

lemma Cut_length: "Cut sep s = Some (a, b) \<Longrightarrow> length s = length a + length sep + length b"
  by (induction s arbitrary: a b) (auto simp: HasPrefix_def split: if_splits dest: arg_cong [where f = length])

function Split :: "string \<Rightarrow> string \<Rightarrow> string list" where
  "Split sep s =
     (case Cut sep s of
        None \<Rightarrow> [s]
      | Some (a, b) \<Rightarrow> if sep = [] then [s] else a # Split sep b)"
  by pat_completeness auto
termination
  by (relation "measure (\<lambda>(sep, s). length s)") (auto dest: Cut_length)

declare Split.simps [simp del]

function ReplaceAll :: "string \<Rightarrow> string \<Rightarrow> string \<Rightarrow> string" where
  "ReplaceAll old new s =
     (case Cut old s of
        None \<Rightarrow> s
      | Some (a, b) \<Rightarrow> if old = [] then s else a @ new @ ReplaceAll old new b)"
  by pat_completeness auto
termination
  by (relation "measure (\<lambda>(old, new, s). length s)") (auto dest: Cut_length)

declare ReplaceAll.simps [simp del]

fun Join :: "string \<Rightarrow> string list \<Rightarrow> string" where
  "Join sep [] = []"
| "Join sep [x] = x"
| "Join sep (x # y # ys) = x @ sep @ Join sep (y # ys)"

text \<open>What is cut, split and replaced when the first byte of the separator occurs nowhere else.\<close>

lemma Cut_none: "sep \<noteq> [] \<Longrightarrow> hd sep \<notin> set s \<Longrightarrow> Cut sep s = None"
  by (induction s) (auto simp: HasPrefix_def take_Cons' neq_Nil_conv split: if_splits)

lemma Cut_first: "sep \<noteq> [] \<Longrightarrow> hd sep \<notin> set a \<Longrightarrow> Cut sep (a @ sep @ b) = Some (a, b)"
proof (induction a)
  case Nil
  obtain c s where s: "sep @ b = c # s" using Nil(1) by (cases sep) auto
  have "take (length sep) (c # s) = sep" "drop (length sep) (c # s) = b" unfolding s [symmetric] by simp_all
  then show ?case by (simp add: s HasPrefix_def)
next
  case (Cons c a)
  then have "\<not> HasPrefix (c # a @ sep @ b) sep" by (cases sep) (auto simp: HasPrefix_def)
  then show ?case using Cons by simp
qed

lemma Join_Cons: "ls \<noteq> [] \<Longrightarrow> Join sep (x # ls) = x @ sep @ Join sep ls"
  by (cases ls) auto

lemma Join_append: "xs \<noteq> [] \<Longrightarrow> ys \<noteq> [] \<Longrightarrow> Join sep (xs @ ys) = Join sep xs @ sep @ Join sep ys"
  by (induction xs rule: list_nonempty_induct) (simp_all add: Join_Cons)

lemma set_Join: "set (Join sep ls) \<subseteq> set sep \<union> (\<Union> (set ` set ls))"
  by (induction sep ls rule: Join.induct) auto

lemma Split_Join:
  assumes "sep \<noteq> []" "ls \<noteq> []" "\<forall>l \<in> set ls. hd sep \<notin> set l"
  shows "Split sep (Join sep ls) = ls"
  using assms(2,3)
proof (induction ls rule: list_nonempty_induct)
  case (single x)
  then show ?case using assms(1) by (simp add: Split.simps [of sep] Cut_none)
next
  case (cons x xs)
  then show ?case using assms(1) by (simp add: Split.simps [of sep "x @ _"] Join_Cons Cut_first)
qed

lemma ReplaceAll_none: "old \<noteq> [] \<Longrightarrow> hd old \<notin> set s \<Longrightarrow> ReplaceAll old new s = s"
  by (simp add: ReplaceAll.simps [of old] Cut_none)

lemma ReplaceAll_Join:
  assumes "old \<noteq> []" "\<forall>l \<in> set ls. hd old \<notin> set l"
  shows "ReplaceAll old new (Join old ls) = Join new ls"
proof (cases "ls = []")
  case True
  then show ?thesis using assms(1) by (simp add: ReplaceAll_none)
next
  case False
  then show ?thesis using assms(2)
  proof (induction ls rule: list_nonempty_induct)
    case (single x)
    then show ?case using assms(1) by (simp add: ReplaceAll_none)
  next
    case (cons x xs)
    then show ?case using assms(1) by (simp add: ReplaceAll.simps [of old "_" "x @ _"] Join_Cons Cut_first)
  qed
qed

section \<open>White space\<close>

text \<open>
  The UTF-8 encodings of the characters of \<open>unicode.IsSpace\<close>. None of them can start inside another
  encoded character, so that looking for these byte sequences is the same as decoding.
\<close>

definition spaces :: "string list" where
  "spaces = map (\<lambda>c. [c]) [CHR 0x09, CHR 0x0A, CHR 0x0B, CHR 0x0C, CHR 0x0D, CHR 0x20] @
     [[CHR 0xC2, CHR 0x85], [CHR 0xC2, CHR 0xA0], [CHR 0xE1, CHR 0x9A, CHR 0x80]] @
     map (\<lambda>c. [CHR 0xE2, CHR 0x80, c])
       [CHR 0x80, CHR 0x81, CHR 0x82, CHR 0x83, CHR 0x84, CHR 0x85, CHR 0x86, CHR 0x87, CHR 0x88, CHR 0x89, CHR 0x8A,
        CHR 0xA8, CHR 0xA9, CHR 0xAF] @
     [[CHR 0xE2, CHR 0x81, CHR 0x9F], [CHR 0xE3, CHR 0x80, CHR 0x80]]"

lemma HasPrefix_length: "HasPrefix s p \<Longrightarrow> length p \<le> length s"
  unfolding HasPrefix_def by (metis length_take min.cobounded1)

lemma space_shortens:
  assumes "find (\<lambda>p. p \<noteq> [] \<and> HasPrefix s p) ps = Some p"
  shows "length s - length p < length s"
proof -
  have "p \<noteq> [] \<and> HasPrefix s p" using assms by (auto simp: find_Some_iff)
  then have "0 < length p" "length p \<le> length s" using HasPrefix_length by auto
  then show ?thesis by linarith
qed

function trim_left :: "string list \<Rightarrow> string \<Rightarrow> string" where
  "trim_left ps s =
     (case find (\<lambda>p. p \<noteq> [] \<and> HasPrefix s p) ps of
        None \<Rightarrow> s
      | Some p \<Rightarrow> trim_left ps (drop (length p) s))"
  by pat_completeness auto
termination
  by (relation "measure (\<lambda>(ps, s). length s)") (auto dest: space_shortens)

declare trim_left.simps [simp del]

definition TrimSpace :: "string \<Rightarrow> string" where
  "TrimSpace s = rev (trim_left (map rev spaces) (rev (trim_left spaces s)))"

function fields_from :: "string \<Rightarrow> string \<Rightarrow> string list" where
  "fields_from cur s =
     (let flush = (if cur = [] then [] else [cur])
      in case s of
           [] \<Rightarrow> flush
         | c # s' \<Rightarrow>
             (case find (\<lambda>p. p \<noteq> [] \<and> HasPrefix s p) spaces of
                Some p \<Rightarrow> flush @ fields_from [] (drop (length p) s)
              | None \<Rightarrow> fields_from (cur @ [c]) s'))"
  by pat_completeness auto
termination
  by (relation "measure (\<lambda>(cur, s). length s)") (auto dest: space_shortens)

declare fields_from.simps [simp del]

definition Fields :: "string \<Rightarrow> string list" where
  "Fields s = fields_from [] s"

section \<open>Numbers\<close>

definition digit_char :: "nat \<Rightarrow> char" where
  "digit_char d = char_of (48 + d)"

definition digit_val :: "char \<Rightarrow> nat option" where
  "digit_val c = (let n = of_char c in if 48 \<le> n \<and> n \<le> 57 then Some (n - 48) else None)"

fun nat_str :: "nat \<Rightarrow> string" where
  "nat_str n = (if n < 10 then [digit_char n] else nat_str (n div 10) @ [digit_char (n mod 10)])"

declare nat_str.simps [simp del]

text \<open>\<open>%d\<close> and \<open>strconv.Itoa\<close>.\<close>

definition int_str :: "int \<Rightarrow> string" where
  "int_str i = (if i < 0 then ''-'' @ nat_str (nat (- i)) else nat_str (nat i))"

fun digits_val :: "nat \<Rightarrow> string \<Rightarrow> nat option" where
  "digits_val acc [] = Some acc"
| "digits_val acc (c # s) =
     (case digit_val c of None \<Rightarrow> None | Some d \<Rightarrow> digits_val (acc * 10 + d) s)"

text \<open>\<open>strconv.Atoi\<close> and \<open>strconv.ParseInt(s, 10, 64)\<close>: a sign, digits, and the range of \<open>int64\<close>.\<close>

definition Atoi :: "string \<Rightarrow> int option" where
  "Atoi s =
     (let neg = (s \<noteq> [] \<and> hd s = CHR ''-'');
          ds = (if s \<noteq> [] \<and> (hd s = CHR ''-'' \<or> hd s = CHR ''+'') then tl s else s)
      in if ds = [] then None
         else case digits_val 0 ds of
                None \<Rightarrow> None
              | Some n \<Rightarrow>
                  (let i = (if neg then - int n else int n)
                   in if - (2 ^ 63) \<le> i \<and> i < 2 ^ 63 then Some i else None))"

text \<open>\<open>%02x\<close> and \<open>%X\<close> of bytes.\<close>

definition hex_digit :: "bool \<Rightarrow> nat \<Rightarrow> char" where
  "hex_digit upper d = (if d < 10 then char_of (48 + d) else char_of ((if upper then 55 else 87) + d))"

definition hex_byte :: "bool \<Rightarrow> byte \<Rightarrow> string" where
  "hex_byte upper b = [hex_digit upper (unat b div 16), hex_digit upper (unat b mod 16)]"

lemma digit_val_char: "d < 10 \<Longrightarrow> digit_val (digit_char d) = Some d"
  by (simp add: digit_val_def digit_char_def Let_def)

lemma digits_val_append: "digits_val acc (s @ t) = (case digits_val acc s of None \<Rightarrow> None | Some v \<Rightarrow> digits_val v t)"
  by (induction s arbitrary: acc) (auto split: option.split)

lemma nat_str_digits: "\<exists>k. \<forall>acc. digits_val acc (nat_str n) = Some (acc * 10 ^ k + n)"
proof (induction n rule: nat_str.induct)
  case (1 n)
  show ?case
  proof (cases "n < 10")
    case True
    then show ?thesis by (intro exI [of _ 1]) (simp add: nat_str.simps [of n] digit_val_char)
  next
    case False
    then obtain k where "\<forall>acc. digits_val acc (nat_str (n div 10)) = Some (acc * 10 ^ k + n div 10)" using 1 by blast
    then show ?thesis using False
      by (intro exI [of _ "Suc k"]) (simp add: nat_str.simps [of n] digits_val_append digit_val_char algebra_simps)
  qed
qed

lemma digits_val_nat_str [simp]: "digits_val 0 (nat_str n) = Some n"
  using nat_str_digits [of n] by auto

lemma nat_str_chars:
  "nat_str n \<noteq> []" "\<forall>c \<in> set (nat_str n). \<exists>d < 10. c = digit_char d"
proof (induction n rule: nat_str.induct)
  case (1 n)
  { case 1 show ?case by (simp add: nat_str.simps [of n]) }
  { case 2 show ?case using "1.IH"(2) by (cases "n < 10") (auto simp: nat_str.simps [of n] intro: exI [of _ "n mod 10"]) }
qed

lemma digit_char_sign: "d < 10 \<Longrightarrow> digit_char d \<noteq> CHR ''-'' \<and> digit_char d \<noteq> CHR ''+''"
proof -
  assume "d < 10"
  then have "of_char (digit_char d) = 48 + d" by (simp add: digit_char_def)
  then show ?thesis using \<open>d < 10\<close> by auto
qed

lemma Atoi_int_str:
  assumes "- (2 ^ 63) \<le> i" "i < 2 ^ 63"
  shows "Atoi (int_str i) = Some i"
proof -
  have hd: "hd (nat_str n) \<noteq> CHR ''-'' \<and> hd (nat_str n) \<noteq> CHR ''+''" for n
    using nat_str_chars [of n] digit_char_sign by (metis list.set_sel(1))
  show ?thesis using assms hd nat_str_chars(1) by (simp add: Atoi_def int_str_def Let_def)
qed

section \<open>Base64\<close>

definition base64_alphabet :: string where
  "base64_alphabet = ''ABCDEFGHIJKLMNOPQRSTUVWXYZabcdefghijklmnopqrstuvwxyz0123456789+/''"

definition base64_char :: "nat \<Rightarrow> char" where
  "base64_char i = base64_alphabet ! i"

definition base64_val :: "char \<Rightarrow> nat option" where
  "base64_val c = map_of (zip base64_alphabet [0..<64]) c"

fun base64_encode :: "byte list \<Rightarrow> string" where
  "base64_encode [] = []"
| "base64_encode [a] =
     (let n = unat a * 16 in [base64_char (n div 64), base64_char (n mod 64), CHR ''='', CHR ''=''])"
| "base64_encode [a, b] =
     (let n = (unat a * 256 + unat b) * 4
      in [base64_char (n div 4096), base64_char (n div 64 mod 64), base64_char (n mod 64), CHR ''=''])"
| "base64_encode (a # b # c # bs) =
     (let n = (unat a * 256 + unat b) * 256 + unat c
      in base64_char (n div 262144) # base64_char (n div 4096 mod 64) # base64_char (n div 64 mod 64) #
         base64_char (n mod 64) # base64_encode bs)"

fun base64_vals :: "string \<Rightarrow> nat option" where
  "base64_vals s =
     fold (\<lambda>c acc. case (acc, base64_val c) of (Some n, Some v) \<Rightarrow> Some (n * 64 + v) | _ \<Rightarrow> None) s (Some 0)"

text \<open>\<open>StdEncoding.DecodeString\<close>: line ends are skipped, padding is required and ends the input.\<close>

fun base64_quads :: "string \<Rightarrow> byte list option" where
  "base64_quads [] = Some []"
| "base64_quads (a # b # c # d # rest) =
     (if c = CHR ''='' \<and> d = CHR ''='' then
        (case base64_vals [a, b] of
           Some n \<Rightarrow> if rest = [] then Some [of_nat (n div 16)] else None
         | None \<Rightarrow> None)
      else if d = CHR ''='' then
        (case base64_vals [a, b, c] of
           Some n \<Rightarrow> if rest = [] then Some [of_nat (n div 1024), of_nat (n div 4)] else None
         | None \<Rightarrow> None)
      else
        (case base64_vals [a, b, c, d] of
           Some n \<Rightarrow> map_option (\<lambda>bs. of_nat (n div 65536) # of_nat (n div 256) # of_nat n # bs) (base64_quads rest)
         | None \<Rightarrow> None))"
| "base64_quads s = None"

definition base64_decode :: "string \<Rightarrow> byte list option" where
  "base64_decode s = base64_quads (filter (\<lambda>c. c \<noteq> CHR 0x0A \<and> c \<noteq> CHR 0x0D) s)"

lemma base64_char_val:
  assumes "i < 64"
  shows "base64_val (base64_char i) = Some i" "base64_char i \<noteq> CHR ''=''"
    "base64_char i \<noteq> CHR 0x0A" "base64_char i \<noteq> CHR 0x0D"
proof -
  have "\<forall>i \<in> set [0..<64]. base64_val (base64_char i) = Some i \<and> base64_char i \<noteq> CHR ''='' \<and>
      base64_char i \<noteq> CHR 0x0A \<and> base64_char i \<noteq> CHR 0x0D" by code_simp
  moreover have "i \<in> set [0..<64]" using assms by simp
  ultimately show "base64_val (base64_char i) = Some i" "base64_char i \<noteq> CHR ''=''"
    "base64_char i \<noteq> CHR 0x0A" "base64_char i \<noteq> CHR 0x0D" by blast+
qed

lemma of_nat_byte: "of_nat (k * 256 + unat (b::byte)) = b"
proof -
  have "of_nat (k * 256 + unat b) = of_nat k * (256::byte) + b" by simp
  also have "(256::byte) = 0" by simp
  finally show ?thesis by simp
qed

lemma unat_byte: "of_nat (unat (b::byte)) = b"
  by simp

lemma base64_group:
  assumes "i < 64" "j < 64"
  shows "base64_quads [base64_char i, base64_char j, CHR ''='', CHR ''=''] = Some [of_nat ((i * 64 + j) div 16)]"
    "k < 64 \<Longrightarrow> base64_quads [base64_char i, base64_char j, base64_char k, CHR ''=''] =
       Some [of_nat (((i * 64 + j) * 64 + k) div 1024), of_nat (((i * 64 + j) * 64 + k) div 4)]"
    "k < 64 \<Longrightarrow> l < 64 \<Longrightarrow> base64_quads (base64_char i # base64_char j # base64_char k # base64_char l # s) =
       map_option (\<lambda>bs. of_nat ((((i * 64 + j) * 64 + k) * 64 + l) div 65536) #
         of_nat ((((i * 64 + j) * 64 + k) * 64 + l) div 256) # of_nat (((i * 64 + j) * 64 + k) * 64 + l) # bs) (base64_quads s)"
  using assms base64_char_val by simp_all

lemma base64_split:
  fixes n :: nat
  shows "(n div 4096 * 64 + n div 64 mod 64) * 64 + n mod 64 = n"
    "((n div 262144 * 64 + n div 4096 mod 64) * 64 + n div 64 mod 64) * 64 + n mod 64 = n"
proof -
  have d: "m div 4096 = m div 64 div 64" "n div 262144 = n div 4096 div 64" for m :: nat by (simp_all flip: div_mult2_eq)
  show "(n div 4096 * 64 + n div 64 mod 64) * 64 + n mod 64 = n" by (simp only: d(1) div_mult_mod_eq)
  show "((n div 262144 * 64 + n div 4096 mod 64) * 64 + n div 64 mod 64) * 64 + n mod 64 = n"
    by (simp only: d(2) div_mult_mod_eq) (simp only: d(1) div_mult_mod_eq)
qed

lemma base64_decode_quads: "base64_quads (base64_encode bs) = Some bs"
proof (induction bs rule: base64_encode.induct)
  case (2 a)
  let ?n = "unat a * 16"
  have "?n div 64 < 64" "?n mod 64 < 64" using byte_lt [of a] by simp_all
  from base64_group(1) [OF this] have "base64_quads (base64_encode [a]) = Some [of_nat (?n div 16)]"
    by (simp only: base64_encode.simps Let_def div_mult_mod_eq)
  then show ?case by simp
next
  case (3 a b)
  let ?n = "(unat a * 256 + unat b) * 4"
  have "?n div 4096 < 64" "?n div 64 mod 64 < 64" "?n mod 64 < 64" using byte_lt [of a] byte_lt [of b] by simp_all
  from base64_group(2) [OF this] have "base64_quads (base64_encode [a, b]) = Some [of_nat (?n div 1024), of_nat (?n div 4)]"
    by (simp only: base64_encode.simps Let_def base64_split)
  moreover have "?n div 1024 = unat a" "?n div 4 = unat a * 256 + unat b" using byte_lt [of b] by simp_all
  ultimately show ?case using of_nat_byte [of "unat a" b] by (simp only: unat_byte)
next
  case (4 a b c bs)
  let ?n = "(unat a * 256 + unat b) * 256 + unat c"
  have "?n div 262144 < 64" "?n div 4096 mod 64 < 64" "?n div 64 mod 64 < 64" "?n mod 64 < 64"
    using byte_lt [of a] byte_lt [of b] byte_lt [of c] by simp_all
  from base64_group(3) [OF this]
  have "base64_quads (base64_encode (a # b # c # bs)) = Some (of_nat (?n div 65536) # of_nat (?n div 256) # of_nat ?n # bs)"
    by (simp only: base64_encode.simps Let_def base64_split 4 option.map)
  moreover have "?n div 65536 = unat a" "?n div 256 = unat a * 256 + unat b" using byte_lt [of b] byte_lt [of c] by simp_all
  ultimately show ?case
    using of_nat_byte [of "unat a" b] of_nat_byte [of "unat a * 256 + unat b" c] by (simp only: unat_byte)
qed simp

lemma base64_encode_chars: "CHR 0x0A \<notin> set (base64_encode bs)" "CHR 0x0D \<notin> set (base64_encode bs)"
proof (induction bs rule: base64_encode.induct)
  case (2 a)
  { case 1 show ?case using byte_lt [of a] base64_char_val(3) [symmetric] by (auto simp: Let_def) }
  { case 2 show ?case using byte_lt [of a] base64_char_val(4) [symmetric] by (auto simp: Let_def) }
next
  case (3 a b)
  have lt: "(unat a * 256 + unat b) * 4 div 4096 < 64" using byte_lt [of a] byte_lt [of b] by simp
  { case 1 show ?case using lt base64_char_val(3) [symmetric] by (auto simp: Let_def) }
  { case 2 show ?case using lt base64_char_val(4) [symmetric] by (auto simp: Let_def) }
next
  case (4 a b c bs)
  have lt: "((unat a * 256 + unat b) * 256 + unat c) div 262144 < 64" using byte_lt [of a] byte_lt [of b] byte_lt [of c] by simp
  { case 1 show ?case using lt base64_char_val(3) [symmetric] 4 by (auto simp: Let_def) }
  { case 2 show ?case using lt base64_char_val(4) [symmetric] 4 by (auto simp: Let_def) }
qed simp_all

lemma base64_roundtrip: "base64_decode (base64_encode bs) = Some bs"
proof -
  have "filter (\<lambda>c. c \<noteq> CHR 0x0A \<and> c \<noteq> CHR 0x0D) (base64_encode bs) = base64_encode bs"
    using base64_encode_chars [of bs] by (auto simp: filter_id_conv)
  then show ?thesis by (simp add: base64_decode_def base64_decode_quads)
qed

end
