(* ===== verification/Dh_Protocol.thy ===== *)
theory Dh_Protocol
  imports Go_Text Dh_Udp Ptcp_Types
begin

text \<open>
  Requests and responses of the cloud service (\<^verbatim>\<open>dh/protocol.go\<close>): parsing of responses, the signed
  requests, and the text forms of addresses. The XML decoder and the hash functions are arguments.
\<close>

section \<open>Responses\<close>

datatype dh_error =
  ErrDeviceNotFound
| ErrAuthenticationFailed
| ErrTimeout
| ErrInvalidResponse
| ErrNet net_error
| ErrPacket "ptcp_error fault"
| ErrOther string

record Response =
  r_Version :: string
  r_Code :: int
  r_Status :: string
  r_Headers :: "string \<rightharpoonup> string"
  r_Body :: "string \<rightharpoonup> string"

definition crlf :: string where
  "crlf = [CHR 0x0D, CHR 0x0A]"

definition lf :: string where
  "lf = [CHR 0x0A]"

text \<open>The tokens \<open>xml.Decoder\<close> yields before its first error; comments and directives are \<open>OtherToken\<close>.\<close>

datatype xml_token = StartElement string | EndElement | CharData string | OtherToken

fun flatten_xml :: "string list \<Rightarrow> (string \<rightharpoonup> string) \<Rightarrow> xml_token list \<Rightarrow> (string \<rightharpoonup> string)" where
  "flatten_xml stack result [] = result"
| "flatten_xml stack result (StartElement name # ts) = flatten_xml (stack @ [name]) result ts"
| "flatten_xml stack result (EndElement # ts) = flatten_xml (butlast stack) result ts"
| "flatten_xml stack result (CharData t # ts) =
     (let text = TrimSpace t
      in flatten_xml stack (if text \<noteq> [] \<and> stack \<noteq> [] then result(Join ''/'' stack \<mapsto> text) else result) ts)"
| "flatten_xml stack result (OtherToken # ts) = flatten_xml stack result ts"

definition parseXMLBody :: "(string \<Rightarrow> xml_token list) \<Rightarrow> string \<Rightarrow> (string \<rightharpoonup> string)" where
  "parseXMLBody tokens xmlStr = flatten_xml [] Map.empty (tokens xmlStr)"

fun parse_headers :: "string list \<Rightarrow> (string \<rightharpoonup> string) \<Rightarrow> (string \<rightharpoonup> string)" where
  "parse_headers [] headers = headers"
| "parse_headers (line # lines) headers =
     parse_headers lines
       (case Cut '': '' line of
          Some (name, value) \<Rightarrow> if name \<noteq> [] then headers(name \<mapsto> value) else headers
        | None \<Rightarrow> headers)"

definition ParseResponse :: "(string \<Rightarrow> xml_token list) \<Rightarrow> string \<Rightarrow> dh_error + Response" where
  "ParseResponse tokens data =
     (let normalized = ReplaceAll lf crlf (ReplaceAll crlf lf data)
      in case SplitN (crlf @ crlf) 2 normalized of
           [head, body] \<Rightarrow>
             (let lines = Split crlf head
              in case SplitN '' '' 3 (hd lines) of
                   [version, rawCode, status] \<Rightarrow>
                     (case Atoi rawCode of
                        None \<Rightarrow> Inl ErrInvalidResponse
                      | Some code \<Rightarrow>
                          Inr \<lparr>r_Version = version, r_Code = code, r_Status = status,
                               r_Headers = parse_headers (tl lines) Map.empty,
                               r_Body = (if TrimSpace body \<noteq> [] then parseXMLBody tokens body else Map.empty)\<rparr>)
                 | _ \<Rightarrow> Inl ErrInvalidResponse)
         | _ \<Rightarrow> Inl ErrInvalidResponse)"

section \<open>Requests\<close>

definition Username :: string where
  "Username = ''cba1b29e32cb17aa46b8ff9e73c7f40b''"

definition UserKey :: string where
  "UserKey = ''996103384cdf19179e19243e959bbf8b''"

text \<open>\<open>time.Unix(0, now).UTC().Format("2006-01-02T15:04:05Z")\<close>, with the calendar computed from the days.\<close>

definition pad_int :: "nat \<Rightarrow> int \<Rightarrow> string" where
  "pad_int w n = (let s = nat_str (nat n) in replicate (w - length s) (CHR ''0'') @ s)"

definition utc_date :: "int \<Rightarrow> string" where
  "utc_date now =
     (let secs = now div second; days = secs div 86400; sod = secs mod 86400;
          z = days + 719468; era = z div 146097; doe = z mod 146097;
          yoe = (doe - doe div 1460 + doe div 36524 - doe div 146096) div 365;
          doy = doe - (365 * yoe + yoe div 4 - yoe div 100);
          mp = (5 * doy + 2) div 153;
          d = doy - (153 * mp + 2) div 5 + 1;
          m = (if mp < 10 then mp + 3 else mp - 9);
          y = yoe + era * 400 + (if m \<le> 2 then 1 else 0)
      in pad_int 4 y @ ''-'' @ pad_int 2 m @ ''-'' @ pad_int 2 d @ ''T'' @
         pad_int 2 (sod div 3600) @ '':'' @ pad_int 2 (sod div 60 mod 60) @ '':'' @ pad_int 2 (sod mod 60) @ ''Z'')"

definition generateAuth :: "(byte list \<Rightarrow> byte list) \<Rightarrow> byte list \<Rightarrow> int \<Rightarrow> string" where
  "generateAuth sha1 nonceBytes now =
     (let nonce = nat_str (unat (be_word (nonceBytes ! 0) (nonceBytes ! 1) (nonceBytes ! 2) (nonceBytes ! 3)));
          currDate = utc_date now;
          pwd = nonce @ currDate @ ''DHP2P:'' @ Username @ '':'' @ UserKey;
          digest = base64_encode (sha1 (string_bytes pwd))
      in ''WSSE profile=\"UsernameToken\"'' @ crlf @ ''X-WSSE: UsernameToken Username=\"'' @ Username @
         ''\", PasswordDigest=\"'' @ digest @ ''\", Nonce=\"'' @ nonce @ ''\", Created=\"'' @ currDate @ ''\"'')"

definition UDP_Request ::
    "(byte list \<Rightarrow> byte list) \<Rightarrow> byte list \<Rightarrow> int \<Rightarrow> UDPClient \<Rightarrow> string \<Rightarrow> string \<Rightarrow> net_error option \<times> UDPClient" where
  "UDP_Request sha1 nonceBytes now c path body =
     (let c = c\<lparr>u_cseq := u_cseq c + 1\<rparr>;
          method = (if body \<noteq> [] then ''DHPOST'' else ''DHGET'');
          auth = generateAuth sha1 nonceBytes now;
          req = method @ '' '' @ path @ '' HTTP/1.1'' @ crlf @ ''CSeq: '' @ nat_str (unat (u_cseq c)) @ crlf @
            ''Authorization: '' @ auth @ crlf @ crlf @ body
      in UDP_Send c (string_bytes req))"

definition UDP_Read :: "(string \<Rightarrow> xml_token list) \<Rightarrow> int \<Rightarrow> UDPClient \<Rightarrow> (dh_error + Response) \<times> UDPClient" where
  "UDP_Read tokens now c =
     (case UDP_Recv now c (u_timeout c) of
        (Inl e, c) \<Rightarrow> (Inl (ErrNet e), c)
      | (Inr data, c) \<Rightarrow> (ParseResponse tokens (bytes_string data), c))"

text \<open>\<open>listen\<close> is the outcome of \<open>net.ListenUDP\<close>: a socket and the address it is bound to.\<close>

definition NewUDPClientPort :: "net_error + socket \<times> UDPAddr \<Rightarrow> duration \<Rightarrow> int \<Rightarrow> net_error + UDPClient" where
  "NewUDPClientPort listen timeout localPort =
     (if localPort < 0 \<or> 65535 < localPort then Inl (NetOther ''invalid port'')
      else case listen of
             Inl e \<Rightarrow> Inl e
           | Inr (conn, laddr) \<Rightarrow>
               Inr \<lparr>u_conn = conn, u_laddr = laddr, u_raddr = None, u_timeout = timeout, u_cseq = 0\<rparr>)"

section \<open>Addresses\<close>

text \<open>\<open>net.SplitHostPort\<close> and \<open>net.JoinHostPort\<close>.\<close>

fun last_colon :: "string \<Rightarrow> nat option" where
  "last_colon [] = None"
| "last_colon (c # s) =
     (case last_colon s of Some i \<Rightarrow> Some (Suc i) | None \<Rightarrow> if c = CHR '':'' then Some 0 else None)"

fun index_char :: "char \<Rightarrow> string \<Rightarrow> nat option" where
  "index_char c [] = None"
| "index_char c (x # s) = (if x = c then Some 0 else map_option Suc (index_char c s))"

definition SplitHostPort :: "string \<Rightarrow> (string \<times> string) option" where
  "SplitHostPort hostport =
     (case last_colon hostport of
        None \<Rightarrow> None
      | Some i \<Rightarrow>
          (if hd hostport = CHR ''['' then
             (case index_char (CHR '']'') hostport of
                None \<Rightarrow> None
              | Some e \<Rightarrow>
                  if e + 1 = i \<and> CHR ''['' \<notin> set (drop 1 hostport) \<and> CHR '']'' \<notin> set (drop (e + 1) hostport)
                  then Some (take (e - 1) (drop 1 hostport), drop (i + 1) hostport)
                  else None)
           else if CHR '':'' \<in> set (take i hostport) \<or> CHR ''['' \<in> set hostport \<or> CHR '']'' \<in> set hostport then None
           else Some (take i hostport, drop (i + 1) hostport)))"

definition JoinHostPort :: "string \<Rightarrow> string \<Rightarrow> string" where
  "JoinHostPort host port = (if CHR '':'' \<in> set host then ''['' @ host @ '']:'' @ port else host @ '':'' @ port)"

definition splitHostPort :: "string \<Rightarrow> dh_error + string \<times> int" where
  "splitHostPort address =
     (case SplitHostPort address of
        None \<Rightarrow> Inl ErrInvalidResponse
      | Some (host, rawPort) \<Rightarrow>
          (case Atoi rawPort of
             None \<Rightarrow> Inl ErrInvalidResponse
           | Some port \<Rightarrow> if port < 1 \<or> port > 65535 then Inl ErrInvalidResponse else Inr (host, port)))"

text \<open>\<open>net.ParseIP\<close>: four decimal octets without leading zeros, or the groups of an IPv6 address.\<close>

definition octet :: "string \<Rightarrow> byte option" where
  "octet p =
     (case digits_val 0 p of
        None \<Rightarrow> None
      | Some n \<Rightarrow> if p = [] \<or> n > 255 \<or> (1 < length p \<and> hd p = CHR ''0'') then None else Some (of_nat n))"

definition parse_ipv4 :: "string \<Rightarrow> byte list option" where
  "parse_ipv4 s =
     (let os = map octet (Split ''.'' s)
      in if length os = 4 \<and> None \<notin> set os then Some (map the os) else None)"

definition hex_val :: "char \<Rightarrow> nat option" where
  "hex_val c =
     (let n = of_char c
      in if 48 \<le> n \<and> n \<le> 57 then Some (n - 48)
         else if 97 \<le> n \<and> n \<le> 102 then Some (n - 87)
         else if 65 \<le> n \<and> n \<le> 70 then Some (n - 55)
         else None)"

fun ipv6_groups :: "nat \<Rightarrow> byte list \<Rightarrow> nat option \<Rightarrow> string \<Rightarrow> (byte list \<times> nat option \<times> string) option" where
  "ipv6_groups 0 ip ellipsis s = Some (ip, ellipsis, s)"
| "ipv6_groups (Suc n) ip ellipsis s =
     (let hex = takeWhile (\<lambda>c. hex_val c \<noteq> None) s;
          rest = dropWhile (\<lambda>c. hex_val c \<noteq> None) s;
          v = foldl (\<lambda>v c. v * 16 + the (hex_val c)) 0 hex;
          ip' = ip @ [of_nat (v div 256), of_nat v]
      in if hex = [] \<or> 4 < length hex then None
         else if rest \<noteq> [] \<and> hd rest = CHR ''.'' then
           (if (ellipsis = None \<and> length ip \<noteq> 12) \<or> 16 < length ip + 4 then None
            else map_option (\<lambda>v4. (ip @ v4, ellipsis, [])) (parse_ipv4 s))
         else if rest = [] then Some (ip', ellipsis, [])
         else if hd rest \<noteq> CHR '':'' \<or> tl rest = [] then None
         else if hd (tl rest) = CHR '':'' then
           (if ellipsis \<noteq> None then None
            else if tl (tl rest) = [] then Some (ip', Some (length ip'), [])
            else ipv6_groups n ip' (Some (length ip')) (tl (tl rest)))
         else ipv6_groups n ip' ellipsis (tl rest))"

definition parse_ipv6 :: "string \<Rightarrow> byte list option" where
  "parse_ipv6 s =
     (let (ellipsis, s') = (if HasPrefix s ''::'' then (Some 0, drop 2 s) else (None, s))
      in if CHR ''%'' \<in> set s then None
         else if ellipsis \<noteq> None \<and> s' = [] then Some (replicate 16 0)
         else case ipv6_groups 8 [] ellipsis s' of
                None \<Rightarrow> None
              | Some (ip, ellipsis, rest) \<Rightarrow>
                  if rest \<noteq> [] then None
                  else if length ip < 16 then
                    map_option (\<lambda>k. take k ip @ replicate (16 - length ip) 0 @ drop k ip) ellipsis
                  else if ellipsis \<noteq> None then None else Some ip)"

definition ParseIP :: "string \<Rightarrow> byte list option" where
  "ParseIP s =
     (case find (\<lambda>c. c = CHR ''.'' \<or> c = CHR '':'' \<or> c = CHR ''%'') s of
        None \<Rightarrow> None
      | Some c \<Rightarrow>
          if c = CHR ''.'' then parse_ipv4 s
          else if c = CHR '':'' then parse_ipv6 s
          else None)"

definition To4 :: "byte list \<Rightarrow> byte list option" where
  "To4 ip =
     (if length ip = 4 then Some ip
      else if length ip = 16 \<and> take 12 ip = v4InV6Prefix then Some (drop 12 ip)
      else None)"

definition ipToBytes :: "string \<Rightarrow> dh_error + byte list" where
  "ipToBytes address =
     (case splitHostPort address of
        Inl e \<Rightarrow> Inl e
      | Inr (host, port) \<Rightarrow>
          (case Option.bind (ParseIP host) To4 of
             None \<Rightarrow> Inl ErrInvalidResponse
           | Some ip \<Rightarrow> Inr (map NOT ([of_int (port div 256), of_int port] @ ip))))"

definition dotted :: "byte list \<Rightarrow> string" where
  "dotted ip = Join ''.'' (map (\<lambda>b. nat_str (unat b)) ip)"

fun hex_nat :: "nat \<Rightarrow> string" where
  "hex_nat n = (if n < 16 then [hex_digit False n] else hex_nat (n div 16) @ [hex_digit False (n mod 16)])"

declare hex_nat.simps [simp del]

text \<open>\<open>net.IP.String\<close>: the longest run of at least two zero groups of an IPv6 address is left out.\<close>

definition zero_run :: "nat list \<Rightarrow> nat \<times> nat" where
  "zero_run gs =
     foldl (\<lambda>(s, e) i. let l = length (takeWhile (\<lambda>g. g = 0) (drop i gs)) in if 2 \<le> l \<and> e - s < l then (i, i + l) else (s, e))
       (0, 0) [0..<length gs]"

definition IP_String :: "byte list \<Rightarrow> string" where
  "IP_String ip =
     (if ip = [] then ''<nil>''
      else case To4 ip of
             Some p \<Rightarrow> dotted p
           | None \<Rightarrow>
               if length ip \<noteq> 16 then ''?'' @ concat (map (hex_byte False) ip)
               else
                 let gs = map (\<lambda>i. unat (ip ! (2 * i)) * 256 + unat (ip ! (2 * i + 1))) [0..<8];
                     (s, e) = zero_run gs
                 in if e = 0 then Join '':'' (map hex_nat gs)
                    else Join '':'' (map hex_nat (take s gs)) @ ''::'' @ Join '':'' (map hex_nat (drop e gs)))"

definition formatIdentify :: "byte list \<Rightarrow> string" where
  "formatIdentify ident = Join '' '' (map (hex_byte False) ident)"

section \<open>Responses are read back\<close>

definition one_line :: "string \<Rightarrow> bool" where
  "one_line s \<longleftrightarrow> CHR 0x0D \<notin> set s \<and> CHR 0x0A \<notin> set s"

text \<open>A response as a server writes it, with either kind of line end.\<close>

definition response_text :: "string \<Rightarrow> string \<Rightarrow> int \<Rightarrow> string \<Rightarrow> (string \<times> string) list \<Rightarrow> string list \<Rightarrow> string" where
  "response_text nl version code status headers body =
     Join nl ((version @ '' '' @ int_str code @ '' '' @ status) # map (\<lambda>(n, v). n @ '': '' @ v) headers @ [[]] @ body)"

lemma digit_char_not:
  assumes "c \<in> set (nat_str n)"
  shows "c \<notin> {CHR 0x0D, CHR 0x0A, CHR '' '', CHR ''.'', CHR '':'', CHR ''['', CHR '']'', CHR ''%'', CHR ''-''}"
proof -
  obtain d where "d < 10" "c = digit_char d" using nat_str_chars(2) assms by blast
  then have "of_char c = 48 + d" by (simp add: digit_char_def)
  then show ?thesis using \<open>d < 10\<close> by auto
qed

lemma int_str_not:
  assumes "c \<in> set (int_str i)"
  shows "c \<notin> {CHR 0x0D, CHR 0x0A, CHR '' ''}"
  using assms digit_char_not [of c] by (auto simp: int_str_def split: if_splits)

lemma normalise_lines:
  assumes "nl = crlf \<or> nl = lf" "\<forall>l \<in> set ls. one_line l"
  shows "ReplaceAll lf crlf (ReplaceAll crlf lf (Join nl ls)) = Join crlf ls"
proof -
  have "ReplaceAll crlf lf (Join nl ls) = Join lf ls"
    using assms(1)
  proof
    assume "nl = crlf"
    then show ?thesis using assms(2) ReplaceAll_Join [of crlf ls lf] by (simp add: crlf_def one_line_def)
  next
    assume nl: "nl = lf"
    have "CHR 0x0D \<notin> set (Join lf ls)" using set_Join [of lf ls] assms(2) by (auto simp: lf_def one_line_def)
    then show ?thesis using nl ReplaceAll_none [of crlf "Join lf ls" lf] by (simp add: crlf_def)
  qed
  then show ?thesis using assms(2) ReplaceAll_Join [of lf ls crlf] by (simp add: lf_def one_line_def)
qed

lemma Cut_blank_line:
  assumes "ls \<noteq> []" "\<forall>l \<in> set ls. one_line l" "\<forall>l \<in> set (tl ls). l \<noteq> []"
  shows "Cut (crlf @ crlf) (Join crlf ls @ crlf @ crlf @ b) = Some (Join crlf ls, b)"
proof -
  have skip: "Cut (crlf @ crlf) (l @ s) = map_option (\<lambda>(a, b). (l @ a, b)) (Cut (crlf @ crlf) s)" if "CHR 0x0D \<notin> set l" for l s
    using that by (induction l) (auto simp: crlf_def HasPrefix_def option.map_comp comp_def case_prod_unfold option.map_ident)
  have step: "Cut (crlf @ crlf) (crlf @ c # s) = map_option (\<lambda>(a, b). (crlf @ a, b)) (Cut (crlf @ crlf) (c # s))" if "c \<noteq> CHR 0x0D" for c s
    using that by (auto simp: crlf_def HasPrefix_def option.map_comp comp_def case_prod_unfold)
  have base: "Cut (crlf @ crlf) (crlf @ crlf @ b) = Some ([], b)" by (simp add: crlf_def HasPrefix_def)
  show ?thesis using assms
  proof (induction ls rule: list_nonempty_induct)
    case (single x)
    then show ?case using base by (simp add: skip one_line_def)
  next
    case (cons x xs)
    then obtain c s where hd: "hd xs = c # s" by (cases "hd xs") auto
    have c: "c \<noteq> CHR 0x0D" using cons hd by (cases xs) (auto simp: one_line_def)
    obtain s' where s': "Join crlf xs @ crlf @ crlf @ b = c # s'"
      using cons(1) hd by (cases xs rule: list.exhaust) (auto simp: neq_Nil_conv, metis Join.simps(2,3) append_Cons list.exhaust)
    have "\<forall>l \<in> set (tl xs). l \<noteq> []" using cons by (cases xs) auto
    then have IH: "Cut (crlf @ crlf) (c # s') = Some (Join crlf xs, b)" using cons s' by simp
    have x: "CHR 0x0D \<notin> set x" using cons.prems by (simp add: one_line_def)
    show ?case using cons(1) skip [OF x, of "crlf @ c # s'"] step [OF c] IH s' by (simp add: Join_Cons)
  qed
qed

lemma parse_headers_text:
  assumes "distinct (map fst hs)" "\<forall>(n, v) \<in> set hs. n \<noteq> [] \<and> CHR '':'' \<notin> set n"
  shows "parse_headers (map (\<lambda>(n, v). n @ '': '' @ v) hs) m = m ++ map_of hs"
  using assms
proof (induction hs arbitrary: m)
  case (Cons h hs)
  obtain n v where h: "h = (n, v)" by fastforce
  have "Cut '': '' (n @ '': '' @ v) = Some (n, v)" using Cons.prems h by (intro Cut_first) auto
  moreover have "m(n \<mapsto> v) ++ map_of hs = m ++ map_of ((n, v) # hs)"
  proof
    have "map_of hs n = None" using Cons.prems(1) h by (simp add: map_of_eq_None_iff)
    then show "(m(n \<mapsto> v) ++ map_of hs) x = (m ++ map_of ((n, v) # hs)) x" for x by (simp add: map_add_def split: option.split)
  qed
  moreover have "parse_headers (map (\<lambda>(n, v). n @ '': '' @ v) hs) (m(n \<mapsto> v)) = m(n \<mapsto> v) ++ map_of hs"
    using Cons by auto
  ultimately show ?case using Cons.prems(2) h by (simp del: map_of.simps map_add_upd)
qed simp

lemma SplitN_parts:
  assumes "sep \<noteq> []" "hd sep \<notin> set a" "hd sep \<notin> set b"
  shows "SplitN sep 3 (a @ sep @ b @ sep @ c) = [a, b, c]"
  using assms Cut_first [of sep a "b @ sep @ c"] Cut_first [of sep b c] by (simp add: numeral_3_eq_3)

lemma response_text_parsed:
  assumes nl: "nl = crlf \<or> nl = lf"
    and version: "one_line version" "CHR '' '' \<notin> set version" and status: "one_line status"
    and code: "- (2 ^ 63) \<le> code" "code < 2 ^ 63"
    and headers: "\<forall>(n, v) \<in> set headers. n \<noteq> [] \<and> CHR '':'' \<notin> set n \<and> one_line n \<and> one_line v" "distinct (map fst headers)"
    and body: "body \<noteq> []" "\<forall>l \<in> set body. one_line l"
  shows "ParseResponse tokens (response_text nl version code status headers body) =
    Inr \<lparr>r_Version = version, r_Code = code, r_Status = status, r_Headers = map_of headers,
      r_Body = (if TrimSpace (Join crlf body) \<noteq> [] then parseXMLBody tokens (Join crlf body) else Map.empty)\<rparr>"
proof -
  let ?line = "version @ '' '' @ int_str code @ '' '' @ status"
  let ?head = "?line # map (\<lambda>(n, v). n @ '': '' @ v) headers"
  have cr: "CHR 0x0D \<notin> set (int_str code)" "CHR 0x0A \<notin> set (int_str code)" "CHR '' '' \<notin> set (int_str code)"
    using int_str_not by blast+
  have head: "\<forall>l \<in> set ?head. one_line l" "\<forall>l \<in> set (tl ?head). l \<noteq> []"
    using version status headers(1) cr by (auto simp: one_line_def)
  have "ReplaceAll lf crlf (ReplaceAll crlf lf (response_text nl version code status headers body)) = Join crlf (?head @ [[]] @ body)"
    unfolding response_text_def append_Cons
    using head(1) body(2) by (intro normalise_lines [OF nl]) (auto simp: one_line_def)
  also have "\<dots> = Join crlf ?head @ crlf @ crlf @ Join crlf body"
    using body(1) Join_append [of ?head "[] # body" crlf] Join_Cons [of body crlf "[]"] by simp
  finally have n: "ReplaceAll lf crlf (ReplaceAll crlf lf (response_text nl version code status headers body)) =
    Join crlf ?head @ crlf @ crlf @ Join crlf body" .
  have "SplitN (crlf @ crlf) 2 (Join crlf ?head @ crlf @ crlf @ Join crlf body) = [Join crlf ?head, Join crlf body]"
    using Cut_blank_line [OF _ head] by (simp add: numeral_2_eq_2)
  moreover have "Split crlf (Join crlf ?head) = ?head"
    using head(1) by (intro Split_Join) (auto simp: crlf_def one_line_def)
  moreover have "SplitN '' '' 3 ?line = [version, int_str code, status]"
    using SplitN_parts [of "'' ''" version "int_str code" status] version(2) cr(3) by simp
  moreover have "parse_headers (map (\<lambda>(n, v). n @ '': '' @ v) headers) Map.empty = map_of headers"
    using parse_headers_text [OF headers(2), of Map.empty] headers(1) by fastforce
  moreover have "Atoi (int_str code) = Some code" using code by (rule Atoi_int_str)
  ultimately show ?thesis by (simp add: ParseResponse_def n Let_def)
qed

section \<open>Addresses are read back\<close>

lemma nat_str_leading: "hd (nat_str n) = CHR ''0'' \<Longrightarrow> n = 0"
proof (induction n rule: nat_str.induct)
  case (1 n)
  show ?case
  proof (cases "n < 10")
    case True
    then have "of_char (hd (nat_str n)) = 48 + n" by (simp add: nat_str.simps [of n] digit_char_def)
    then show ?thesis using 1(2) by simp
  next
    case False
    then have "hd (nat_str n) = hd (nat_str (n div 10))" using nat_str_chars(1) by (simp add: nat_str.simps [of n])
    then have "n div 10 = 0" using 1 False by simp
    then show ?thesis using False by simp
  qed
qed

lemma octet_nat_str: "octet (nat_str (unat b)) = Some b"
proof -
  have "unat b \<le> 255" using byte_lt [of b] by simp
  moreover have "\<not> (1 < length (nat_str (unat b)) \<and> hd (nat_str (unat b)) = CHR ''0'')"
    using nat_str_leading [of "unat b"] by (auto simp: nat_str.simps [of 0])
  ultimately show ?thesis using nat_str_chars(1) by (simp add: octet_def)
qed

lemma dotted_chars: "c \<in> set (dotted ip) \<Longrightarrow> c \<notin> {CHR '':'', CHR ''['', CHR '']'', CHR ''%''}"
  using set_Join [of "''.''" "map (\<lambda>b. nat_str (unat b)) ip"] digit_char_not [of c] by (fastforce simp: dotted_def)

lemma parse_ipv4_dotted: "length ip = 4 \<Longrightarrow> parse_ipv4 (dotted ip) = Some ip"
proof -
  assume "length ip = 4"
  have "Split ''.'' (dotted ip) = map (\<lambda>b. nat_str (unat b)) ip"
    unfolding dotted_def using digit_char_not \<open>length ip = 4\<close> by (intro Split_Join) fastforce+
  then show ?thesis using \<open>length ip = 4\<close> by (auto simp: parse_ipv4_def Let_def octet_nat_str comp_def)
qed

lemma last_colon_snoc: "CHR '':'' \<notin> set b \<Longrightarrow> last_colon (a @ CHR '':'' # b) = Some (length a)"
proof (induction a)
  case Nil
  have "last_colon b = None" using Nil by (induction b) auto
  then show ?case by simp
qed simp

lemma SplitHostPort_plain:
  assumes "host \<noteq> []" "set host \<inter> {CHR '':'', CHR ''['', CHR '']''} = {}" "set port \<inter> {CHR '':'', CHR ''['', CHR '']''} = {}"
  shows "SplitHostPort (host @ '':'' @ port) = Some (host, port)"
proof -
  have "last_colon (host @ CHR '':'' # port) = Some (length host)" using assms(3) by (intro last_colon_snoc) auto
  moreover have "hd (host @ '':'' @ port) \<noteq> CHR ''[''" using assms(1,2) by (cases host) auto
  ultimately show ?thesis using assms(2,3) by (auto simp: SplitHostPort_def)
qed

lemma ipToBytes_dotted:
  assumes "length ip = 4" "1 \<le> port" "port \<le> 65535"
  shows "ipToBytes (dotted ip @ '':'' @ int_str port) = Inr (map NOT ([of_int (port div 256), of_int port] @ ip))"
proof -
  obtain a r where ip: "ip = a # r" "r \<noteq> []" using assms(1) by (cases ip; cases "tl ip") auto
  have d: "dotted ip = nat_str (unat a) @ ''.'' @ Join ''.'' (map (\<lambda>b. nat_str (unat b)) r)"
    using ip by (simp add: dotted_def Join_Cons)
  then have ne: "dotted ip \<noteq> []" by simp
  have p: "int_str port = nat_str (nat port)" using assms(2) by (simp add: int_str_def)
  have "SplitHostPort (dotted ip @ '':'' @ int_str port) = Some (dotted ip, int_str port)"
    using ne dotted_chars digit_char_not unfolding p by (intro SplitHostPort_plain) blast+
  moreover have "Atoi (int_str port) = Some port" using assms by (intro Atoi_int_str) auto
  moreover have "ParseIP (dotted ip) = Some ip"
  proof -
    have "find (\<lambda>c. c = CHR ''.'' \<or> c = CHR '':'' \<or> c = CHR ''%'') (dotted ip) = Some (CHR ''.'')"
    proof -
      have "find (\<lambda>c. c = CHR ''.'' \<or> c = CHR '':'' \<or> c = CHR ''%'') (s @ CHR ''.'' # t) = Some (CHR ''.'')"
        if "set s \<inter> {CHR ''.'', CHR '':'', CHR ''%''} = {}" for s t using that by (induction s) auto
      moreover have "set (nat_str (unat a)) \<inter> {CHR ''.'', CHR '':'', CHR ''%''} = {}" using digit_char_not by blast
      ultimately show ?thesis by (simp add: d)
    qed
    then show ?thesis using parse_ipv4_dotted [OF assms(1)] by (simp add: ParseIP_def)
  qed
  ultimately show ?thesis using assms by (simp add: ipToBytes_def splitHostPort_def To4_def)
qed

lemma utc_date_example: "utc_date (1700000000 * second) = ''2023-11-14T22:13:20Z''"
  by code_simp

section \<open>Properties\<close>

text \<open>
  (C14) Responses are read back: a response written with CRLF or with LF line ends is parsed into its
  version, code, status, headers and body, whatever they are, as long as no part contains a line
  end, the version no blank and no header name a colon.
\<close>

theorem responses_read_back:
  assumes "nl = crlf \<or> nl = lf" "one_line version" "CHR '' '' \<notin> set version" "one_line status"
    "- (2 ^ 63) \<le> code" "code < 2 ^ 63"
    "\<forall>(n, v) \<in> set headers. n \<noteq> [] \<and> CHR '':'' \<notin> set n \<and> one_line n \<and> one_line v" "distinct (map fst headers)"
    "body \<noteq> []" "\<forall>l \<in> set body. one_line l"
  shows "ParseResponse tokens (response_text nl version code status headers body) =
    Inr \<lparr>r_Version = version, r_Code = code, r_Status = status, r_Headers = map_of headers,
      r_Body = (if TrimSpace (Join crlf body) \<noteq> [] then parseXMLBody tokens (Join crlf body) else Map.empty)\<rparr>"
  using assms by (rule response_text_parsed)

theorem responses_read_back_witness:
  "ParseResponse (\<lambda>_. [StartElement ''body'', StartElement ''US'', CharData ''10.0.0.1:8800'', EndElement, EndElement])
     (response_text lf ''HTTP/1.1'' 200 ''OK, found'' [(''CSeq'', ''2'')] [''<body><US>10.0.0.1:8800</US></body>'']) =
   Inr \<lparr>r_Version = ''HTTP/1.1'', r_Code = 200, r_Status = ''OK, found'', r_Headers = [''CSeq'' \<mapsto> ''2''],
     r_Body = [''body/US'' \<mapsto> ''10.0.0.1:8800'']\<rparr>"
proof -
  let ?body = "''<body><US>10.0.0.1:8800</US></body>''"
  have "TrimSpace ?body \<noteq> []" by code_simp
  moreover have "TrimSpace ''10.0.0.1:8800'' = ''10.0.0.1:8800''" by code_simp
  ultimately show ?thesis
    using responses_read_back [of lf "''HTTP/1.1''" "''OK, found''" 200 "[(''CSeq'', ''2'')]" "[?body]"
        "\<lambda>_. [StartElement ''body'', StartElement ''US'', CharData ''10.0.0.1:8800'', EndElement, EndElement]"]
    by (simp add: one_line_def parseXMLBody_def)
qed

text \<open>
  (C19) The address in a hole-punching request: for every IPv4 address and port in range, the text form
  the service sends is encoded as the port and the four octets, each byte inverted.
\<close>

theorem punch_address_encoded:
  assumes "length ip = 4" "1 \<le> port" "port \<le> 65535"
  shows "ipToBytes (dotted ip @ '':'' @ int_str port) = Inr (map NOT ([of_int (port div 256), of_int port] @ ip))"
  using assms by (rule ipToBytes_dotted)

theorem punch_address_encoded_witness:
  "ipToBytes (dotted [192, 168, 1, 20] @ '':'' @ int_str 8800) = Inr [0xdd, 0x9f, 0x3f, 0x57, 0xfe, 0xeb]"
  using punch_address_encoded [of "[192, 168, 1, 20]" 8800] by simp

end
