(* ===== verification/Dh_Crypto.thy ===== *)
theory Dh_Crypto
  imports Dh_Protocol
begin

text \<open>
  Device cryptography (\<^verbatim>\<open>dh/crypto.go\<close>): the device key, the encryption of addresses and the
  authentication fragment. HMAC, PBKDF2 and the output feedback mode are defined here; the hash
  functions \<open>md5\<close> and \<open>sha256\<close> and the block cipher \<open>aes\<close> they are built on are arguments, and so
  is the JSON decoder.
\<close>

section \<open>Building blocks\<close>

text \<open>\<open>crypto/hmac\<close> over a hash with blocks of 64 bytes, and \<open>sha256.Size\<close>.\<close>

definition hmac :: "(byte list \<Rightarrow> byte list) \<Rightarrow> byte list \<Rightarrow> byte list \<Rightarrow> byte list" where
  "hmac hash key msg =
     (let k = (if 64 < length key then hash key else key);
          k = k @ replicate (64 - length k) 0
      in hash (map (\<lambda>b. b XOR 0x5c) k @ hash (map (\<lambda>b. b XOR 0x36) k @ msg)))"

definition sha256_Size :: nat where
  "sha256_Size = 32"

definition xor_bytes :: "byte list \<Rightarrow> byte list \<Rightarrow> byte list" where
  "xor_bytes xs ys = map2 (XOR) xs ys"

text \<open>\<open>aes.NewCipher\<close>, and \<open>cipher.NewOFB\<close> with \<open>XORKeyStream\<close>: the block cipher is iterated on the
  initialisation vector and its outputs are the key stream.\<close>

definition NewCipher :: "(byte list \<Rightarrow> byte list \<Rightarrow> byte list) \<Rightarrow> byte list \<Rightarrow> (byte list \<Rightarrow> byte list) option" where
  "NewCipher aes key = (if length key \<in> {16, 24, 32} then Some (aes key) else None)"

function XORKeyStream :: "(byte list \<Rightarrow> byte list) \<Rightarrow> byte list \<Rightarrow> byte list \<Rightarrow> byte list" where
  "XORKeyStream block iv data =
     (if data = [] then []
      else let out = block iv in xor_bytes (take 16 data) out @ XORKeyStream block out (drop 16 data))"
  by pat_completeness auto
termination
  by (relation "measure (\<lambda>(block, iv, data). length data)") auto

declare XORKeyStream.simps [simp del]

section \<open>Key derivation\<close>

fun pbkdf2_rounds :: "(byte list \<Rightarrow> byte list) \<Rightarrow> nat \<Rightarrow> byte list \<Rightarrow> byte list \<Rightarrow> byte list" where
  "pbkdf2_rounds mac 0 u t = t"
| "pbkdf2_rounds mac (Suc i) u t = (let u = mac u in pbkdf2_rounds mac i u (xor_bytes t u))"

definition pbkdf2_block :: "(byte list \<Rightarrow> byte list) \<Rightarrow> byte list \<Rightarrow> nat \<Rightarrow> nat \<Rightarrow> byte list" where
  "pbkdf2_block mac salt iter block =
     (let u = mac (salt @ be_bytes (of_nat block)) in pbkdf2_rounds mac (iter - 1) u u)"

definition pbkdf2SHA256 :: "(byte list \<Rightarrow> byte list) \<Rightarrow> byte list \<Rightarrow> byte list \<Rightarrow> nat \<Rightarrow> nat \<Rightarrow> byte list" where
  "pbkdf2SHA256 sha256 password salt iter keyLen =
     (let mac = hmac sha256 password;
          numBlocks = (keyLen + sha256_Size - 1) div sha256_Size;
          dk = concat (map (pbkdf2_block mac salt iter) [1..<Suc numBlocks])
      in take keyLen dk)"

section \<open>Device information and addresses\<close>

definition deviceInfoKey :: "byte list" where
  "deviceInfoKey = string_bytes ''kRjmsUB&ezmdGLL67H#$ojw@XflcaIaf''"

definition deviceInfoIV :: "byte list" where
  "deviceInfoIV = string_bytes ''MydvJw*Iw1w&i^kk''"

definition ipEncryptIV :: "byte list" where
  "ipEncryptIV = string_bytes ''2z52*lk9o6HRyJrf''"

record DeviceInfo =
  di_HTTPPort :: int
  di_PrivPort :: int
  di_RandSalt :: string
  di_RTSPPort :: int
  di_TLSPrivPort :: int

text \<open>The primitives the operations below are given.\<close>

record primitives =
  pr_md5 :: "byte list \<Rightarrow> byte list"
  pr_sha1 :: "byte list \<Rightarrow> byte list"
  pr_sha256 :: "byte list \<Rightarrow> byte list"
  pr_aes :: "byte list \<Rightarrow> byte list \<Rightarrow> byte list"
  pr_json :: "byte list \<Rightarrow> DeviceInfo option"
  pr_xml :: "string \<Rightarrow> xml_token list"

definition DecryptDeviceInfo :: "primitives \<Rightarrow> string \<Rightarrow> dh_error + DeviceInfo" where
  "DecryptDeviceInfo pr infoB64 =
     (case base64_decode infoB64 of
        None \<Rightarrow> Inl (ErrOther ''failed to decode device info'')
      | Some cipherText \<Rightarrow>
          (case NewCipher (pr_aes pr) deviceInfoKey of
             None \<Rightarrow> Inl (ErrOther ''failed to create AES cipher'')
           | Some block \<Rightarrow>
               (case pr_json pr (XORKeyStream block deviceInfoIV cipherText) of
                  None \<Rightarrow> Inl (ErrOther ''failed to parse device info JSON'')
                | Some info \<Rightarrow> Inr info)))"

definition GetDeviceKey :: "primitives \<Rightarrow> string \<Rightarrow> string \<Rightarrow> string \<Rightarrow> byte list" where
  "GetDeviceKey pr username password randsalt =
     (let raw = username @ '':Login to '' @ randsalt @ '':'' @ password;
          hash = pr_md5 pr (string_bytes raw)
      in string_bytes (concat (map (hex_byte True) hash)))"

definition GetDeviceNonce :: "byte list \<Rightarrow> int" where
  "GetDeviceNonce b = int (unat (be_word (b ! 0) (b ! 1) (b ! 2) (b ! 3)))"

definition EncryptAddr :: "primitives \<Rightarrow> byte list \<Rightarrow> int \<Rightarrow> string \<Rightarrow> dh_error + string" where
  "EncryptAddr pr key nonce data =
     (let salt = string_bytes (int_str nonce);
          dk = pbkdf2SHA256 (pr_sha256 pr) key salt 20000 32
      in case NewCipher (pr_aes pr) dk of
           None \<Rightarrow> Inl (ErrOther ''invalid key size'')
         | Some block \<Rightarrow> Inr (base64_encode (XORKeyStream block ipEncryptIV (string_bytes data))))"

definition DecryptAddr :: "primitives \<Rightarrow> byte list \<Rightarrow> int \<Rightarrow> string \<Rightarrow> dh_error + string" where
  "DecryptAddr pr key nonce data =
     (case base64_decode data of
        None \<Rightarrow> Inl (ErrOther ''illegal base64 data'')
      | Some cipherText \<Rightarrow>
          (let salt = string_bytes (int_str nonce);
               dk = pbkdf2SHA256 (pr_sha256 pr) key salt 20000 32
           in case NewCipher (pr_aes pr) dk of
                None \<Rightarrow> Inl (ErrOther ''invalid key size'')
              | Some block \<Rightarrow> Inr (bytes_string (XORKeyStream block ipEncryptIV cipherText))))"

definition GetDeviceAuth :: "primitives \<Rightarrow> int \<Rightarrow> string \<Rightarrow> byte list \<Rightarrow> int \<Rightarrow> string \<Rightarrow> string \<Rightarrow> string" where
  "GetDeviceAuth pr now username key nonce randsalt payload =
     (let curdate = int_str (now div second);
          message = int_str nonce @ curdate @ payload;
          auth = base64_encode (hmac (pr_sha256 pr) key (string_bytes message))
      in ''<CreateDate>'' @ curdate @ ''</CreateDate>'' @
         ''<DevAuth>'' @ auth @ ''</DevAuth>'' @
         ''<Nonce>'' @ int_str nonce @ ''</Nonce>'' @
         ''<RandSalt>'' @ randsalt @ ''</RandSalt>'' @
         ''<UserName>'' @ username @ ''</UserName>'')"

section \<open>The derived key\<close>

lemma length_xor_bytes [simp]: "length (xor_bytes xs ys) = min (length xs) (length ys)"
  by (simp add: xor_bytes_def)

lemma nth_xor_bytes: "i < length xs \<Longrightarrow> i < length ys \<Longrightarrow> xor_bytes xs ys ! i = xs ! i XOR ys ! i"
  by (simp add: xor_bytes_def)

lemma length_hmac: "(\<And>x. length (hash x) = n) \<Longrightarrow> length (hmac hash key msg) = n"
  by (simp add: hmac_def Let_def)

lemma rounds_nth:
  assumes "\<And>x. length (mac x) = n" "length t = n" "k < n"
  shows "length (pbkdf2_rounds mac i u t) = n \<and>
    pbkdf2_rounds mac i u t ! k = foldl (XOR) (t ! k) (map (\<lambda>j. (mac ^^ j) u ! k) [1..<Suc i])"
  using assms(2)
proof (induction i arbitrary: u t)
  case (Suc i)
  let ?t = "xor_bytes t (mac u)"
  have t: "length ?t = n" "?t ! k = t ! k XOR mac u ! k" using assms Suc.prems by (simp_all add: nth_xor_bytes)
  have "map (\<lambda>j. (mac ^^ j) u ! k) [1..<Suc (Suc i)] = mac u ! k # map (\<lambda>j. (mac ^^ j) u ! k) [2..<Suc (Suc i)]"
    by (simp add: upt_conv_Cons numeral_2_eq_2 del: upt_Suc)
  moreover have "map (\<lambda>j. (mac ^^ j) u ! k) [2..<Suc (Suc i)] = map (\<lambda>j. (mac ^^ j) (mac u) ! k) [1..<Suc i]"
    by (rule nth_equalityI) (simp_all add: numeral_2_eq_2 funpow_swap1 del: upt_Suc)
  ultimately show ?case using Suc.IH [OF t(1), of "mac u"] t(2) by (simp add: Let_def del: upt_Suc)
qed simp

lemma foldl_xor: "foldl (XOR) (a::byte) xs = a XOR foldr (XOR) xs 0"
  by (induction xs arbitrary: a) (simp_all add: xor.assoc)

lemma block_nth:
  assumes "\<And>x. length (mac x) = n" "k < n" "1 \<le> iter"
  shows "length (pbkdf2_block mac salt iter b) = n \<and>
    pbkdf2_block mac salt iter b ! k =
      foldr (XOR) (map (\<lambda>j. (mac ^^ j) (mac (salt @ be_bytes (of_nat b))) ! k) [0..<iter]) 0"
proof -
  let ?u = "mac (salt @ be_bytes (of_nat b))"
  have "[0..<iter] = 0 # [1..<Suc (iter - 1)]" using assms(3) by (simp add: upt_conv_Cons)
  then show ?thesis
    using rounds_nth [of mac n ?u k "iter - 1" ?u] assms(1,2)
    by (simp add: pbkdf2_block_def Let_def foldl_xor del: upt_Suc)
qed

lemma concat_blocks_nth:
  assumes "\<And>b. length (f b) = n" "0 < n" "k < m * n"
  shows "concat (map f [a..<a + m]) ! k = f (a + k div n) ! (k mod n)"
  using assms(3)
proof (induction m arbitrary: a k)
  case (Suc m)
  have "[a..<a + Suc m] = a # [Suc a..<Suc a + m]" by (simp add: upt_conv_Cons del: upt_Suc)
  then have c: "concat (map f [a..<a + Suc m]) = f a @ concat (map f [Suc a..<Suc a + m])" by simp
  show ?case
  proof (cases "k < n")
    case True
    then show ?thesis unfolding c using assms(1) by (simp add: nth_append)
  next
    case False
    then have "k - n < m * n" using Suc.prems by simp
    from Suc.IH [OF this, of "Suc a"] have "concat (map f [Suc a..<Suc a + m]) ! (k - n) = f (Suc a + (k - n) div n) ! ((k - n) mod n)" .
    moreover have "Suc a + (k - n) div n = a + k div n" "(k - n) mod n = k mod n"
      using False assms(2) by (simp_all add: le_div_geq le_mod_geq)
    ultimately show ?thesis unfolding c using False assms(1) by (simp only: nth_append if_False)
  qed
qed simp

lemma length_concat_blocks: "(\<And>b. length (f b) = n) \<Longrightarrow> length (concat (map f bs)) = length bs * n"
  by (induction bs) simp_all

lemma pbkdf2_nth:
  assumes "\<And>x. length (hash x) = 32" "1 \<le> iter" and mac_def: "mac = hmac hash password"
  shows "length (pbkdf2SHA256 hash password salt iter keyLen) = keyLen"
    and "k < keyLen \<Longrightarrow> pbkdf2SHA256 hash password salt iter keyLen ! k =
      foldr (XOR) (map (\<lambda>j. (mac ^^ j) (mac (salt @ be_bytes (of_nat (k div 32 + 1)))) ! (k mod 32)) [0..<iter]) 0"
proof -
  let ?m = "(keyLen + 32 - 1) div 32"
  let ?dk = "concat (map (pbkdf2_block mac salt iter) [1..<1 + ?m])"
  have mac: "length (mac x) = 32" for x using length_hmac [OF assms(1)] by (simp add: mac_def)
  have len: "length (pbkdf2_block mac salt iter b) = 32" for b using block_nth [of mac 32 0 iter salt b] mac assms(2) by simp
  have le: "keyLen \<le> ?m * 32" by presburger
  have dk: "pbkdf2SHA256 hash password salt iter keyLen = take keyLen ?dk"
    by (simp add: pbkdf2SHA256_def Let_def sha256_Size_def mac_def del: upt_Suc)
  have "length ?dk = ?m * 32" using length_concat_blocks [where f = "pbkdf2_block mac salt iter" and bs = "[1..<1 + ?m]", OF len] by simp
  then show "length (pbkdf2SHA256 hash password salt iter keyLen) = keyLen" using le by (simp add: dk)
  assume k: "k < keyLen"
  then have "k < ?m * 32" using le by simp
  from concat_blocks_nth [where f = "pbkdf2_block mac salt iter" and a = 1, OF len _ this] have "?dk ! k = pbkdf2_block mac salt iter (1 + k div 32) ! (k mod 32)" by simp
  then show "pbkdf2SHA256 hash password salt iter keyLen ! k =
      foldr (XOR) (map (\<lambda>j. (mac ^^ j) (mac (salt @ be_bytes (of_nat (k div 32 + 1)))) ! (k mod 32)) [0..<iter]) 0"
    using k block_nth [of mac 32 "k mod 32" iter salt "1 + k div 32"] mac assms(2) by (simp add: dk add.commute)
qed

lemma length_base64: "length (base64_encode bs) = 4 * ((length bs + 2) div 3)"
  by (induction bs rule: base64_encode.induct) (simp_all add: Let_def, presburger)

section \<open>The key stream\<close>

lemma length_XORKeyStream:
  "(\<And>x. length (block x) = 16) \<Longrightarrow> length (XORKeyStream block iv data) = length data"
proof (induction block iv data rule: XORKeyStream.induct)
  case (1 block iv data)
  then show ?case using XORKeyStream.simps [of block iv data] by (cases "data = []") (simp_all add: Let_def)
qed

lemma xor_bytes_twice: "length xs \<le> length ys \<Longrightarrow> xor_bytes (xor_bytes xs ys) ys = xs"
  by (rule nth_equalityI) (simp_all add: nth_xor_bytes xor.assoc)

lemma XORKeyStream_twice:
  "(\<And>x. length (block x) = 16) \<Longrightarrow> XORKeyStream block iv (XORKeyStream block iv data) = data"
proof (induction block iv data rule: XORKeyStream.induct)
  case (1 block iv data)
  show ?case
  proof (cases "data = []")
    case True
    then show ?thesis using XORKeyStream.simps [of block iv "[]"] by simp
  next
    case False
    let ?x = "xor_bytes (take 16 data) (block iv)" and ?r = "XORKeyStream block (block iv) (drop 16 data)"
    have e: "XORKeyStream block iv data = ?x @ ?r" using False XORKeyStream.simps [of block iv data] by (simp add: Let_def)
    have x: "length ?x = min 16 (length data)" using 1(2) by simp
    have ne: "?x @ ?r \<noteq> []" using False x by (cases ?x) (auto simp: min_def split: if_splits)
    have r: "length ?r = length data - 16" using length_XORKeyStream [OF 1(2)] by simp
    have "length ?x = 16 \<or> length ?x \<le> 16 \<and> ?r = []"
    proof (cases "16 \<le> length data")
      case True
      then show ?thesis using x by simp
    next
      case False
      then have "length ?r = 0" using r by simp
      then show ?thesis using x by simp
    qed
    then have td: "take 16 (?x @ ?r) = ?x" "drop 16 (?x @ ?r) = ?r" by fastforce+
    have "XORKeyStream block iv (?x @ ?r) = xor_bytes ?x (block iv) @ XORKeyStream block (block iv) ?r"
      unfolding XORKeyStream.simps [of block iv "?x @ ?r"] Let_def td using ne by (simp only: if_False)
    also have "xor_bytes ?x (block iv) = take 16 data" using 1(2) by (intro xor_bytes_twice) simp
    also have "XORKeyStream block (block iv) ?r = drop 16 data" by (rule 1(1) [OF False refl 1(2)])
    finally show ?thesis unfolding e append_take_drop_id .
  qed
qed

section \<open>Properties\<close>

text \<open>
  (C18) The derived key is that of PBKDF2 (RFC 8018): for a hash of 32 bytes it has the requested
  length, and its byte \<open>k\<close> is byte \<open>k mod 32\<close> of the exclusive or of the first \<open>iter\<close> iterates of HMAC
  from the salt followed by the big-endian number of the block.
\<close>

theorem key_derivation:
  assumes "\<And>x. length (hash x) = 32" "1 \<le> iter"
  shows "length (pbkdf2SHA256 hash password salt iter keyLen) = keyLen \<and>
    (\<forall>k < keyLen. pbkdf2SHA256 hash password salt iter keyLen ! k =
       foldr (XOR) (map (\<lambda>j. (hmac hash password ^^ Suc j) (salt @ be_bytes (of_nat (k div 32 + 1))) ! (k mod 32)) [0..<iter]) 0)"
  using pbkdf2_nth [where hash = hash, OF assms refl] by (simp add: funpow_swap1)

theorem key_derivation_witness:
  "length (pbkdf2SHA256 (\<lambda>x. take 32 (x @ replicate 32 7)) [1, 2] [3] 2 40) = 40 \<and>
   pbkdf2SHA256 (\<lambda>x. take 32 (x @ replicate 32 7)) [1, 2] [3] 2 40 ! 33 =
     hmac (\<lambda>x. take 32 (x @ replicate 32 7)) [1, 2] ([3] @ be_bytes 2) ! 1 XOR
     hmac (\<lambda>x. take 32 (x @ replicate 32 7)) [1, 2] (hmac (\<lambda>x. take 32 (x @ replicate 32 7)) [1, 2] ([3] @ be_bytes 2)) ! 1"
proof -
  have "length (take 32 (x @ replicate 32 (7 :: byte))) = 32" for x by simp
  from key_derivation [where hash = "\<lambda>x. take 32 (x @ replicate 32 7)" and iter = 2 and password = "[1, 2]" and salt = "[3]"
      and keyLen = 40, OF this]
  show ?thesis by (simp add: upt_rec)
qed

text \<open>
  (C17) Addresses survive encryption: whatever the key, the nonce and the address, with a hash of 32
  bytes and a cipher of 16-byte blocks the encryption succeeds, its text has the length of the
  base64 form, and decrypting it under the same key and nonce gives the address back.
\<close>

theorem address_roundtrip:
  assumes "\<And>x. length (pr_sha256 pr x) = 32" "\<And>k x. length (pr_aes pr k x) = 16"
  shows "\<exists>c. EncryptAddr pr key nonce addr = Inr c \<and> length c = 4 * ((length addr + 2) div 3) \<and>
    DecryptAddr pr key nonce c = Inr addr"
proof -
  define dk where "dk = pbkdf2SHA256 (pr_sha256 pr) key (string_bytes (int_str nonce)) 20000 32"
  have "length dk = 32" unfolding dk_def by (rule pbkdf2_nth(1) [OF assms(1) _ refl]) simp
  then have cipher: "NewCipher (pr_aes pr) dk = Some (pr_aes pr dk)" by (simp add: NewCipher_def)
  define ct where "ct = XORKeyStream (pr_aes pr dk) ipEncryptIV (string_bytes addr)"
  have len: "length ct = length addr" unfolding ct_def using length_XORKeyStream [of "pr_aes pr dk"] assms(2) by simp
  have "EncryptAddr pr key nonce addr = Inr (base64_encode ct)"
    by (simp add: EncryptAddr_def Let_def cipher ct_def flip: dk_def)
  moreover have "DecryptAddr pr key nonce (base64_encode ct) = Inr addr"
    using XORKeyStream_twice [of "pr_aes pr dk"] assms(2)
    by (simp add: DecryptAddr_def Let_def base64_roundtrip cipher ct_def flip: dk_def)
  ultimately show ?thesis using len by (simp add: length_base64)
qed

theorem address_roundtrip_witness:
  "\<exists>pr c. EncryptAddr pr [1, 2, 3] 77 ''127.0.0.1:40000'' = Inr c \<and> length c = 20 \<and>
     DecryptAddr pr [1, 2, 3] 77 c = Inr ''127.0.0.1:40000''"
proof -
  define pr where "pr = \<lparr>pr_md5 = id, pr_sha1 = id, pr_sha256 = (\<lambda>x. take 32 (x @ replicate 32 7)),
    pr_aes = (\<lambda>k x. take 16 (x @ k @ replicate 16 9)), pr_json = (\<lambda>_. None), pr_xml = (\<lambda>_. [])\<rparr>"
  have "length (pr_sha256 pr x) = 32" "length (pr_aes pr k x) = 16" for k x by (simp_all add: pr_def)
  from address_roundtrip [of pr, OF this, of "[1, 2, 3]" 77 "''127.0.0.1:40000''"] show ?thesis by (intro exI [of _ pr]) simp
qed

end
