(* ===== verification/Dh_Handshake.thy ===== *)
theory Dh_Handshake
  imports Ptcp_Session Dh_Crypto
begin

text \<open>
  The handshake (\<^verbatim>\<open>dh/handshake.go\<close>): the conversation with the cloud service, the hole punching and
  the authentication towards the device. Everything outside the program is in \<open>environment\<close>: the
  clock, the random source, name resolution, the sockets the system hands out and, in them, every
  datagram and every fault to come. The statements below quantify over it.
\<close>

section \<open>State and sequencing\<close>

text \<open>
  The functions of the environment take the number of the call, so that every reading of the clock,
  every random byte and every resolution may be different.
\<close>

record environment =
  env_prims :: primitives
  env_now :: "nat \<Rightarrow> int"
  env_random :: "nat \<Rightarrow> nat \<Rightarrow> byte"
  env_listen :: "nat \<Rightarrow> net_error + socket \<times> UDPAddr"
  env_resolve :: "nat \<Rightarrow> string \<Rightarrow> int \<Rightarrow> net_error + UDPAddr"
  env_resolveAddr :: "nat \<Rightarrow> string \<Rightarrow> net_error + UDPAddr"

text \<open>
  Clients are pointers into \<open>hs_clients\<close>. \<open>hs_main\<close>, \<open>hs_p2p\<close> and \<open>hs_device\<close> are the three variables
  the deferred cleanup looks at.
\<close>

record hs_state =
  hs_env :: environment
  hs_tick :: nat
  hs_clients :: "nat \<Rightarrow> UDPClient"
  hs_next :: nat
  hs_main :: "nat option"
  hs_p2p :: "nat option"
  hs_device :: "nat option"

type_synonym 'a hs = "hs_state \<Rightarrow> (dh_error + 'a) \<times> hs_state"

definition hs_return :: "'a \<Rightarrow> 'a hs" where
  "hs_return x s = (Inr x, s)"

definition hs_fail :: "dh_error \<Rightarrow> 'a hs" where
  "hs_fail e s = (Inl e, s)"

definition hs_bind :: "'a hs \<Rightarrow> ('a \<Rightarrow> 'b hs) \<Rightarrow> 'b hs" where
  "hs_bind m k s = (case m s of (Inl e, s) \<Rightarrow> (Inl e, s) | (Inr x, s) \<Rightarrow> k x s)"

text \<open>The error of a call as a value, for the places where the code goes on after it.\<close>

definition hs_try :: "'a hs \<Rightarrow> (dh_error + 'a) hs" where
  "hs_try m s = (let (r, s) = m s in (Inr r, s))"

definition hs_lift :: "dh_error + 'a \<Rightarrow> 'a hs" where
  "hs_lift r s = (r, s)"

definition hs_call :: "(environment \<Rightarrow> nat \<Rightarrow> 'a hs) \<Rightarrow> 'a hs" where
  "hs_call f s = f (hs_env s) (hs_tick s) (s\<lparr>hs_tick := Suc (hs_tick s)\<rparr>)"

definition hs_client :: "nat \<Rightarrow> (UDPClient \<Rightarrow> (dh_error + 'a) \<times> UDPClient) \<Rightarrow> 'a hs" where
  "hs_client c f s = (let (r, cl) = f (hs_clients s c) in (r, s\<lparr>hs_clients := (hs_clients s)(c := cl)\<rparr>))"

fun err_result :: "net_error option \<times> UDPClient \<Rightarrow> (dh_error + unit) \<times> UDPClient" where
  "err_result (None, cl) = (Inr (), cl)"
| "err_result (Some e, cl) = (Inl (ErrNet e), cl)"

fun net_result :: "(net_error + 'a) \<times> UDPClient \<Rightarrow> (dh_error + 'a) \<times> UDPClient" where
  "net_result (Inr x, cl) = (Inr x, cl)"
| "net_result (Inl e, cl) = (Inl (ErrNet e), cl)"

section \<open>Calls on a client\<close>

definition hs_now :: "int hs" where
  "hs_now = hs_call (\<lambda>env t. hs_return (env_now env t))"

text \<open>
  \<open>RandomBytes\<close> yields the bytes the environment gives. Its panic, when \<^verbatim>\<open>crypto/rand\<close> fails, is not
  modelled: the environment always has random bytes.
\<close>

definition RandomBytes :: "nat \<Rightarrow> byte list hs" where
  "RandomBytes n = hs_call (\<lambda>env t. hs_return (map (env_random env t) [0..<n]))"

definition hs_connect :: "nat \<Rightarrow> string \<Rightarrow> int \<Rightarrow> unit hs" where
  "hs_connect c host port =
     hs_call (\<lambda>env t. hs_client c (\<lambda>cl. err_result (UDP_Connect (env_resolve env t) cl host port)))"

definition hs_send :: "nat \<Rightarrow> byte list \<Rightarrow> unit hs" where
  "hs_send c data = hs_client c (\<lambda>cl. err_result (UDP_Send cl data))"

definition hs_send_to :: "nat \<Rightarrow> byte list \<Rightarrow> UDPAddr \<Rightarrow> unit hs" where
  "hs_send_to c data addr = hs_client c (\<lambda>cl. err_result (UDP_SendTo cl data addr))"

definition hs_request :: "nat \<Rightarrow> string \<Rightarrow> string \<Rightarrow> unit hs" where
  "hs_request c path body =
     hs_bind (RandomBytes 4) (\<lambda>nonce.
     hs_call (\<lambda>env t. hs_client c (\<lambda>cl. err_result (UDP_Request (pr_sha1 (env_prims env)) nonce (env_now env t) cl path body))))"

definition hs_read :: "nat \<Rightarrow> Response hs" where
  "hs_read c = hs_call (\<lambda>env t. hs_client c (\<lambda>cl. UDP_Read (pr_xml (env_prims env)) (env_now env t) cl))"

definition hs_read_raw :: "nat \<Rightarrow> duration \<Rightarrow> byte list hs" where
  "hs_read_raw c timeout = hs_call (\<lambda>env t. hs_client c (\<lambda>cl. net_result (UDP_ReadRaw (env_now env t) cl timeout)))"

definition hs_recv_from :: "nat \<Rightarrow> duration \<Rightarrow> (byte list \<times> UDPAddr) hs" where
  "hs_recv_from c timeout = hs_call (\<lambda>env t. hs_client c (\<lambda>cl. net_result (UDP_RecvFrom (env_now env t) cl timeout)))"

text \<open>\<open>NewUDPClientPort\<close> together with the assignment of its result to one of the three variables.\<close>

definition hs_open :: "(nat option \<Rightarrow> hs_state \<Rightarrow> hs_state) \<Rightarrow> duration \<Rightarrow> int \<Rightarrow> nat hs" where
  "hs_open assign timeout localPort =
     hs_call (\<lambda>env t s.
       case NewUDPClientPort (env_listen env t) timeout localPort of
         Inl e \<Rightarrow> (Inl (ErrNet e), assign None s)
       | Inr cl \<Rightarrow>
           (Inr (hs_next s),
            assign (Some (hs_next s)) (s\<lparr>hs_clients := (hs_clients s)(hs_next s := cl), hs_next := Suc (hs_next s)\<rparr>)))"

abbreviation assign_main :: "nat option \<Rightarrow> hs_state \<Rightarrow> hs_state" where
  "assign_main v s \<equiv> s\<lparr>hs_main := v\<rparr>"

abbreviation assign_p2p :: "nat option \<Rightarrow> hs_state \<Rightarrow> hs_state" where
  "assign_p2p v s \<equiv> s\<lparr>hs_p2p := v\<rparr>"

abbreviation assign_device :: "nat option \<Rightarrow> hs_state \<Rightarrow> hs_state" where
  "assign_device v s \<equiv> s\<lparr>hs_device := v\<rparr>"

definition close_socket :: "nat \<Rightarrow> hs_state \<Rightarrow> hs_state" where
  "close_socket c s = s\<lparr>hs_clients := (hs_clients s)(c := snd (UDP_Close (hs_clients s c)))\<rparr>"

section \<open>Towards the device\<close>

definition stun_request :: "byte list \<Rightarrow> byte list \<Rightarrow> byte list \<Rightarrow> byte list \<Rightarrow> byte list" where
  "stun_request cookie transID invertedCID encodedAddr =
     [0xff, 0xfe, 0xff, 0xe7] @ cookie @ transID @ [0x7f, 0xd5, 0xff, 0xf7] @ invertedCID @
     [0xff, 0xfb, 0xff, 0xf7, 0xff, 0xfe] @ encodedAddr"

definition stun_confirm :: "byte list \<Rightarrow> byte list \<Rightarrow> byte list \<Rightarrow> byte list" where
  "stun_confirm cookie rtransID invertedCID =
     [0xfe, 0xfe, 0xff, 0xf3] @ cookie @ rtransID @ [0x7f, 0xd6, 0xff, 0xf7] @ invertedCID"

lemma RecvFrom_shortens:
  "UDP_RecvFrom now cl timeout = (Inr x, cl') \<Longrightarrow> length (k_in (u_conn cl')) < length (k_in (u_conn cl))"
  by (auto simp: UDP_RecvFrom_def SetReadDeadline_def ReadFromUDP_def Let_def
      split: if_splits list.splits sum.splits prod.splits)

text \<open>Waiting for the first answer from the public or the local address of the device.\<close>

function punch_wait :: "nat \<Rightarrow> UDPAddr option \<Rightarrow> int \<Rightarrow> (byte list \<times> UDPAddr) hs" where
  "punch_wait c localAddr deadline s =
     (case hs_now s of
        (Inl e, s) \<Rightarrow> (Inl e, s)
      | (Inr now, s) \<Rightarrow>
          if deadline - now \<le> 0 then (Inl ErrTimeout, s)
          else case hs_recv_from c (deadline - now) s of
                 (Inl e, s) \<Rightarrow> (Inl ErrTimeout, s)
               | (Inr (resp, respAddr), s) \<Rightarrow>
                   if sameUDPAddr (Some respAddr) (u_raddr (hs_clients s c)) \<or> sameUDPAddr (Some respAddr) localAddr
                   then (Inr (resp, respAddr), s)
                   else punch_wait c localAddr deadline s)"
  by pat_completeness auto

lemma recv_from_shortens:
  "hs_recv_from c timeout s = (Inr x, s') \<Longrightarrow> length (k_in (u_conn (hs_clients s' c))) < length (k_in (u_conn (hs_clients s c)))"
proof -
  assume a: "hs_recv_from c timeout s = (Inr x, s')"
  obtain r cl where r: "UDP_RecvFrom (env_now (hs_env s) (hs_tick s)) (hs_clients s c) timeout = (r, cl)" by fastforce
  then have "r = Inr x" "hs_clients s' c = cl" using a by (cases r; auto simp: hs_recv_from_def hs_call_def hs_client_def)+
  then show ?thesis using r RecvFrom_shortens by blast
qed

lemma hs_now_frame: "hs_now s = (r, s') \<Longrightarrow> hs_clients s' = hs_clients s"
  by (auto simp: hs_now_def hs_call_def hs_return_def)

termination punch_wait
proof (relation "measure (\<lambda>(c, l, d, s). length (k_in (u_conn (hs_clients s c))))", goal_cases)
  case (2 c l d s r s1 now r' s2 x resp addr)
  then have "hs_clients s1 = hs_clients s" "hs_recv_from c (d - now) s1 = (Inr x, s2)"
    using hs_now_frame [of s r s1] by (simp_all add: eq_commute)
  then show ?case using recv_from_shortens [of c "d - now" s1 x s2] by simp
qed simp

declare punch_wait.simps [simp del]

fun stun_drain :: "nat \<Rightarrow> nat \<Rightarrow> unit hs" where
  "stun_drain c 0 = hs_return ()"
| "stun_drain c (Suc i) =
     hs_bind (hs_try (hs_read_raw c (500 * millisecond))) (\<lambda>r.
       case r of Inl _ \<Rightarrow> hs_return () | Inr _ \<Rightarrow> stun_drain c i)"

definition accepts_auth :: "Packet \<Rightarrow> bool" where
  "accepts_auth p \<longleftrightarrow> b_Type (p_Body p) = BodyTypeCommand \<and> b_Command (p_Body p) \<noteq> [] \<and> hd (b_Command (p_Body p)) = 0x1A"

fun auth_wait :: "nat \<Rightarrow> duration \<Rightarrow> nat \<Rightarrow> Session \<Rightarrow> (bool \<times> Session) hs" where
  "auth_wait c timeout 0 session = hs_return (False, session)"
| "auth_wait c timeout (Suc i) session =
     hs_bind (hs_try (hs_read_raw c timeout)) (\<lambda>r.
       case r of
         Inl _ \<Rightarrow> auth_wait c timeout i session
       | Inr authResp \<Rightarrow>
           (case ParsePacket authResp of
              Inl _ \<Rightarrow> auth_wait c timeout i session
            | Inr p \<Rightarrow>
                (let session = snd (Session_Recv session p)
                 in if accepts_auth p then hs_return (True, session) else auth_wait c timeout i session)))"

fun final_drain :: "nat \<Rightarrow> nat \<Rightarrow> Session \<Rightarrow> Session hs" where
  "final_drain c 0 session = hs_return session"
| "final_drain c (Suc i) session =
     hs_bind (hs_try (hs_read_raw c (500 * millisecond))) (\<lambda>r.
       case r of
         Inl _ \<Rightarrow> hs_return session
       | Inr extra \<Rightarrow>
           final_drain c i (case ParsePacket extra of Inl _ \<Rightarrow> session | Inr p \<Rightarrow> snd (Session_Recv session p)))"

definition command :: "byte \<Rightarrow> byte list" where
  "command b = b # replicate 11 0"

text \<open>The exchange of hole-punching messages; the client goes on with the address that answered.\<close>

definition punch_confirm :: "nat \<Rightarrow> byte list \<Rightarrow> byte list \<Rightarrow> byte list \<Rightarrow> UDPAddr \<Rightarrow> unit hs" where
  "punch_confirm c cookie invertedCID resp respAddr =
     hs_bind (hs_try (hs_connect c (IP_String (a_IP respAddr)) (a_Port respAddr))) (\<lambda>_.
     if length resp < 20 then hs_fail ErrInvalidResponse
     else
       hs_bind (hs_send c (stun_confirm cookie (take 12 (drop 8 resp)) invertedCID)) (\<lambda>_.
       stun_drain c 5))"

definition punch_hole :: "nat \<Rightarrow> byte list \<Rightarrow> string \<Rightarrow> string \<Rightarrow> unit hs" where
  "punch_hole c cid devicePubAddr deviceLAddr =
     (let invertedCID = map NOT cid in
      hs_bind (RandomBytes 4) (\<lambda>cookie.
      hs_bind (RandomBytes 12) (\<lambda>transID.
      hs_bind (hs_lift (ipToBytes devicePubAddr)) (\<lambda>encodedAddr.
      let data = stun_request cookie transID invertedCID encodedAddr in
      hs_bind (hs_send c data) (\<lambda>_.
      hs_bind
        (if deviceLAddr \<noteq> devicePubAddr \<and> deviceLAddr \<noteq> [] then
           hs_call (\<lambda>env t.
             case env_resolveAddr env t deviceLAddr of
               Inl _ \<Rightarrow> hs_return None
             | Inr localAddr \<Rightarrow> hs_bind (hs_try (hs_send_to c data localAddr)) (\<lambda>_. hs_return (Some localAddr)))
         else hs_return None) (\<lambda>localAddr.
      hs_bind hs_now (\<lambda>now.
      hs_bind (punch_wait c localAddr (now + 8 * second)) (\<lambda>(resp, respAddr).
      punch_confirm c cookie invertedCID resp respAddr))))))))"

text \<open>The PTCP session and the authentication with the sign.\<close>

definition authenticate :: "nat \<Rightarrow> byte list \<Rightarrow> duration \<Rightarrow> Session hs" where
  "authenticate c sign timeout =
     (let (syncPacket, session) = Session_Send NewSession NewSyncBody in
      hs_bind (hs_send c (Packet_Serialize syncPacket)) (\<lambda>_.
      hs_bind (hs_read_raw c timeout) (\<lambda>syncResp.
      case ParsePacket syncResp of
        Inl e \<Rightarrow> hs_fail (ErrPacket e)
      | Inr packet \<Rightarrow>
          (let session = snd (Session_Recv session packet) in
           if b_Type (p_Body packet) \<noteq> BodyTypeSync then hs_fail (ErrOther ''expected SYNC response'')
           else
             let (authPacket, session) = Session_Send session (NewCommandBody (command 0x19 @ sign)) in
             hs_bind (hs_send c (Packet_Serialize authPacket)) (\<lambda>_.
             hs_bind (auth_wait c timeout 5 session) (\<lambda>(authOK, session).
             if \<not> authOK then hs_fail ErrAuthenticationFailed
             else
               let (ackPacket, session) = Session_Send session (NewCommandBody (command 0x1b)) in
               hs_bind (hs_send c (Packet_Serialize ackPacket)) (\<lambda>_.
               hs_bind (hs_try (hs_read_raw c timeout)) (\<lambda>r.
               final_drain c 3
                 (case r of
                    Inl _ \<Rightarrow> session
                  | Inr ackResp \<Rightarrow>
                      (case ParsePacket ackResp of Inl _ \<Rightarrow> session | Inr p \<Rightarrow> snd (Session_Recv session p)))))))))))"

definition performDirectHandshake :: "nat \<Rightarrow> byte list \<Rightarrow> string \<Rightarrow> string \<Rightarrow> byte list \<Rightarrow> duration \<Rightarrow> Session hs" where
  "performDirectHandshake c cid devicePubAddr deviceLAddr sign timeout =
     hs_bind (punch_hole c cid devicePubAddr deviceLAddr) (\<lambda>_. authenticate c sign timeout)"

section \<open>Through the cloud\<close>

definition MainServer :: string where
  "MainServer = ''www.easy4ipcloud.com''"

definition MainPort :: int where
  "MainPort = 8800"

definition DefaultTimeout :: duration where
  "DefaultTimeout = 10 * second"

record HandshakeOptions =
  ho_Serial :: string
  ho_Timeout :: duration
  ho_DeviceUsername :: string
  ho_DevicePassword :: string
  ho_P2PPort :: int

record HandshakeResult =
  hr_Client :: nat
  hr_Session :: Session
  hr_RTSPPort :: u32

definition hs_field :: "dh_error \<Rightarrow> Response \<Rightarrow> string \<Rightarrow> string hs" where
  "hs_field e resp key = (case r_Body resp key of None \<Rightarrow> hs_fail e | Some v \<Rightarrow> hs_return v)"

text \<open>A missing key of a map of strings reads as the empty string.\<close>

definition body_string :: "Response \<Rightarrow> string \<Rightarrow> string" where
  "body_string resp key = (case r_Body resp key of None \<Rightarrow> [] | Some v \<Rightarrow> v)"

text \<open>The value \<open>strconv.Atoi\<close> returns, also next to an error: zero, or the nearest bound.\<close>

definition Atoi_value :: "string \<Rightarrow> int" where
  "Atoi_value s =
     (let neg = (s \<noteq> [] \<and> hd s = CHR ''-'');
          ds = (if s \<noteq> [] \<and> (hd s = CHR ''-'' \<or> hd s = CHR ''+'') then tl s else s)
      in if ds = [] then 0
         else case digits_val 0 ds of
                None \<Rightarrow> 0
              | Some n \<Rightarrow> max (- (2 ^ 63)) (min (2 ^ 63 - 1) (if neg then - int n else int n)))"

text \<open>Steps 1 to 3: the server of the device, the device information, the relay.\<close>

definition find_p2psrv :: "HandshakeOptions \<Rightarrow> (nat \<times> string) hs" where
  "find_p2psrv opts =
     hs_bind (hs_open assign_main (ho_Timeout opts) 0) (\<lambda>mainClient.
     hs_bind (hs_connect mainClient MainServer MainPort) (\<lambda>_.
     hs_bind (hs_request mainClient ''/probe/p2psrv'' []) (\<lambda>_.
     hs_bind (hs_read mainClient) (\<lambda>_.
     hs_bind (hs_request mainClient (''/online/p2psrv/'' @ ho_Serial opts) []) (\<lambda>_.
     hs_bind (hs_read mainClient) (\<lambda>p2pResp.
     hs_bind (hs_field ErrDeviceNotFound p2pResp ''body/US'') (\<lambda>p2psrv.
     hs_return (mainClient, p2psrv))))))))"

definition device_info :: "primitives \<Rightarrow> Response \<Rightarrow> string \<times> u32" where
  "device_info pr infoResp =
     (if body_string infoResp ''body/Info'' \<noteq> [] then
        (case DecryptDeviceInfo pr (body_string infoResp ''body/Info'') of
           Inl _ \<Rightarrow> ([], 554)
         | Inr deviceInfo \<Rightarrow>
             (di_RandSalt deviceInfo,
              if di_RTSPPort deviceInfo > 0 \<and> di_RTSPPort deviceInfo \<le> 65535 then of_int (di_RTSPPort deviceInfo) else 554))
      else ([], 554))"

definition query_device :: "HandshakeOptions \<Rightarrow> string \<Rightarrow> (nat \<times> string \<times> u32) hs" where
  "query_device opts p2psrv =
     hs_bind (hs_lift (splitHostPort p2psrv)) (\<lambda>(p2pHost, p2pPort).
     hs_bind (hs_open assign_p2p (ho_Timeout opts) 0) (\<lambda>p2pClient.
     hs_bind (hs_connect p2pClient p2pHost p2pPort) (\<lambda>_.
     hs_bind (hs_request p2pClient (''/probe/device/'' @ ho_Serial opts) []) (\<lambda>_.
     hs_bind (hs_read p2pClient) (\<lambda>_.
     hs_bind (hs_request p2pClient (''/info/device/'' @ ho_Serial opts) []) (\<lambda>_.
     hs_bind (hs_read p2pClient) (\<lambda>infoResp.
     hs_call (\<lambda>env t. hs_return (p2pClient, device_info (env_prims env) infoResp)))))))))"

definition find_relay :: "nat \<Rightarrow> string hs" where
  "find_relay mainClient =
     hs_bind (hs_request mainClient ''/online/relay'' []) (\<lambda>_.
     hs_bind (hs_read mainClient) (\<lambda>relayResp.
     hs_field ErrInvalidResponse relayResp ''body/Address''))"

text \<open>Step 4: the request for a channel to the device. \<open>auth\<close> is the device key where one is needed.\<close>

definition needs_auth :: "HandshakeOptions \<Rightarrow> string \<Rightarrow> bool" where
  "needs_auth opts randsalt \<longleftrightarrow> ho_DeviceUsername opts \<noteq> [] \<and> ho_DevicePassword opts \<noteq> [] \<and> randsalt \<noteq> []"

definition channel_body :: "HandshakeOptions \<Rightarrow> string \<Rightarrow> byte list \<Rightarrow> string \<Rightarrow> (byte list option \<times> string) hs" where
  "channel_body opts randsalt cid localAddr =
     (if needs_auth opts randsalt then
        hs_bind (RandomBytes 4) (\<lambda>nonceBytes.
        hs_call (\<lambda>env t.
          let pr = env_prims env;
              deviceKey = GetDeviceKey pr (ho_DeviceUsername opts) (ho_DevicePassword opts) randsalt;
              deviceNonce = GetDeviceNonce nonceBytes
          in hs_bind (hs_lift (EncryptAddr pr deviceKey deviceNonce localAddr)) (\<lambda>encAddr.
             let authXML = GetDeviceAuth pr (env_now env t) (ho_DeviceUsername opts) deviceKey deviceNonce randsalt encAddr
             in hs_return (Some deviceKey,
                  ''<body>'' @ authXML @ ''<Identify>'' @ formatIdentify cid @ ''</Identify><IpEncrptV2>true</IpEncrptV2><LocalAddr>'' @
                  encAddr @ ''</LocalAddr><version>5.0.0</version></body>''))))
      else
        hs_return (None,
          ''<body><Identify>'' @ formatIdentify cid @ ''</Identify><IpEncrpt>true</IpEncrpt><LocalAddr>'' @ localAddr @
          ''</LocalAddr><version>5.0.0</version></body>''))"

definition request_channel :: "HandshakeOptions \<Rightarrow> string \<Rightarrow> (nat \<times> byte list \<times> byte list option) hs" where
  "request_channel opts randsalt =
     hs_bind (hs_open assign_device (ho_Timeout opts) (ho_P2PPort opts)) (\<lambda>deviceClient.
     hs_bind (hs_connect deviceClient MainServer MainPort) (\<lambda>_.
     hs_bind (RandomBytes 8) (\<lambda>cid.
     hs_bind (\<lambda>s. (Inr (''127.0.0.1:'' @ int_str (LocalPort (hs_clients s deviceClient))), s)) (\<lambda>localAddr.
     hs_bind (channel_body opts randsalt cid localAddr) (\<lambda>(deviceKey, body).
     hs_bind (hs_request deviceClient (''/device/'' @ ho_Serial opts @ ''/p2p-channel'') body) (\<lambda>_.
     hs_return (deviceClient, cid, deviceKey)))))))"

text \<open>Steps 5 and 6: the relay names an agent, the agent starts a relay.\<close>

definition start_agent :: "nat \<Rightarrow> string \<Rightarrow> (string \<times> string \<times> int) hs" where
  "start_agent p2pClient relayAddr =
     hs_bind (hs_lift (splitHostPort relayAddr)) (\<lambda>(relayHost, relayPort).
     hs_bind (hs_connect p2pClient relayHost relayPort) (\<lambda>_.
     hs_bind (hs_request p2pClient ''/relay/agent'' []) (\<lambda>_.
     hs_bind (hs_read p2pClient) (\<lambda>agentResp.
     hs_bind (hs_field ErrInvalidResponse agentResp ''body/Token'') (\<lambda>token.
     hs_bind (hs_field ErrInvalidResponse agentResp ''body/Agent'') (\<lambda>agentAddr.
     hs_bind (hs_lift (splitHostPort agentAddr)) (\<lambda>(agentHost, agentPort).
     hs_bind (hs_connect p2pClient agentHost agentPort) (\<lambda>_.
     hs_bind (hs_request p2pClient (''/relay/start/'' @ token) ''<body><Client>:0</Client></body>'') (\<lambda>_.
     hs_bind (hs_read p2pClient) (\<lambda>_.
     hs_return (agentAddr, agentHost, agentPort)))))))))))"

text \<open>Step 7: the device's answer, with its addresses.\<close>

definition decrypt_local :: "primitives \<Rightarrow> byte list option \<Rightarrow> Response \<Rightarrow> string \<Rightarrow> string" where
  "decrypt_local pr deviceKey channelResp deviceLAddr =
     (case deviceKey of
        None \<Rightarrow> deviceLAddr
      | Some key \<Rightarrow>
          if body_string channelResp ''body/Nonce'' \<noteq> [] then
            (case DecryptAddr pr key (Atoi_value (body_string channelResp ''body/Nonce'')) deviceLAddr of
               Inl _ \<Rightarrow> deviceLAddr
             | Inr decAddr \<Rightarrow> decAddr)
          else deviceLAddr)"

definition read_channel :: "nat \<Rightarrow> byte list option \<Rightarrow> (Response \<times> string \<times> string) hs" where
  "read_channel deviceClient deviceKey =
     hs_bind (hs_read deviceClient) (\<lambda>channelResp.
     hs_bind (if r_Code channelResp = 100 then hs_read deviceClient else hs_return channelResp) (\<lambda>channelResp.
     if r_Code channelResp \<ge> 400 then
       hs_fail (if r_Code channelResp = 403 then ErrAuthenticationFailed else ErrOther (''p2p channel error: '' @ r_Status channelResp))
     else
       hs_bind (hs_field ErrInvalidResponse channelResp ''body/LocalAddr'') (\<lambda>deviceLAddr.
       hs_call (\<lambda>env t.
       let deviceLAddr = decrypt_local (env_prims env) deviceKey channelResp deviceLAddr in
       hs_bind (hs_field ErrInvalidResponse channelResp ''body/PubAddr'') (\<lambda>devicePubAddr.
       hs_return (channelResp, deviceLAddr, devicePubAddr))))))"

definition relay_body :: "HandshakeOptions \<Rightarrow> string \<Rightarrow> byte list option \<Rightarrow> Response \<Rightarrow> string \<Rightarrow> string hs" where
  "relay_body opts randsalt deviceKey channelResp agentAddr =
     (case deviceKey of
        Some key \<Rightarrow>
          hs_call (\<lambda>env t.
            let respNonce = Atoi_value (body_string channelResp ''body/Nonce'');
                relayAuth = GetDeviceAuth (env_prims env) (env_now env t) (ho_DeviceUsername opts) key respNonce randsalt []
            in hs_return (''<body>'' @ relayAuth @ ''<agentAddr>'' @ agentAddr @ ''</agentAddr></body>''))
      | None \<Rightarrow> hs_return (''<body><agentAddr>'' @ agentAddr @ ''</agentAddr></body>''))"

text \<open>Steps 8 to 10: towards the device's public address, the relay channel, a PTCP session with the agent.\<close>

definition agent_session ::
    "HandshakeOptions \<Rightarrow> string \<Rightarrow> nat \<Rightarrow> nat \<Rightarrow> byte list option \<Rightarrow> Response \<Rightarrow> string \<Rightarrow> string \<times> string \<times> int \<Rightarrow> Session hs" where
  "agent_session opts randsalt p2pClient deviceClient deviceKey channelResp devicePubAddr agent =
     (let (agentAddr, agentHost, agentPort) = agent in
      hs_bind (hs_lift (splitHostPort devicePubAddr)) (\<lambda>(deviceHost, devicePort).
      hs_bind (hs_connect deviceClient deviceHost devicePort) (\<lambda>_.
      hs_bind (hs_connect p2pClient MainServer MainPort) (\<lambda>_.
      hs_bind (relay_body opts randsalt deviceKey channelResp agentAddr) (\<lambda>relayChannelBody.
      hs_bind (hs_request p2pClient (''/device/'' @ ho_Serial opts @ ''/relay-channel'') relayChannelBody) (\<lambda>_.
      hs_bind (hs_connect p2pClient agentHost agentPort) (\<lambda>_.
      hs_bind (hs_read_raw p2pClient (ho_Timeout opts)) (\<lambda>_.
      let (syncPacket, agentSession) = Session_Send NewSession NewSyncBody in
      hs_bind (hs_send p2pClient (Packet_Serialize syncPacket)) (\<lambda>_.
      hs_bind (hs_read_raw p2pClient (ho_Timeout opts)) (\<lambda>syncResp.
      case ParsePacket syncResp of
        Inl e \<Rightarrow> hs_fail (ErrPacket e)
      | Inr syncRespPacket \<Rightarrow> hs_return (snd (Session_Recv agentSession syncRespPacket))))))))))))"

text \<open>Step 11: the sign, in at most five reads.\<close>

fun sign_wait :: "nat \<Rightarrow> duration \<Rightarrow> nat \<Rightarrow> Session \<Rightarrow> byte list option hs" where
  "sign_wait p2pClient timeout 0 agentSession = hs_return None"
| "sign_wait p2pClient timeout (Suc i) agentSession =
     hs_bind (hs_try (hs_read_raw p2pClient timeout)) (\<lambda>r.
       case r of
         Inl _ \<Rightarrow>
           (let (signReqPacket, agentSession) = Session_Send agentSession (NewCommandBody (command 0x17)) in
            hs_bind (hs_try (hs_send p2pClient (Packet_Serialize signReqPacket))) (\<lambda>_.
            sign_wait p2pClient timeout i agentSession))
       | Inr signResp \<Rightarrow>
           (case ParsePacket signResp of
              Inl _ \<Rightarrow> sign_wait p2pClient timeout i agentSession
            | Inr p \<Rightarrow>
                (let agentSession = snd (Session_Recv agentSession p) in
                 if b_Type (p_Body p) = BodyTypeCommand \<and> length (b_Command (p_Body p)) > 12
                 then hs_return (Some (drop 12 (b_Command (p_Body p))))
                 else sign_wait p2pClient timeout i agentSession)))"

definition get_sign :: "HandshakeOptions \<Rightarrow> nat \<Rightarrow> Session \<Rightarrow> byte list hs" where
  "get_sign opts p2pClient agentSession =
     (let (signReqPacket, agentSession) = Session_Send agentSession (NewCommandBody (command 0x17)) in
      hs_bind (hs_send p2pClient (Packet_Serialize signReqPacket)) (\<lambda>_.
      hs_bind (sign_wait p2pClient (ho_Timeout opts) 5 agentSession) (\<lambda>sign.
      case sign of None \<Rightarrow> hs_fail (ErrOther ''could not get sign from agent'') | Some sign \<Rightarrow> hs_return sign)))"

text \<open>Step 12: up to three attempts at the direct connection; the error is that of the last.\<close>

fun direct_attempts :: "(Session hs) \<Rightarrow> nat \<Rightarrow> Session hs" where
  "direct_attempts attempt 0 = hs_fail (ErrOther ''direct P2P failed'')"
| "direct_attempts attempt (Suc 0) = attempt"
| "direct_attempts attempt (Suc n) =
     hs_bind (hs_try attempt) (\<lambda>r. case r of Inr session \<Rightarrow> hs_return session | Inl _ \<Rightarrow> direct_attempts attempt n)"

definition handshake_steps :: "HandshakeOptions \<Rightarrow> HandshakeResult hs" where
  "handshake_steps opts =
     hs_bind (find_p2psrv opts) (\<lambda>(mainClient, p2psrv).
     hs_bind (query_device opts p2psrv) (\<lambda>(p2pClient, randsalt, rtspPort).
     hs_bind (find_relay mainClient) (\<lambda>relayAddr.
     hs_bind (request_channel opts randsalt) (\<lambda>(deviceClient, cid, deviceKey).
     hs_bind (start_agent p2pClient relayAddr) (\<lambda>agent.
     hs_bind (read_channel deviceClient deviceKey) (\<lambda>(channelResp, deviceLAddr, devicePubAddr).
     hs_bind (agent_session opts randsalt p2pClient deviceClient deviceKey channelResp devicePubAddr agent) (\<lambda>agentSession.
     hs_bind (get_sign opts p2pClient agentSession) (\<lambda>sign.
     hs_bind (\<lambda>s. (Inr (), assign_p2p None (close_socket p2pClient (assign_main None (close_socket mainClient s))))) (\<lambda>_.
     hs_bind (direct_attempts (performDirectHandshake deviceClient cid devicePubAddr deviceLAddr sign (ho_Timeout opts)) 3) (\<lambda>session s.
     (Inr \<lparr>hr_Client = deviceClient, hr_Session = session, hr_RTSPPort = rtspPort\<rparr>, assign_device None s)))))))))))"

text \<open>The deferred function: on an error it closes what the three variables still hold.\<close>

definition close_opt :: "nat option \<Rightarrow> hs_state \<Rightarrow> hs_state" where
  "close_opt v s = (case v of None \<Rightarrow> s | Some c \<Rightarrow> close_socket c s)"

definition cleanup :: "hs_state \<Rightarrow> hs_state" where
  "cleanup s = (let s = close_opt (hs_main s) s; s = close_opt (hs_p2p s) s in close_opt (hs_device s) s)"

definition Handshake :: "HandshakeOptions \<Rightarrow> HandshakeResult hs" where
  "Handshake opts s =
     (let opts = (if ho_Timeout opts = 0 then opts\<lparr>ho_Timeout := DefaultTimeout\<rparr> else opts);
          (r, s) = handshake_steps opts (s\<lparr>hs_main := None, hs_p2p := None, hs_device := None\<rparr>)
      in (r, case r of Inl _ \<Rightarrow> cleanup s | Inr _ \<Rightarrow> s))"

end
