(* ===== verification/Handshake_Safety.thy ===== *)
theory Handshake_Safety
  imports Dh_Handshake
begin

text \<open>
  What the handshake guarantees: a program logic over its steps (\<open>triple\<close>, \<open>keeps\<close>), the sockets it
  opens and closes, and the datagrams it exchanges with the device.
\<close>

section \<open>Triples\<close>

text \<open>
  \<open>triple P m Q E\<close>: started where \<open>P\<close> holds, \<open>m\<close> returns a value and a state in \<open>Q\<close>, or an error and
  a state in \<open>E\<close>.
\<close>

named_theorems triple_rules \<open>one rule for each way of sequencing\<close>

definition triple :: "(hs_state \<Rightarrow> bool) \<Rightarrow> 'a hs \<Rightarrow> ('a \<Rightarrow> hs_state \<Rightarrow> bool) \<Rightarrow> (hs_state \<Rightarrow> bool) \<Rightarrow> bool" where
  "triple P m Q E \<longleftrightarrow> (\<forall>s. P s \<longrightarrow> (case m s of (Inr x, s') \<Rightarrow> Q x s' | (Inl e, s') \<Rightarrow> E s'))"

lemma tripleI:
  assumes "\<And>s x s'. P s \<Longrightarrow> m s = (Inr x, s') \<Longrightarrow> Q x s'" "\<And>s e s'. P s \<Longrightarrow> m s = (Inl e, s') \<Longrightarrow> E s'"
  shows "triple P m Q E"
  using assms unfolding triple_def by (auto split: prod.splits sum.splits)

lemma tripleD:
  assumes "triple P m Q E" "P s"
  shows "m s = (Inr x, s') \<Longrightarrow> Q x s'" "m s = (Inl e, s') \<Longrightarrow> E s'"
  using assms unfolding triple_def by force+

lemma triple_return [triple_rules]: "(\<And>s. P s \<Longrightarrow> Q x s) \<Longrightarrow> triple P (hs_return x) Q E"
  by (simp add: triple_def hs_return_def)

lemma triple_fail [triple_rules]: "(\<And>s. P s \<Longrightarrow> E s) \<Longrightarrow> triple P (hs_fail e) Q E"
  by (simp add: triple_def hs_fail_def)

lemma triple_lift [triple_rules]: "(\<And>s x. P s \<Longrightarrow> r = Inr x \<Longrightarrow> Q x s) \<Longrightarrow> (\<And>s. P s \<Longrightarrow> E s) \<Longrightarrow> triple P (hs_lift r) Q E"
  by (cases r) (auto simp: triple_def hs_lift_def)

lemma triple_bind:
  assumes "triple P m R E" "\<And>x. triple (R x) (k x) Q E"
  shows "triple P (hs_bind m k) Q E"
  using assms unfolding triple_def hs_bind_def by (fastforce split: prod.splits sum.splits)

lemma triple_try: "triple P m (\<lambda>x. Q (Inr x)) (\<lambda>s. \<forall>e. Q (Inl e) s) \<Longrightarrow> triple P (hs_try m) Q E"
  unfolding triple_def hs_try_def by (fastforce split: prod.splits sum.splits)

lemma triple_call:
  assumes "\<And>s t. P s \<Longrightarrow> P (s\<lparr>hs_tick := t\<rparr>)" "\<And>env t. triple P (f env t) Q E"
  shows "triple P (hs_call f) Q E"
  unfolding triple_def hs_call_def
proof (intro allI impI)
  fix s assume "P s"
  then have "P (s\<lparr>hs_tick := Suc (hs_tick s)\<rparr>)" by (rule assms(1))
  then show "case f (hs_env s) (hs_tick s) (s\<lparr>hs_tick := Suc (hs_tick s)\<rparr>) of (Inl e, s') \<Rightarrow> E s' | (Inr x, s') \<Rightarrow> Q x s'"
    by (rule assms(2) [of "hs_env s" "hs_tick s", unfolded triple_def, rule_format])
qed

lemma triple_if [triple_rules]:
  "(b \<Longrightarrow> triple P m Q E) \<Longrightarrow> (\<not> b \<Longrightarrow> triple P n Q E) \<Longrightarrow> triple P (if b then m else n) Q E"
  by simp

lemma triple_sum [triple_rules]:
  "(\<And>e. r = Inl e \<Longrightarrow> triple P (f e) Q E) \<Longrightarrow> (\<And>x. r = Inr x \<Longrightarrow> triple P (g x) Q E) \<Longrightarrow>
     triple P (case r of Inl e \<Rightarrow> f e | Inr x \<Rightarrow> g x) Q E"
  by (cases r) simp_all

lemma triple_option [triple_rules]:
  "(v = None \<Longrightarrow> triple P m Q E) \<Longrightarrow> (\<And>x. v = Some x \<Longrightarrow> triple P (f x) Q E) \<Longrightarrow>
     triple P (case v of None \<Rightarrow> m | Some x \<Rightarrow> f x) Q E"
  by (cases v) simp_all

lemma triple_prod [triple_rules]: "(\<And>x y. z = (x, y) \<Longrightarrow> triple P (f x y) Q E) \<Longrightarrow> triple P (case z of (x, y) \<Rightarrow> f x y) Q E"
  by (cases z) simp

lemma triple_mono:
  "triple P m Q E \<Longrightarrow> (\<And>s. P' s \<Longrightarrow> P s) \<Longrightarrow> (\<And>x s. Q x s \<Longrightarrow> Q' x s) \<Longrightarrow> (\<And>s. E s \<Longrightarrow> E' s) \<Longrightarrow> triple P' m Q' E'"
  unfolding triple_def by (fastforce split: prod.splits sum.splits)

lemma triple_ex:
  assumes "\<And>x. A x \<Longrightarrow> triple (P x) m Q E"
  shows "triple (\<lambda>s. \<exists>x. A x \<and> P x s) m Q E"
  using tripleD [OF assms] by (intro tripleI) blast+

lemma triple_conj:
  assumes "A \<Longrightarrow> triple P m Q E"
  shows "triple (\<lambda>s. P s \<and> A) m Q E"
  using tripleD [OF assms] by (intro tripleI) blast+

section \<open>What a step leaves alone\<close>

text \<open>
  An assertion that does not depend on the clock, and on the clients only through which sockets are
  open, is kept by every step that opens and closes none.
\<close>

definition keeps :: "(hs_state \<Rightarrow> bool) \<Rightarrow> 'a hs \<Rightarrow> bool" where
  "keeps I m \<longleftrightarrow> triple I m (\<lambda>_. I) I"

named_theorems keeps_rules \<open>steps that keep an assertion\<close>

definition open_as :: "(UDPClient \<Rightarrow> (dh_error + 'a) \<times> UDPClient) \<Rightarrow> bool" where
  "open_as f \<longleftrightarrow> (\<forall>cl. k_open (u_conn (snd (f cl))) = k_open (u_conn cl))"

lemma recv_loop_open: "k_open (snd (recv_loop raddr k)) = k_open k"
proof (cases "k_open k")
  case True
  then show ?thesis by (simp add: recv_loop_scan)
next
  case False
  then show ?thesis by (simp add: recv_loop.simps [of raddr k] ReadFromUDP_def)
qed

lemma ReadFromUDP_open: "k_open (snd (ReadFromUDP n k)) = k_open k"
  by (auto simp: ReadFromUDP_def split: list.splits sum.splits)

lemma Recv_open: "k_open (u_conn (snd (UDP_Recv now cl timeout))) = k_open (u_conn cl)"
  by (simp add: UDP_Recv_def SetReadDeadline_def Let_def case_prod_unfold recv_loop_open)

lemma Send_open: "k_open (u_conn (snd (UDP_Send cl data))) = k_open (u_conn cl)"
  using WriteToUDP_effect(1) by (fastforce simp: UDP_Send_def split: option.splits prod.splits)

lemma err_result_client [simp]: "snd (err_result x) = snd x"
  by (cases x rule: err_result.cases) simp_all

lemma net_result_client [simp]: "snd (net_result x) = snd x"
  by (cases x rule: net_result.cases) simp_all

lemma open_as_calls [keeps_rules]:
  "open_as (\<lambda>cl. err_result (UDP_Connect resolve cl host port))"
  "open_as (\<lambda>cl. err_result (UDP_Send cl data))"
  "open_as (\<lambda>cl. err_result (UDP_SendTo cl data addr))"
  "open_as (\<lambda>cl. err_result (UDP_Request hash nonce now cl path body))"
  "open_as (\<lambda>cl. UDP_Read tokens now cl)"
  "open_as (\<lambda>cl. net_result (UDP_ReadRaw now cl timeout))"
  "open_as (\<lambda>cl. net_result (UDP_RecvFrom now cl timeout))"
proof -
  show "open_as (\<lambda>cl. err_result (UDP_Connect resolve cl host port))"
    by (auto simp: open_as_def UDP_Connect_def split: sum.splits)
  show "open_as (\<lambda>cl. err_result (UDP_Send cl data))" by (simp add: open_as_def Send_open)
  show "open_as (\<lambda>cl. err_result (UDP_SendTo cl data addr))"
    using WriteToUDP_effect(1) by (fastforce simp: open_as_def UDP_SendTo_def split: prod.splits)
  show "open_as (\<lambda>cl. err_result (UDP_Request hash nonce now cl path body))"
    by (simp add: open_as_def UDP_Request_def Let_def Send_open)
  show "open_as (\<lambda>cl. UDP_Read tokens now cl)"
    unfolding open_as_def
  proof
    fix cl
    obtain r cl' where "UDP_Recv now cl (u_timeout cl) = (r, cl')" by fastforce
    then show "k_open (u_conn (snd (UDP_Read tokens now cl))) = k_open (u_conn cl)"
      using Recv_open [of now cl "u_timeout cl"] by (cases r) (simp_all add: UDP_Read_def)
  qed
  show "open_as (\<lambda>cl. net_result (UDP_ReadRaw now cl timeout))"
    by (simp add: open_as_def UDP_ReadRaw_def Recv_open)
  show "open_as (\<lambda>cl. net_result (UDP_RecvFrom now cl timeout))"
    by (simp add: open_as_def UDP_RecvFrom_def SetReadDeadline_def Let_def case_prod_unfold ReadFromUDP_open)
qed

locale client_frame =
  fixes I :: "hs_state \<Rightarrow> bool"
  assumes tick: "I s \<Longrightarrow> I (s\<lparr>hs_tick := t\<rparr>)"
    and client: "I s \<Longrightarrow> k_open (u_conn cl) = k_open (u_conn (hs_clients s c)) \<Longrightarrow>
      I (s\<lparr>hs_clients := (hs_clients s)(c := cl)\<rparr>)"
begin

lemma keeps_control [keeps_rules]:
  "keeps I (hs_return x)" "keeps I (hs_fail e)" "keeps I (hs_lift r)"
  "keeps I m \<Longrightarrow> (\<And>x. keeps I (k x)) \<Longrightarrow> keeps I (hs_bind m k)"
  "keeps I m \<Longrightarrow> keeps I (hs_try m)"
  "(\<And>env t. keeps I (f env t)) \<Longrightarrow> keeps I (hs_call f)"
  unfolding keeps_def by (auto intro: triple_rules triple_bind triple_try triple_call tick)

lemma keeps_client [keeps_rules]: "open_as f \<Longrightarrow> keeps I (hs_client c f)"
proof -
  assume f: "open_as f"
  have "I (snd (hs_client c f s))" if "I s" for s
    using client [OF that, of "snd (f (hs_clients s c))" c] f by (simp add: hs_client_def Let_def case_prod_unfold open_as_def)
  then show "keeps I (hs_client c f)"
    unfolding keeps_def by (intro tripleI) (metis snd_conv)+
qed

lemma keeps_cases [keeps_rules]:
  "keeps I m \<Longrightarrow> keeps I n \<Longrightarrow> keeps I (if b then m else n)"
  "(\<And>e. keeps I (f e)) \<Longrightarrow> (\<And>x. keeps I (g x)) \<Longrightarrow> keeps I (case r of Inl e \<Rightarrow> f e | Inr x \<Rightarrow> g x)"
  "keeps I m \<Longrightarrow> (\<And>x. keeps I (h x)) \<Longrightarrow> keeps I (case v of None \<Rightarrow> m | Some x \<Rightarrow> h x)"
  "(\<And>x y. keeps I (p x y)) \<Longrightarrow> keeps I (case z of (x, y) \<Rightarrow> p x y)"
  by (auto split: sum.split option.split prod.split)

lemma keeps_calls [keeps_rules]:
  "keeps I hs_now" "keeps I (RandomBytes n)" "keeps I (hs_connect c host port)" "keeps I (hs_send c data)"
  "keeps I (hs_send_to c data addr)" "keeps I (hs_request c path body)" "keeps I (hs_read c)"
  "keeps I (hs_read_raw c timeout)" "keeps I (hs_recv_from c timeout)" "keeps I (hs_field e resp key)"
  unfolding hs_now_def RandomBytes_def hs_connect_def hs_send_def hs_send_to_def hs_request_def hs_read_def
    hs_read_raw_def hs_recv_from_def hs_field_def
  by (intro keeps_rules)+

lemma keeps_punch_wait [keeps_rules]: "keeps I (punch_wait c localAddr deadline)"
proof -
  have "case punch_wait c localAddr deadline s of (Inr x, s') \<Rightarrow> I s' | (Inl e, s') \<Rightarrow> I s'" if "I s" for s
    using that
  proof (induction c localAddr deadline s rule: punch_wait.induct)
    case (1 c localAddr deadline s)
    note IH = this
    obtain r1 s1 where 1: "hs_now s = (r1, s1)" by fastforce
    obtain now where r1: "r1 = Inr now" using 1 by (auto simp: hs_now_def hs_call_def hs_return_def)
    obtain r2 s2 where 2: "hs_recv_from c (deadline - now) s1 = (r2, s2)" by fastforce
    have I1: "I s1" using keeps_calls(1) IH(2) 1 r1 unfolding keeps_def by (blast dest: tripleD)
    have I2: "I s2"
      using keeps_calls(9) [of c "deadline - now"] I1 2 unfolding keeps_def by (cases r2) (blast dest: tripleD)+
    show ?case
      using IH(1) [OF 1 [symmetric] r1 _ 2 [symmetric]] I1 I2
      by (auto simp: punch_wait.simps [of c localAddr deadline s] 1 r1 2 split: sum.split)
  qed
  then show ?thesis unfolding keeps_def triple_def by blast
qed

lemma keeps_loops [keeps_rules]:
  "keeps I (stun_drain c i)" "keeps I (auth_wait c timeout i session)" "keeps I (final_drain c i session)"
  "keeps I (sign_wait c timeout i session)" "keeps I m \<Longrightarrow> keeps I (direct_attempts m i)"
proof -
  show "keeps I (stun_drain c i)" by (induction i) (auto intro!: keeps_rules)
  show "keeps I (auth_wait c timeout i session)"
    by (induction i arbitrary: session) (auto simp: Let_def intro!: keeps_rules)
  show "keeps I (final_drain c i session)" by (induction i arbitrary: session) (auto intro!: keeps_rules)
  show "keeps I (sign_wait c timeout i session)"
    by (induction i arbitrary: session) (auto simp: Let_def intro!: keeps_rules)
  show "keeps I (direct_attempts m i)" if "keeps I m"
    using that by (induction m i rule: direct_attempts.induct) (auto intro!: keeps_rules)
qed

lemma keeps_direct [keeps_rules]: "keeps I (performDirectHandshake c cid pub lan sign timeout)"
  unfolding performDirectHandshake_def punch_hole_def punch_confirm_def authenticate_def Let_def by (intro keeps_rules)+

lemma keeps_steps [keeps_rules]:
  "keeps I (find_relay c)" "keeps I (channel_body opts salt cid addr)" "keeps I (start_agent c addr)"
  "keeps I (read_channel c key)" "keeps I (relay_body opts salt key resp addr)"
  "keeps I (agent_session opts salt c d key resp addr agent)" "keeps I (get_sign opts c session)"
  unfolding find_relay_def channel_body_def start_agent_def read_channel_def relay_body_def agent_session_def get_sign_def Let_def
  by (intro keeps_rules)+

end

section \<open>Who owns the sockets\<close>

fun opt_list :: "'a option \<Rightarrow> 'a list" where
  "opt_list None = []"
| "opt_list (Some x) = [x]"

definition socket_open :: "hs_state \<Rightarrow> nat \<Rightarrow> bool" where
  "socket_open s c \<longleftrightarrow> k_open (u_conn (hs_clients s c))"

text \<open>The sockets opened since the start and not yet closed are the ones the variables hold.\<close>

fun owned :: "environment \<Rightarrow> nat \<Rightarrow> nat option \<times> nat option \<times> nat option \<Rightarrow> hs_state \<Rightarrow> bool" where
  "owned env n (m, p, d) s \<longleftrightarrow> hs_env s = env \<and> n \<le> hs_next s \<and> hs_main s = m \<and> hs_p2p s = p \<and> hs_device s = d \<and>
     distinct (opt_list m @ opt_list p @ opt_list d) \<and>
     set (opt_list m @ opt_list p @ opt_list d) = {c. n \<le> c \<and> c < hs_next s \<and> socket_open s c}"

declare owned.simps [simp del]

interpretation own: client_frame "owned env n v" for env n v
proof
  fix s :: hs_state and t :: nat and cl :: UDPClient and c :: nat
  show "owned env n v s \<Longrightarrow> owned env n v (s\<lparr>hs_tick := t\<rparr>)" by (cases v) (simp add: owned.simps socket_open_def)
  assume "owned env n v s" "k_open (u_conn cl) = k_open (u_conn (hs_clients s c))"
  moreover from this(2) have "socket_open (s\<lparr>hs_clients := (hs_clients s)(c := cl)\<rparr>) = socket_open s"
    by (auto simp: socket_open_def fun_eq_iff)
  ultimately show "owned env n v (s\<lparr>hs_clients := (hs_clients s)(c := cl)\<rparr>)" by (cases v) (simp add: owned.simps)
qed

definition owned_some :: "environment \<Rightarrow> nat \<Rightarrow> hs_state \<Rightarrow> bool" where
  "owned_some env n s \<longleftrightarrow> (\<exists>v. owned env n v s)"

lemma owned_keeps:
  assumes "keeps (owned env n v) m"
  shows "triple (owned env n v) m (\<lambda>_. owned env n v) (owned_some env n)"
  using assms unfolding keeps_def owned_some_def by (elim triple_mono) blast+

lemma new_socket:
  assumes "owned env n (m, p, d) s" "k_open (u_conn cl)"
  defines "u \<equiv> s\<lparr>hs_clients := (hs_clients s)(hs_next s := cl), hs_next := Suc (hs_next s)\<rparr>"
  shows "m = None \<Longrightarrow> owned env n (Some (hs_next s), p, d) (assign_main (Some (hs_next s)) u)"
    "p = None \<Longrightarrow> owned env n (m, Some (hs_next s), d) (assign_p2p (Some (hs_next s)) u)"
    "d = None \<Longrightarrow> owned env n (m, p, Some (hs_next s)) (assign_device (Some (hs_next s)) u)"
proof -
  let ?c = "hs_next s"
  have s: "{c. n \<le> c \<and> c < Suc ?c \<and> socket_open (s\<lparr>hs_clients := (hs_clients s)(?c := cl)\<rparr>) c} =
      insert ?c {c. n \<le> c \<and> c < ?c \<and> socket_open s c}"
    using assms(1,2) by (auto simp: owned.simps socket_open_def)
  have fresh: "?c \<notin> set (opt_list m @ opt_list p @ opt_list d)" using assms(1) by (auto simp: owned.simps)
  have "socket_open (assign_main v u) = socket_open (s\<lparr>hs_clients := (hs_clients s)(?c := cl)\<rparr>)"
    "socket_open (assign_p2p v u) = socket_open (s\<lparr>hs_clients := (hs_clients s)(?c := cl)\<rparr>)"
    "socket_open (assign_device v u) = socket_open (s\<lparr>hs_clients := (hs_clients s)(?c := cl)\<rparr>)" for v
    by (simp_all add: socket_open_def u_def fun_eq_iff)
  then show "m = None \<Longrightarrow> owned env n (Some ?c, p, d) (assign_main (Some ?c) u)"
    "p = None \<Longrightarrow> owned env n (m, Some ?c, d) (assign_p2p (Some ?c) u)"
    "d = None \<Longrightarrow> owned env n (m, p, Some ?c) (assign_device (Some ?c) u)"
    using assms(1) fresh s unfolding owned.simps by (simp_all add: u_def) auto
qed

definition listens_open :: "environment \<Rightarrow> bool" where
  "listens_open env \<longleftrightarrow> (\<forall>t k a. env_listen env t = Inr (k, a) \<longrightarrow> k_open k)"

lemma NewUDPClientPort_open: "listens_open env \<Longrightarrow> NewUDPClientPort (env_listen env t) timeout port = Inr cl \<Longrightarrow> k_open (u_conn cl)"
  unfolding listens_open_def by (fastforce simp: NewUDPClientPort_def split: if_splits sum.splits)

lemma owned_tick: "owned env n v s \<Longrightarrow> owned env n v (s\<lparr>hs_tick := t\<rparr>)"
  by (rule own.tick)

lemma owned_nil:
  "owned env n (None, p, d) s \<Longrightarrow> assign_main None s = s"
  "owned env n (m, None, d) s \<Longrightarrow> assign_p2p None s = s"
  "owned env n (m, p, None) s \<Longrightarrow> assign_device None s = s"
  by (auto simp: owned.simps)

lemma open_triple:
  assumes "listens_open env" "owned env n v s"
    and "\<And>u. owned env n v u \<Longrightarrow> assign None u = u"
    and "\<And>u cl. owned env n v u \<Longrightarrow> k_open (u_conn cl) \<Longrightarrow>
      owned env n (v' (hs_next u)) (assign (Some (hs_next u)) (u\<lparr>hs_clients := (hs_clients u)(hs_next u := cl), hs_next := Suc (hs_next u)\<rparr>))"
  shows "case hs_open assign timeout port s of (Inr c, s') \<Rightarrow> owned env n (v' c) s' | (Inl e, s') \<Rightarrow> owned_some env n s'"
proof -
  let ?u = "s\<lparr>hs_tick := Suc (hs_tick s)\<rparr>"
  have u: "owned env n v ?u" using assms(2) by (rule owned_tick)
  have env: "hs_env s = env" using assms(2) by (cases v) (simp add: owned.simps)
  show ?thesis
  proof (cases "NewUDPClientPort (env_listen env (hs_tick s)) timeout port")
    case (Inl e)
    then show ?thesis using assms(3) [OF u] u by (simp add: hs_open_def hs_call_def env owned_some_def del: split_paired_Ex) blast
  next
    case (Inr cl)
    then show ?thesis
      using assms(4) [OF u, of cl] NewUDPClientPort_open [OF assms(1) Inr] by (simp add: hs_open_def hs_call_def env)
  qed
qed

lemma open_triples:
  assumes "listens_open env"
  shows "triple (owned env n (None, p, d)) (hs_open assign_main timeout port) (\<lambda>c. owned env n (Some c, p, d)) (owned_some env n)"
    "triple (owned env n (m, None, d)) (hs_open assign_p2p timeout port) (\<lambda>c. owned env n (m, Some c, d)) (owned_some env n)"
    "triple (owned env n (m, p, None)) (hs_open assign_device timeout port) (\<lambda>c. owned env n (m, p, Some c)) (owned_some env n)"
proof -
  show "triple (owned env n (None, p, d)) (hs_open assign_main timeout port) (\<lambda>c. owned env n (Some c, p, d)) (owned_some env n)"
    unfolding triple_def
    by (intro allI impI, erule open_triple [OF assms, where v' = "\<lambda>c. (Some c, p, d)"])
      (erule owned_nil(1), erule new_socket(1), simp_all)
  show "triple (owned env n (m, None, d)) (hs_open assign_p2p timeout port) (\<lambda>c. owned env n (m, Some c, d)) (owned_some env n)"
    unfolding triple_def
    by (intro allI impI, erule open_triple [OF assms, where v' = "\<lambda>c. (m, Some c, d)"])
      (erule owned_nil(2), erule new_socket(2), simp_all)
  show "triple (owned env n (m, p, None)) (hs_open assign_device timeout port) (\<lambda>c. owned env n (m, p, Some c)) (owned_some env n)"
    unfolding triple_def
    by (intro allI impI, erule open_triple [OF assms, where v' = "\<lambda>c. (m, p, Some c)"])
      (erule owned_nil(3), erule new_socket(3), simp_all)
qed

lemma close_socket_open: "socket_open (close_socket c s) = (socket_open s)(c := False)"
  by (auto simp: close_socket_def socket_open_def UDP_Close_def CloseUDP_def fun_eq_iff)

lemma close_owned:
  "owned env n (Some c, p, d) s \<Longrightarrow> owned env n (None, p, d) (assign_main None (close_socket c s))"
  "owned env n (m, Some c, d) s \<Longrightarrow> owned env n (m, None, d) (assign_p2p None (close_socket c s))"
proof -
  have fr: "socket_open (assign_main v u) = socket_open u" "socket_open (assign_p2p v u) = socket_open u"
    "hs_next (close_socket c u) = hs_next u" "hs_env (close_socket c u) = hs_env u" "hs_main (close_socket c u) = hs_main u"
    "hs_p2p (close_socket c u) = hs_p2p u" "hs_device (close_socket c u) = hs_device u" for v u
    by (simp_all add: socket_open_def fun_eq_iff close_socket_def)
  have eq: "{x. n \<le> x \<and> x < k \<and> (f(c := False)) x} = {x. n \<le> x \<and> x < k \<and> f x} - {c}" for k f by auto
  show "owned env n (Some c, p, d) s \<Longrightarrow> owned env n (None, p, d) (assign_main None (close_socket c s))"
    unfolding owned.simps by (simp add: fr close_socket_open eq) auto
  show "owned env n (m, Some c, d) s \<Longrightarrow> owned env n (m, None, d) (assign_p2p None (close_socket c s))"
    unfolding owned.simps by (simp add: fr close_socket_open eq) auto
qed

lemma cleanup_closes:
  assumes "owned_some env n s"
  shows "n \<le> c \<Longrightarrow> c < hs_next s \<Longrightarrow> \<not> socket_open (cleanup s) c" "hs_next (cleanup s) = hs_next s"
proof -
  have fr: "hs_next (close_opt v u) = hs_next u" "hs_p2p (close_opt v u) = hs_p2p u" "hs_device (close_opt v u) = hs_device u" for v u
    by (cases v; simp add: close_opt_def close_socket_def)+
  have op: "socket_open (close_opt v u) x \<longleftrightarrow> socket_open u x \<and> v \<noteq> Some x" for v u x
    by (cases v) (auto simp: close_opt_def close_socket_open)
  show "hs_next (cleanup s) = hs_next s" by (simp add: cleanup_def Let_def fr)
  assume c: "n \<le> c" "c < hs_next s"
  have mem: "x \<in> set (opt_list v) \<longleftrightarrow> v = Some x" for v and x :: nat by (cases v) auto
  have "socket_open s c \<Longrightarrow> hs_main s = Some c \<or> hs_p2p s = Some c \<or> hs_device s = Some c"
    using assms c unfolding owned_some_def by (auto simp: owned.simps mem set_eq_iff)
  then show "\<not> socket_open (cleanup s) c" by (auto simp: cleanup_def Let_def op fr)
qed

lemma owned_bind:
  assumes "keeps (owned env n v) m" "\<And>x. triple (owned env n v) (k x) Q (owned_some env n)"
  shows "triple (owned env n v) (hs_bind m k) Q (owned_some env n)"
  by (rule triple_bind [OF owned_keeps [OF assms(1)] assms(2)])

lemma triple_bind_pair:
  assumes "triple P m (\<lambda>(a, b). R a b) E" "\<And>a b. triple (R a b) (k a b) Q E"
  shows "triple P (hs_bind m (\<lambda>(a, b). k a b)) Q E"
  by (rule triple_bind [OF assms(1)]) (simp add: assms(2) split: prod.split)

lemma opening_steps:
  assumes "listens_open env"
  shows "triple (owned env n (None, p, d)) (find_p2psrv opts) (\<lambda>(c, _). owned env n (Some c, p, d)) (owned_some env n)"
    "triple (owned env n (m, None, d)) (query_device opts srv) (\<lambda>(c, _). owned env n (m, Some c, d)) (owned_some env n)"
    "triple (owned env n (m, p, None)) (request_channel opts salt) (\<lambda>(c, _). owned env n (m, p, Some c)) (owned_some env n)"
proof -
  note rest = owned_bind triple_prod own.keeps_calls own.keeps_steps own.keeps_control
  show "triple (owned env n (None, p, d)) (find_p2psrv opts) (\<lambda>(c, _). owned env n (Some c, p, d)) (owned_some env n)"
    unfolding find_p2psrv_def
    by (rule triple_bind [OF open_triples(1) [OF assms]]) (intro rest triple_return, simp)
  show "triple (owned env n (m, None, d)) (query_device opts srv) (\<lambda>(c, _). owned env n (m, Some c, d)) (owned_some env n)"
    unfolding query_device_def
    by (rule owned_bind [OF own.keeps_control(3)], rule triple_prod, rule triple_bind [OF open_triples(2) [OF assms]])
      (intro rest triple_call triple_return, auto intro: owned_tick)
  have "keeps (owned env n v) (\<lambda>s. (Inr (f s), s))" for v f by (simp add: keeps_def triple_def)
  then show "triple (owned env n (m, p, None)) (request_channel opts salt) (\<lambda>(c, _). owned env n (m, p, Some c)) (owned_some env n)"
    unfolding request_channel_def
    by (intro triple_bind [OF open_triples(3) [OF assms]]) (intro rest triple_return, simp_all)
qed

lemma handshake_triple:
  assumes "listens_open env"
  shows "triple (owned env n (None, None, None)) (handshake_steps opts)
    (\<lambda>res s. \<forall>c. c = hr_Client res \<longleftrightarrow> n \<le> c \<and> c < hs_next s \<and> socket_open s c) (owned_some env n)"
proof -
  let ?fin = "\<lambda>res s. \<forall>c. c = hr_Client res \<longleftrightarrow> n \<le> c \<and> c < hs_next s \<and> socket_open s c"
  have last: "triple (owned env n (None, None, Some d))
      (\<lambda>s. (Inr \<lparr>hr_Client = d, hr_Session = session, hr_RTSPPort = port\<rparr>, assign_device None s)) ?fin (owned_some env n)" for d session port
    by (auto simp: triple_def owned.simps socket_open_def set_eq_iff)
  have close: "triple (owned env n (Some m, Some p, Some d))
      (\<lambda>s. (Inr (), assign_p2p None (close_socket p (assign_main None (close_socket m s))))) (\<lambda>_. owned env n (None, None, Some d)) (owned_some env n)" for m p d
    using close_owned(2) [OF close_owned(1)] by (simp add: triple_def)
  show ?thesis
    unfolding handshake_steps_def
    apply (rule triple_bind_pair [OF opening_steps(1) [OF assms]])
    apply (rule triple_bind_pair [OF opening_steps(2) [OF assms]], rule triple_prod)
    apply (rule owned_bind [OF own.keeps_steps(1)])
    apply (rule triple_bind_pair [OF opening_steps(3) [OF assms]], rule triple_prod)
    apply (rule owned_bind [OF own.keeps_steps(3)])
    apply (rule owned_bind [OF own.keeps_steps(4)], intro triple_prod)
    apply (rule owned_bind [OF own.keeps_steps(6)])
    apply (rule owned_bind [OF own.keeps_steps(7)])
    apply (rule triple_bind [OF close])
    apply (rule owned_bind [OF own.keeps_loops(5) [OF own.keeps_direct]])
    by (rule last)
qed

section \<open>What is said to the device\<close>

text \<open>
  \<open>talking inbox out r\<close>: the datagrams \<open>out\<close> have been written, the peer is \<open>r\<close> and what remains of
  the inbox is what has not been read yet. \<open>heard\<close> datagrams came from the peer.
\<close>

type_synonym inbox = "(net_error + byte list \<times> UDPAddr) list"

definition talking :: "inbox \<Rightarrow> (byte list \<times> UDPAddr) list \<Rightarrow> UDPAddr \<Rightarrow> UDPClient \<Rightarrow> bool" where
  "talking inbox out r cl \<longleftrightarrow> k_out (u_conn cl) = out \<and> u_raddr cl = Some r \<and> (\<exists>pre. inbox = pre @ k_in (u_conn cl))"

abbreviation talk :: "environment \<Rightarrow> nat \<Rightarrow> inbox \<Rightarrow> (byte list \<times> UDPAddr) list \<Rightarrow> UDPAddr \<Rightarrow> hs_state \<Rightarrow> bool" where
  "talk env c inbox out r s \<equiv> hs_env s = env \<and> talking inbox out r (hs_clients s c)"

definition heard :: "inbox \<Rightarrow> UDPAddr \<Rightarrow> byte list \<Rightarrow> bool" where
  "heard inbox r data \<longleftrightarrow> (\<exists>d a. Inr (d, a) \<in> set inbox \<and> sameUDPAddr (Some a) (Some r) \<and> data = take recv_buffer d)"

lemma client_triple:
  assumes "\<And>cl. P cl \<Longrightarrow> case f cl of (Inr x, cl') \<Rightarrow> Q x cl' | (Inl e, cl') \<Rightarrow> E cl'"
  shows "triple (\<lambda>s. hs_env s = env \<and> P (hs_clients s c)) (hs_client c f)
    (\<lambda>x s. hs_env s = env \<and> Q x (hs_clients s c)) (\<lambda>s. hs_env s = env \<and> E (hs_clients s c))"
  unfolding triple_def
proof (intro allI impI)
  fix s :: hs_state
  assume "hs_env s = env \<and> P (hs_clients s c)"
  then show "case hs_client c f s of (Inr x, s') \<Rightarrow> hs_env s' = env \<and> Q x (hs_clients s' c) | (Inl e, s') \<Rightarrow> hs_env s' = env \<and> E (hs_clients s' c)"
    using assms [of "hs_clients s c"] by (cases "f (hs_clients s c)"; cases "fst (f (hs_clients s c))") (auto simp: hs_client_def)
qed

lemma triple_call_env:
  assumes "\<And>s t. P s \<Longrightarrow> P (s\<lparr>hs_tick := t\<rparr>) \<and> hs_env s = env" "\<And>t. triple P (f env t) Q E"
  shows "triple P (hs_call f) Q E"
  unfolding triple_def hs_call_def
proof (intro allI impI)
  fix s assume s: "P s"
  have "hs_env s = env" "P (s\<lparr>hs_tick := Suc (hs_tick s)\<rparr>)" using assms(1) [OF s] by blast+
  then show "case f (hs_env s) (hs_tick s) (s\<lparr>hs_tick := Suc (hs_tick s)\<rparr>) of (Inl e, s') \<Rightarrow> E s' | (Inr x, s') \<Rightarrow> Q x s'"
    using assms(2) [of "hs_tick s", unfolded triple_def, rule_format] by simp
qed

lemma write_triple:
  assumes "\<And>cl. u_raddr cl = Some r \<Longrightarrow> f cl = err_result (case WriteToUDP (u_conn cl) data a of (e, k) \<Rightarrow> (e, cl\<lparr>u_conn := k\<rparr>))"
  shows "triple (talk env c inbox out r) (hs_client c f) (\<lambda>_. talk env c inbox (out @ [(data, a)]) r) (talk env c inbox out r)"
proof (rule client_triple)
  fix cl assume cl: "talking inbox out r cl"
  obtain e k where k: "WriteToUDP (u_conn cl) data a = (e, k)" by fastforce
  note eff = WriteToUDP_effect [OF k]
  have "f cl = err_result (e, cl\<lparr>u_conn := k\<rparr>)" using assms [of cl] cl k by (simp add: talking_def)
  then show "case f cl of (Inr x, cl') \<Rightarrow> talking inbox (out @ [(data, a)]) r cl' | (Inl e, cl') \<Rightarrow> talking inbox out r cl'"
    using eff cl by (cases e) (simp_all add: talking_def)
qed

lemma send_triple: "triple (talk env c inbox out r) (hs_send c data) (\<lambda>_. talk env c inbox (out @ [(data, r)]) r) (talk env c inbox out r)"
  unfolding hs_send_def by (rule write_triple) (simp add: UDP_Send_def)

lemma send_to_triple:
  "triple (talk env c inbox out r) (hs_send_to c data a) (\<lambda>_. talk env c inbox (out @ [(data, a)]) r) (talk env c inbox out r)"
  unfolding hs_send_to_def by (rule write_triple) (simp add: UDP_SendTo_def)

lemma scan_inbox_suffix: "\<exists>pre. xs = pre @ snd (scan_inbox raddr xs)"
proof (induction raddr xs rule: scan_inbox.induct)
  case (2 raddr e xs)
  show ?case by (rule exI [of _ "[Inl e]"]) simp
next
  case (3 raddr d a xs)
  show ?case
  proof (cases "sameUDPAddr (Some a) raddr")
    case True
    then show ?thesis by (intro exI [of _ "[Inr (d, a)]"]) simp
  next
    case False
    then obtain pre where "xs = pre @ snd (scan_inbox raddr xs)" using 3 by blast
    then show ?thesis using False by (intro exI [of _ "Inr (d, a) # pre"]) (simp del: sameUDPAddr_Some)
  qed
qed simp

lemma recv_loop_suffix:
  "\<exists>pre. k_in k = pre @ k_in (snd (recv_loop raddr k))" "k_out (snd (recv_loop raddr k)) = k_out k"
  "fst (recv_loop raddr k) = Inr d \<Longrightarrow> \<exists>d' a. Inr (d', a) \<in> set (k_in k) \<and> sameUDPAddr (Some a) raddr \<and> d = take recv_buffer d'"
proof -
  have closed: "recv_loop raddr k = (Inl NetClosed, k)" if "\<not> k_open k"
    using that by (simp add: recv_loop.simps [of raddr k] ReadFromUDP_def)
  show "\<exists>pre. k_in k = pre @ k_in (snd (recv_loop raddr k))" "k_out (snd (recv_loop raddr k)) = k_out k"
    using scan_inbox_suffix [of "k_in k" raddr] closed by (cases "k_open k"; simp add: recv_loop_scan)+
  assume d: "fst (recv_loop raddr k) = Inr d"
  then have "k_open k" using closed by (cases "k_open k") auto
  then have "scan_inbox raddr (k_in k) = (Inr d, snd (scan_inbox raddr (k_in k)))" using d by (simp add: recv_loop_scan prod_eq_iff)
  from scan_inbox_Inr [OF this] show "\<exists>d' a. Inr (d', a) \<in> set (k_in k) \<and> sameUDPAddr (Some a) raddr \<and> d = take recv_buffer d'" by (metis in_set_conv_decomp)
qed

lemma ReadRaw_talking:
  assumes "talking inbox out r cl" "UDP_ReadRaw now cl timeout = (x, cl')"
  shows "talking inbox out r cl'" "x = Inr d \<Longrightarrow> heard inbox r d"
proof -
  obtain pre where pre: "inbox = pre @ k_in (u_conn cl)" using assms(1) by (auto simp: talking_def)
  have r: "u_raddr cl = Some r" "k_out (u_conn cl) = out" using assms(1) by (simp_all add: talking_def)
  define k where "k = (if timeout > 0 then (u_conn cl)\<lparr>k_rdeadline := Some (now + timeout)\<rparr> else u_conn cl)"
  have k: "k_in k = k_in (u_conn cl)" "k_out k = out" using r by (simp_all add: k_def)
  have done_early: "timeout > 0 \<Longrightarrow> \<not> k_open (u_conn cl) \<Longrightarrow> cl' = cl \<and> x = Inl NetClosed"
    using assms(2) by (auto simp: UDP_ReadRaw_def UDP_Recv_def SetReadDeadline_def)
  have recv: "x = fst (recv_loop (Some r) k)" "k_in (u_conn cl') = k_in (snd (recv_loop (Some r) k))"
    "k_out (u_conn cl') = k_out (snd (recv_loop (Some r) k))" "u_raddr cl' = Some r" if "\<not> (timeout > 0 \<and> \<not> k_open (u_conn cl))"
    using assms(2) that r
    by (auto simp: k_def UDP_ReadRaw_def UDP_Recv_def SetReadDeadline_def Let_def case_prod_unfold split: if_splits)
  show "talking inbox out r cl'"
  proof (cases "timeout > 0 \<and> \<not> k_open (u_conn cl)")
    case True
    then show ?thesis using done_early assms(1) by simp
  next
    case False
    obtain pre' where "k_in k = pre' @ k_in (snd (recv_loop (Some r) k))" using recv_loop_suffix(1) by blast
    then show ?thesis using recv [OF False] k pre recv_loop_suffix(2) [of "Some r" k] unfolding talking_def
      by (intro conjI exI [of _ "pre @ pre'"]) simp_all
  qed
  assume x: "x = Inr d"
  then have "fst (recv_loop (Some r) k) = Inr d" using recv(1) done_early by fastforce
  from recv_loop_suffix(3) [OF this] show "heard inbox r d" using k(1) pre unfolding heard_def by fastforce
qed

lemma read_triple:
  "triple (talk env c inbox out r) (hs_read_raw c timeout) (\<lambda>d s. talk env c inbox out r s \<and> heard inbox r d) (talk env c inbox out r)"
  unfolding hs_read_raw_def
proof (rule triple_call_env [where env = env])
  fix t
  have "triple (talk env c inbox out r) (hs_client c (\<lambda>cl. net_result (UDP_ReadRaw (env_now env t) cl timeout)))
     (\<lambda>d s. hs_env s = env \<and> talking inbox out r (hs_clients s c) \<and> heard inbox r d) (talk env c inbox out r)"
  proof (rule client_triple)
    fix cl assume cl: "talking inbox out r cl"
    obtain x cl' where x: "UDP_ReadRaw (env_now env t) cl timeout = (x, cl')" by fastforce
    show "case net_result (UDP_ReadRaw (env_now env t) cl timeout) of
        (Inr d, cl') \<Rightarrow> talking inbox out r cl' \<and> heard inbox r d | (Inl e, cl') \<Rightarrow> talking inbox out r cl'"
      using ReadRaw_talking [OF cl x] x by (cases x) simp_all
  qed
  then show "triple (talk env c inbox out r) (hs_client c (\<lambda>cl. net_result (UDP_ReadRaw (env_now env t) cl timeout)))
     (\<lambda>d s. talk env c inbox out r s \<and> heard inbox r d) (talk env c inbox out r)" by (rule triple_mono) simp_all
qed simp

lemma connect_triple:
  "triple (talk env c inbox out r) (hs_connect c host port)
    (\<lambda>_ s. \<exists>t r'. env_resolve env t host port = Inr r' \<and> talk env c inbox out r' s) (talk env c inbox out r)"
  unfolding hs_connect_def
proof (rule triple_call_env [where env = env])
  fix t
  have "triple (talk env c inbox out r) (hs_client c (\<lambda>cl. err_result (UDP_Connect (env_resolve env t) cl host port)))
     (\<lambda>_ s. hs_env s = env \<and> (\<exists>r'. env_resolve env t host port = Inr r' \<and> talking inbox out r' (hs_clients s c))) (talk env c inbox out r)"
    by (rule client_triple) (auto simp: UDP_Connect_def talking_def split: sum.split)
  then show "triple (talk env c inbox out r) (hs_client c (\<lambda>cl. err_result (UDP_Connect (env_resolve env t) cl host port)))
     (\<lambda>_ s. \<exists>t r'. env_resolve env t host port = Inr r' \<and> talk env c inbox out r' s) (talk env c inbox out r)"
    by (rule triple_mono) auto
qed simp

lemma RecvFrom_talking:
  assumes "talking inbox out r cl" "UDP_RecvFrom now cl timeout = (x, cl')"
  shows "talking inbox out r cl'" "x = Inr (d, a) \<Longrightarrow> \<exists>d'. Inr (d', a) \<in> set inbox \<and> d = take recv_buffer d'"
proof -
  obtain pre where pre: "inbox = pre @ k_in (u_conn cl)" using assms(1) by (auto simp: talking_def)
  have suffix: "\<exists>pre. k_in k = pre @ k_in (snd (ReadFromUDP n k))" "k_out (snd (ReadFromUDP n k)) = k_out k"
    "fst (ReadFromUDP n k) = Inr (d, a) \<Longrightarrow> \<exists>d'. Inr (d', a) \<in> set (k_in k) \<and> d = take n d'" for n k
    by (auto simp: ReadFromUDP_def split: list.splits sum.splits if_splits)
  define k where "k = (if timeout > 0 then (u_conn cl)\<lparr>k_rdeadline := Some (now + timeout)\<rparr> else u_conn cl)"
  have k: "k_in k = k_in (u_conn cl)" "k_out k = out" "u_raddr cl = Some r" using assms(1) by (simp_all add: k_def talking_def)
  have done_early: "timeout > 0 \<Longrightarrow> \<not> k_open (u_conn cl) \<Longrightarrow> cl' = cl \<and> x = Inl NetClosed"
    using assms(2) by (auto simp: UDP_RecvFrom_def SetReadDeadline_def)
  have recv: "x = fst (ReadFromUDP recv_buffer k)" "k_in (u_conn cl') = k_in (snd (ReadFromUDP recv_buffer k))"
    "k_out (u_conn cl') = k_out (snd (ReadFromUDP recv_buffer k))" "u_raddr cl' = Some r" if "\<not> (timeout > 0 \<and> \<not> k_open (u_conn cl))"
    using assms(2) that k(3)
    by (auto simp: k_def UDP_RecvFrom_def SetReadDeadline_def Let_def case_prod_unfold split: if_splits)
  show "talking inbox out r cl'"
  proof (cases "timeout > 0 \<and> \<not> k_open (u_conn cl)")
    case True
    then show ?thesis using done_early assms(1) by simp
  next
    case False
    obtain pre' where "k_in k = pre' @ k_in (snd (ReadFromUDP recv_buffer k))" using suffix(1) by blast
    then show ?thesis using recv [OF False] k pre suffix(2) [of recv_buffer k] unfolding talking_def
      by (intro conjI exI [of _ "pre @ pre'"]) simp_all
  qed
  assume x: "x = Inr (d, a)"
  then have "fst (ReadFromUDP recv_buffer k) = Inr (d, a)" using recv(1) done_early by fastforce
  from suffix(3) [OF this] show "\<exists>d'. Inr (d', a) \<in> set inbox \<and> d = take recv_buffer d'" using k(1) pre by fastforce
qed

lemma recv_from_triple:
  "triple (talk env c inbox out r) (hs_recv_from c timeout)
    (\<lambda>(d, a) s. talk env c inbox out r s \<and> (\<exists>d'. Inr (d', a) \<in> set inbox \<and> d = take recv_buffer d')) (talk env c inbox out r)"
  unfolding hs_recv_from_def
proof (rule triple_call_env [where env = env])
  fix t
  have "triple (talk env c inbox out r) (hs_client c (\<lambda>cl. net_result (UDP_RecvFrom (env_now env t) cl timeout)))
     (\<lambda>x s. hs_env s = env \<and> talking inbox out r (hs_clients s c) \<and> (\<exists>d'. Inr (d', snd x) \<in> set inbox \<and> fst x = take recv_buffer d'))
     (talk env c inbox out r)"
  proof (rule client_triple)
    fix cl assume cl: "talking inbox out r cl"
    obtain x cl' where x: "UDP_RecvFrom (env_now env t) cl timeout = (x, cl')" by fastforce
    show "case net_result (UDP_RecvFrom (env_now env t) cl timeout) of
        (Inr x, cl') \<Rightarrow> talking inbox out r cl' \<and> (\<exists>d'. Inr (d', snd x) \<in> set inbox \<and> fst x = take recv_buffer d')
      | (Inl e, cl') \<Rightarrow> talking inbox out r cl'"
      using RecvFrom_talking [OF cl x] x by (cases x) auto
  qed
  then show "triple (talk env c inbox out r) (hs_client c (\<lambda>cl. net_result (UDP_RecvFrom (env_now env t) cl timeout)))
     (\<lambda>(d, a) s. talk env c inbox out r s \<and> (\<exists>d'. Inr (d', a) \<in> set inbox \<and> d = take recv_buffer d')) (talk env c inbox out r)"
    by (rule triple_mono) auto
qed simp

lemma now_triple: "triple (talk env c inbox out r) hs_now (\<lambda>_. talk env c inbox out r) E"
  unfolding hs_now_def by (rule triple_call) (auto intro!: triple_return)

lemma random_triple: "triple (talk env c inbox out r) (RandomBytes n) (\<lambda>bs s. talk env c inbox out r s \<and> length bs = n) E"
  unfolding RandomBytes_def by (rule triple_call) (auto intro!: triple_return)

lemma try_read_triple:
  assumes "\<And>e. triple (talk env c inbox out r) (k (Inl e)) Q E"
    "\<And>d. heard inbox r d \<Longrightarrow> triple (talk env c inbox out r) (k (Inr d)) Q E"
  shows "triple (talk env c inbox out r) (hs_bind (hs_try (hs_read_raw c timeout)) k) Q E"
proof (rule triple_bind)
  show "triple (talk env c inbox out r) (hs_try (hs_read_raw c timeout))
      (\<lambda>x s. talk env c inbox out r s \<and> (\<forall>d. x = Inr d \<longrightarrow> heard inbox r d)) E"
    by (rule triple_try, rule triple_mono [OF read_triple]) auto
  show "triple (\<lambda>s. talk env c inbox out r s \<and> (\<forall>d. x = Inr d \<longrightarrow> heard inbox r d)) (k x) Q E" for x
    using assms(1) [of "projl x"] assms(2) [of "projr x"] by (cases x) (auto simp: triple_def)
qed

lemma punch_wait_triple:
  "triple (talk env c inbox out r) (punch_wait c localAddr deadline)
    (\<lambda>(d, a) s. talk env c inbox out r s \<and> (\<exists>d'. Inr (d', a) \<in> set inbox \<and> d = take recv_buffer d') \<and>
      (sameUDPAddr (Some a) (Some r) \<or> sameUDPAddr (Some a) localAddr)) (talk env c inbox out r)"
proof -
  have wait: "case punch_wait c localAddr deadline s of
      (Inr (d, a), s') \<Rightarrow> talk env c inbox out r s' \<and> (\<exists>d'. Inr (d', a) \<in> set inbox \<and> d = take recv_buffer d') \<and>
        (sameUDPAddr (Some a) (Some r) \<or> sameUDPAddr (Some a) localAddr)
    | (Inl e, s') \<Rightarrow> talk env c inbox out r s'" if "talk env c inbox out r s" for s
    using that
  proof (induction c localAddr deadline s rule: punch_wait.induct)
    case (1 c localAddr deadline s)
    obtain r1 s1 where 1: "hs_now s = (r1, s1)" by fastforce
    obtain now where r1: "r1 = Inr now" using 1 by (auto simp: hs_now_def hs_call_def hs_return_def)
    obtain r2 s2 where 2: "hs_recv_from c (deadline - now) s1 = (r2, s2)" by fastforce
    have t1: "talk env c inbox out r s1" using tripleD(1) [OF now_triple "1.prems"] 1 r1 by blast
    show ?case
    proof (cases "deadline - now \<le> 0")
      case True
      then show ?thesis using t1 by (simp add: punch_wait.simps [of c localAddr deadline s] 1 r1)
    next
      case False
      show ?thesis
      proof (cases r2)
        case (Inl e)
        then have "talk env c inbox out r s2" using tripleD(2) [OF recv_from_triple t1] 2 by blast
        then show ?thesis using False Inl by (simp add: punch_wait.simps [of c localAddr deadline s] 1 r1 2)
      next
        case (Inr x)
        obtain d a where x: "x = (d, a)" by fastforce
        have t2: "talk env c inbox out r s2" "\<exists>d'. Inr (d', a) \<in> set inbox \<and> d = take recv_buffer d'"
          using tripleD(1) [OF recv_from_triple t1, of "deadline - now" x s2] 2 Inr x by simp_all
        have ra: "u_raddr (hs_clients s2 c) = Some r" using t2(1) by (simp add: talking_def)
        show ?thesis
        proof (cases "sameUDPAddr (Some a) (Some r) \<or> sameUDPAddr (Some a) localAddr")
          case True
          then show ?thesis using False t2 Inr x ra by (simp add: punch_wait.simps [of c localAddr deadline s] 1 r1 2 del: sameUDPAddr_Some)
        next
          case no: False
          have "punch_wait c localAddr deadline s = punch_wait c localAddr deadline s2"
            using False no Inr x ra by (simp add: punch_wait.simps [of c localAddr deadline s] 1 r1 2 del: sameUDPAddr_Some)
          then show ?thesis
            using "1.IH" [OF 1 [symmetric] r1 False 2 [symmetric] Inr x [symmetric]] no t2(1) ra by simp
        qed
      qed
    qed
  qed
  show ?thesis by (rule tripleI) (use wait in \<open>force simp del: sameUDPAddr_Some\<close>)+
qed

lemma loop_triples:
  "triple (talk env c inbox out r) (stun_drain c i) (\<lambda>_. talk env c inbox out r) E"
  "triple (talk env c inbox out r) (auth_wait c timeout i session)
    (\<lambda>(ok, _) s. talk env c inbox out r s \<and> (ok \<longrightarrow> (\<exists>d p. heard inbox r d \<and> ParsePacket d = Inr p \<and> accepts_auth p))) E"
  "triple (talk env c inbox out r) (final_drain c i session) (\<lambda>_. talk env c inbox out r) E"
proof -
  show "triple (talk env c inbox out r) (stun_drain c i) (\<lambda>_. talk env c inbox out r) E"
    by (induction i) (auto intro!: triple_return try_read_triple)
  show "triple (talk env c inbox out r) (auth_wait c timeout i session)
    (\<lambda>(ok, _) s. talk env c inbox out r s \<and> (ok \<longrightarrow> (\<exists>d p. heard inbox r d \<and> ParsePacket d = Inr p \<and> accepts_auth p))) E"
    by (induction i arbitrary: session) (auto simp: Let_def intro!: triple_return try_read_triple triple_sum triple_if, blast)
  show "triple (talk env c inbox out r) (final_drain c i session) (\<lambda>_. talk env c inbox out r) E"
    by (induction i arbitrary: session) (auto intro!: triple_return try_read_triple)
qed

definition answered :: "environment \<Rightarrow> string \<Rightarrow> inbox \<Rightarrow> UDPAddr \<Rightarrow> UDPAddr \<Rightarrow> byte list \<Rightarrow> bool" where
  "answered env lan inbox r addr resp \<longleftrightarrow> (\<exists>d. Inr (d, addr) \<in> set inbox \<and> resp = take recv_buffer d) \<and> 20 \<le> length resp \<and>
     (sameUDPAddr (Some addr) (Some r) \<or> (\<exists>t l. env_resolveAddr env t lan = Inr l \<and> sameUDPAddr (Some addr) (Some l)))"

definition reconnected :: "environment \<Rightarrow> UDPAddr \<Rightarrow> UDPAddr \<Rightarrow> UDPAddr \<Rightarrow> bool" where
  "reconnected env r addr r' \<longleftrightarrow> r' = r \<or> (\<exists>t. env_resolve env t (IP_String (a_IP addr)) (a_Port addr) = Inr r')"

text \<open>The datagrams of the hole punching: the request, perhaps a copy to the local address, the confirmation.\<close>

definition punched :: "environment \<Rightarrow> string \<Rightarrow> string \<Rightarrow> byte list \<Rightarrow> inbox \<Rightarrow> UDPAddr \<Rightarrow> UDPAddr \<Rightarrow> (byte list \<times> UDPAddr) list \<Rightarrow> bool" where
  "punched env pub lan cid inbox r r' sent \<longleftrightarrow>
     (\<exists>enc cookie transID resp addr copy. ipToBytes pub = Inr enc \<and> length cookie = 4 \<and> length transID = 12 \<and>
        answered env lan inbox r addr resp \<and> reconnected env r addr r' \<and>
        (let request = stun_request cookie transID (map NOT cid) enc in
           (copy = [] \<or> (\<exists>t l. env_resolveAddr env t lan = Inr l \<and> copy = [(request, l)])) \<and>
           sent = [(request, r)] @ copy @ [(stun_confirm cookie (take 12 (drop 8 resp)) (map NOT cid), r')]))"

lemma local_triple:
  "triple (talk env c inbox out r)
     (if lan \<noteq> pub \<and> lan \<noteq> [] then
        hs_call (\<lambda>env t.
          case env_resolveAddr env t lan of
            Inl _ \<Rightarrow> hs_return None
          | Inr localAddr \<Rightarrow> hs_bind (hs_try (hs_send_to c data localAddr)) (\<lambda>_. hs_return (Some localAddr)))
      else hs_return None)
     (\<lambda>v s. (\<exists>copy. (copy = [] \<or> (\<exists>t l. env_resolveAddr env t lan = Inr l \<and> copy = [(data, l)])) \<and> talk env c inbox (out @ copy) r s) \<and>
        (\<forall>l. v = Some l \<longrightarrow> (\<exists>t. env_resolveAddr env t lan = Inr l))) E"
proof -
  have send: "triple (talk env c inbox out r) (hs_try (hs_send_to c data l)) (\<lambda>_ s. \<exists>copy \<in> {[], [(data, l)]}. talk env c inbox (out @ copy) r s) E" for l
    by (rule triple_try, rule triple_mono [OF send_to_triple]) auto
  let ?Q = "\<lambda>v s. (\<exists>copy. (copy = [] \<or> (\<exists>t l. env_resolveAddr env t lan = Inr l \<and> copy = [(data, l)])) \<and> talk env c inbox (out @ copy) r s) \<and>
        (\<forall>l. v = Some l \<longrightarrow> (\<exists>t. env_resolveAddr env t lan = Inr l))"
  have none: "triple (talk env c inbox out r) (hs_return None) ?Q E" by (rule triple_return) auto
  have some: "triple (talk env c inbox out r) (hs_bind (hs_try (hs_send_to c data l)) (\<lambda>_. hs_return (Some l))) ?Q E"
    if "env_resolveAddr env t lan = Inr l" for t l
    by (rule triple_bind [OF send], rule triple_return) (use that in blast)
  show ?thesis
    by (rule triple_if, rule triple_call_env [where env = env], simp, rule triple_sum) (rule none some | assumption)+
qed

lemma send_any: "triple (talk env c inbox out r) (hs_send c data) (\<lambda>_. talk env c inbox (out @ [(data, r)]) r) (\<lambda>_. True)"
  by (rule triple_mono [OF send_triple]) simp_all

lemma punch_confirm_triple:
  assumes "20 \<le> length resp \<Longrightarrow> answered env lan inbox r addr resp"
  shows "triple (talk env c inbox out r) (punch_confirm c cookie icid resp addr)
    (\<lambda>_ s. \<exists>r'. (answered env lan inbox r addr resp \<and> reconnected env r addr r') \<and>
       talk env c inbox (out @ [(stun_confirm cookie (take 12 (drop 8 resp)) icid, r')]) r' s) (\<lambda>_. True)"
proof -
  have conn: "triple (talk env c inbox out r) (hs_try (hs_connect c (IP_String (a_IP addr)) (a_Port addr)))
      (\<lambda>_ s. \<exists>r'. reconnected env r addr r' \<and> talk env c inbox out r' s) (\<lambda>_. True)"
    by (rule triple_try, rule triple_mono [OF connect_triple]) (auto simp: reconnected_def)
  show ?thesis
    unfolding punch_confirm_def
    by (rule triple_bind [OF conn], rule triple_ex, rule triple_if, simp add: triple_fail)
      (rule triple_bind [OF send_any], rule triple_mono [OF loop_triples(1)], use assms in auto)
qed

lemma punch_hole_triple:
  "triple (talk env c inbox out r) (punch_hole c cid pub lan)
    (\<lambda>_ s. \<exists>r' sent. punched env pub lan cid inbox r r' sent \<and> talk env c inbox (out @ sent) r' s) (\<lambda>_. True)"
proof -
  let ?inv = "map NOT cid"
  let ?Q = "\<lambda>_ s. \<exists>r' sent. punched env pub lan cid inbox r r' sent \<and> talk env c inbox (out @ sent) r' s"
  have confirm: "triple (talk env c inbox (out @ [(stun_request cookie transID ?inv enc, r)] @ copy) r)
      (punch_confirm c cookie ?inv resp addr) ?Q (\<lambda>_. True)"
    if h: "length cookie = 4" "length transID = 12" "ipToBytes pub = Inr enc"
      "copy = [] \<or> (\<exists>t l. env_resolveAddr env t lan = Inr l \<and> copy = [(stun_request cookie transID ?inv enc, l)])"
      "\<And>l. localAddr = Some l \<Longrightarrow> \<exists>t. env_resolveAddr env t lan = Inr l"
      "\<exists>d. Inr (d, addr) \<in> set inbox \<and> resp = take recv_buffer d"
      "sameUDPAddr (Some addr) (Some r) \<or> sameUDPAddr (Some addr) localAddr" for cookie transID enc copy localAddr resp addr
  proof -
    have "sameUDPAddr (Some addr) (Some r) \<or> (\<exists>t l. env_resolveAddr env t lan = Inr l \<and> sameUDPAddr (Some addr) (Some l))"
      using h(5,7) by (cases localAddr) auto
    then have an: "answered env lan inbox r addr resp" if "20 \<le> length resp" using that h(6) unfolding answered_def by blast
    show ?thesis
    proof (rule triple_mono [OF punch_confirm_triple [OF an]])
      fix x s
      assume "\<exists>r'. (answered env lan inbox r addr resp \<and> reconnected env r addr r') \<and>
        talk env c inbox ((out @ [(stun_request cookie transID ?inv enc, r)] @ copy) @ [(stun_confirm cookie (take 12 (drop 8 resp)) ?inv, r')]) r' s"
      then obtain r' where r': "answered env lan inbox r addr resp" "reconnected env r addr r'"
        "talk env c inbox (out @ [(stun_request cookie transID ?inv enc, r)] @ copy @ [(stun_confirm cookie (take 12 (drop 8 resp)) ?inv, r')]) r' s" by auto
      have "punched env pub lan cid inbox r r' ([(stun_request cookie transID ?inv enc, r)] @ copy @ [(stun_confirm cookie (take 12 (drop 8 resp)) ?inv, r')])"
        unfolding punched_def Let_def using h(1-4) r'(1,2) by blast
      then show "?Q x s" using r'(3) by blast
    qed simp_all
  qed
  have wait: "triple (talk env c inbox out r) (punch_wait c localAddr deadline)
    (\<lambda>(d, a) s. talk env c inbox out r s \<and> ((\<exists>d'. Inr (d', a) \<in> set inbox \<and> d = take recv_buffer d') \<and>
      (sameUDPAddr (Some a) (Some r) \<or> sameUDPAddr (Some a) localAddr))) (\<lambda>_. True)" for out localAddr deadline
    by (rule triple_mono [OF punch_wait_triple]) auto
  show ?thesis
    unfolding punch_hole_def Let_def
    apply (rule triple_bind [OF random_triple], rule triple_conj)
    apply (rule triple_bind [OF random_triple], rule triple_conj)
    apply (rule triple_bind [OF triple_lift [where Q = "\<lambda>enc s. talk env c inbox out r s \<and> ipToBytes pub = Inr enc"]], simp, simp, rule triple_conj)
    apply (rule triple_bind [OF send_any])
    apply (rule triple_bind [OF local_triple], rule triple_conj)
    apply (rule triple_ex)
    apply (rule triple_bind [OF now_triple])
    apply (rule triple_bind_pair [OF wait], rule triple_conj)
    apply (subst append_assoc, elim conjE)
    apply (rule confirm)
    by auto
qed

lemma authenticate_triple:
  "triple (talk env c inbox out r) (authenticate c sign timeout)
    (\<lambda>_ s. \<exists>sync auth ack. talk env c inbox (out @ [(Packet_Serialize sync, r), (Packet_Serialize auth, r), (Packet_Serialize ack, r)]) r s \<and>
       p_Body sync = NewSyncBody \<and> p_Body auth = NewCommandBody (command 0x19 @ sign) \<and> p_Body ack = NewCommandBody (command 0x1b) \<and>
       (\<exists>d p. heard inbox r d \<and> ParsePacket d = Inr p \<and> b_Type (p_Body p) = BodyTypeSync) \<and>
       (\<exists>d p. heard inbox r d \<and> ParsePacket d = Inr p \<and> accepts_auth p)) (\<lambda>_. True)"
proof -
  have body: "p_Body (fst (Session_Send session b)) = b" for session b by (simp add: Session_Send_def NewPacket_def Let_def)
  have read: "triple (talk env c inbox out r) (hs_read_raw c timeout) (\<lambda>d s. talk env c inbox out r s \<and> heard inbox r d) (\<lambda>_. True)" for out
    by (rule triple_mono [OF read_triple]) simp_all
  have wait: "triple (talk env c inbox out r) (auth_wait c timeout 5 session)
    (\<lambda>(ok, _) s. talk env c inbox out r s \<and> (ok \<longrightarrow> (\<exists>d p. heard inbox r d \<and> ParsePacket d = Inr p \<and> accepts_auth p))) (\<lambda>_. True)" for out session
    by (rule loop_triples(2))
  have fin: "\<exists>sync auth ack. talk env c inbox (out @ [(Packet_Serialize sync, r), (Packet_Serialize auth, r), (Packet_Serialize ack, r)]) r s \<and>
       p_Body sync = NewSyncBody \<and> p_Body auth = NewCommandBody (command 0x19 @ sign) \<and> p_Body ack = NewCommandBody (command 0x1b) \<and>
       (\<exists>d p. heard inbox r d \<and> ParsePacket d = Inr p \<and> b_Type (p_Body p) = BodyTypeSync) \<and>
       (\<exists>d p. heard inbox r d \<and> ParsePacket d = Inr p \<and> accepts_auth p)"
    if "heard inbox r d" "ParsePacket d = Inr p" "\<not> b_Type (p_Body p) \<noteq> BodyTypeSync"
      "fst x \<longrightarrow> (\<exists>d p. heard inbox r d \<and> ParsePacket d = Inr p \<and> accepts_auth p)" "\<not> \<not> fst x"
      "talk env c inbox (((out @ [(Packet_Serialize (fst (Session_Send s1 NewSyncBody)), r)]) @
         [(Packet_Serialize (fst (Session_Send s2 (NewCommandBody (command 0x19 @ sign)))), r)]) @
         [(Packet_Serialize (fst (Session_Send s3 (NewCommandBody (command 0x1b)))), r)]) r s"
    for d p s s1 s2 s3 and x :: "bool \<times> Session"
    by (rule exI [of _ "fst (Session_Send s1 NewSyncBody)"], rule exI [of _ "fst (Session_Send s2 (NewCommandBody (command 0x19 @ sign)))"],
        rule exI [of _ "fst (Session_Send s3 (NewCommandBody (command 0x1b)))"])
      (use that body in auto)
  show ?thesis
    unfolding authenticate_def Let_def case_prod_unfold
    apply (rule triple_bind [OF send_any])
    apply (rule triple_bind [OF read], rule triple_conj)
    apply (rule triple_sum, rule triple_fail, rule TrueI)
    apply (rule triple_if, rule triple_fail, rule TrueI)
    apply (rule triple_bind [OF send_any])
    apply (rule triple_bind [OF wait [unfolded case_prod_unfold]], rule triple_conj)
    apply (rule triple_if, rule triple_fail, rule TrueI)
    apply (rule triple_bind [OF send_any])
    by (rule try_read_triple; rule triple_mono [OF loop_triples(3)], assumption) (erule (5) fin | rule TrueI)+
qed

section \<open>A device that answers\<close>

text \<open>
  \<open>ready env c dev xs\<close>: the client is connected to \<open>dev\<close>, writes succeed and the reads to come are \<open>xs\<close>.
  A triple whose error state is \<open>False\<close> says that the step succeeds.
\<close>

definition ready_client :: "UDPAddr \<Rightarrow> inbox \<Rightarrow> UDPClient \<Rightarrow> bool" where
  "ready_client dev xs cl \<longleftrightarrow> u_raddr cl = Some dev \<and> k_open (u_conn cl) \<and> k_wfaults (u_conn cl) = [] \<and> k_in (u_conn cl) = xs"

abbreviation ready :: "environment \<Rightarrow> nat \<Rightarrow> UDPAddr \<Rightarrow> inbox \<Rightarrow> hs_state \<Rightarrow> bool" where
  "ready env c dev xs s \<equiv> hs_env s = env \<and> ready_client dev xs (hs_clients s c)"

lemma succeeds:
  assumes "\<And>cl. P cl \<Longrightarrow> \<exists>x cl'. f cl = (Inr x, cl') \<and> Q x cl'"
  shows "triple (\<lambda>s. hs_env s = env \<and> P (hs_clients s c)) (hs_client c f) (\<lambda>x s. hs_env s = env \<and> Q x (hs_clients s c)) (\<lambda>_. False)"
proof (rule triple_mono [OF client_triple [where E = "\<lambda>_. False"]])
  fix cl assume "P cl"
  from assms [OF this] show "case f cl of (Inl e, cl') \<Rightarrow> False | (Inr x, cl') \<Rightarrow> Q x cl'" by auto
qed auto

lemma triple_succeeds: "triple P m Q (\<lambda>_. False) \<Longrightarrow> P s \<Longrightarrow> \<exists>x s'. m s = (Inr x, s') \<and> Q x s'"
  by (cases "m s"; cases "fst (m s)") (auto dest: tripleD)

lemma ready_send: "triple (ready env c dev xs) (hs_send c data) (\<lambda>_. ready env c dev xs) (\<lambda>_. False)"
  unfolding hs_send_def by (rule succeeds) (auto simp: ready_client_def UDP_Send_def WriteToUDP_def)

lemma ready_read:
  assumes "length d \<le> recv_buffer"
  shows "triple (ready env c dev (Inr (d, dev) # xs)) (hs_read_raw c t) (\<lambda>d' s. ready env c dev xs s \<and> d' = d) (\<lambda>_. False)"
  unfolding hs_read_raw_def
  by (rule triple_call_env, simp)
    (use assms in \<open>auto intro!: triple_mono [OF succeeds [where P = "ready_client dev (Inr (d, dev) # xs)" and Q = "\<lambda>d' cl. d' = d \<and> ready_client dev xs cl"]]
      simp: ready_client_def UDP_ReadRaw_def UDP_Recv_def SetReadDeadline_def recv_loop_scan\<close>)

lemma ready_read_error:
  "triple (ready env c dev (Inl e # xs)) (hs_try (hs_read_raw c t)) (\<lambda>r s. ready env c dev xs s \<and> r = Inl (ErrNet e)) (\<lambda>_. False)"
  "triple (ready env c dev []) (hs_try (hs_read_raw c t)) (\<lambda>r s. ready env c dev [] s \<and> r = Inl (ErrNet NetTimeout)) (\<lambda>_. False)"
  by (auto simp: triple_def hs_try_def hs_read_raw_def hs_call_def hs_client_def ready_client_def UDP_ReadRaw_def UDP_Recv_def
      SetReadDeadline_def recv_loop_scan)

lemma ready_try:
  assumes "length d \<le> recv_buffer"
  shows "triple (ready env c dev (Inr (d, dev) # xs)) (hs_try (hs_read_raw c t)) (\<lambda>r s. ready env c dev xs s \<and> r = Inr d) (\<lambda>_. False)"
  by (rule triple_try) (rule triple_mono [OF ready_read [OF assms]]; simp)

lemma ready_punch_wait:
  assumes "\<And>t. env_now env t = now" "now < deadline" "length d \<le> recv_buffer"
  shows "triple (ready env c dev (Inr (d, dev) # xs)) (punch_wait c l deadline) (\<lambda>r s. ready env c dev xs s \<and> r = (d, dev)) (\<lambda>_. False)"
  using assms
  by (auto simp: triple_def punch_wait.simps hs_now_def hs_return_def hs_recv_from_def hs_call_def hs_client_def ready_client_def UDP_RecvFrom_def
      SetReadDeadline_def ReadFromUDP_def)

lemma ready_connect:
  assumes "\<And>t. env_resolve env t host port = Inr dev"
  shows "triple (ready env c dev xs) (hs_try (hs_connect c host port)) (\<lambda>r. ready env c dev xs) (\<lambda>_. False)"
  using assms by (auto simp: triple_def hs_try_def hs_connect_def hs_call_def hs_client_def ready_client_def UDP_Connect_def)

lemma ready_random: "triple (ready env c dev xs) (RandomBytes n) (\<lambda>r. ready env c dev xs) (\<lambda>_. False)"
  by (auto simp: triple_def RandomBytes_def hs_call_def hs_return_def)

lemma ready_now: 
  assumes "\<And>t. env_now env t = now"
  shows "triple (ready env c dev xs) hs_now (\<lambda>r s. ready env c dev xs s \<and> r = now) (\<lambda>_. False)"
  using assms by (auto simp: triple_def hs_now_def hs_call_def hs_return_def)

text \<open>A device that answers the punch, the SYNC and the sign is accepted.\<close>

lemma ready_auth:
  assumes "length d1 \<le> recv_buffer" "length d2 \<le> recv_buffer" "ParsePacket d1 = Inr p1" "ParsePacket d2 = Inr p2"
    "b_Type (p_Body p1) = BodyTypeSync" "accepts_auth p2"
  shows "triple (ready env c dev [Inr (d1, dev), Inr (d2, dev)]) (authenticate c sign timeout) (\<lambda>_ _. True) (\<lambda>_. False)"
proof -
  have wait: "triple (ready env c dev [Inr (d2, dev)]) (auth_wait c timeout 5 session) (\<lambda>r s. ready env c dev [] s \<and> fst r) (\<lambda>_. False)" for session
    unfolding eval_nat_numeral auth_wait.simps
    by (rule triple_bind [OF ready_try [OF assms(2)]], rule triple_conj) (simp add: assms triple_return Let_def)
  have drain: "triple (ready env c dev []) (final_drain c 3 session) (\<lambda>_ _. True) (\<lambda>_. False)" for session
    unfolding eval_nat_numeral final_drain.simps
    by (rule triple_bind [OF ready_read_error(2)], rule triple_conj) (simp add: triple_return)
  show ?thesis
    unfolding authenticate_def Let_def case_prod_unfold
    apply (rule triple_bind [OF ready_send])
    apply (rule triple_bind [OF ready_read [OF assms(1)]], rule triple_conj)
    apply (simp only: assms sum.case not_True_eq_False if_False simp_thms)
    apply (rule triple_bind [OF ready_send])
    apply (rule triple_bind [OF wait], rule triple_conj)
    apply (simp only: simp_thms if_False)
    apply (rule triple_bind [OF ready_send])
    apply (rule triple_bind [OF ready_read_error(2)], rule triple_conj)
    by (rule drain)
qed

lemma ready_punch:
  assumes "\<And>t. env_now env t = now" "\<And>t host port. env_resolve env t host port = Inr dev" "ipToBytes pub = Inr b"
    "20 \<le> length d" "length d \<le> recv_buffer"
  shows "triple (ready env c dev (Inr (d, dev) # Inl e # xs)) (punch_hole c cid pub []) (\<lambda>_. ready env c dev xs) (\<lambda>_. False)"
proof -
  have drain: "triple (ready env c dev (Inl e # xs)) (stun_drain c 5) (\<lambda>_. ready env c dev xs) (\<lambda>_. False)"
    unfolding eval_nat_numeral stun_drain.simps
    by (rule triple_bind [OF ready_read_error(1)], rule triple_conj) (simp add: triple_return)
  have confirm: "triple (ready env c dev (Inl e # xs)) (punch_confirm c cookie ic d dev) (\<lambda>_. ready env c dev xs) (\<lambda>_. False)" for cookie ic
    unfolding punch_confirm_def
    by (rule triple_bind [OF ready_connect [OF assms(2)]]) (use assms(4) in \<open>auto intro: triple_bind [OF ready_send] drain\<close>)
  have wait: "triple (ready env c dev (Inr (d, dev) # Inl e # xs)) (punch_wait c None (now + 8 * second))
      (\<lambda>r s. ready env c dev (Inl e # xs) s \<and> r = (d, dev)) (\<lambda>_. False)"
    by (rule ready_punch_wait [OF assms(1) _ assms(5)]) simp
  have lift: "triple (ready env c dev ys) (hs_lift (ipToBytes pub)) (\<lambda>r s. ready env c dev ys s \<and> r = b) (\<lambda>_. False)" for ys
    by (simp add: triple_def hs_lift_def assms(3))
  have none: "triple (ready env c dev ys) (hs_return None) (\<lambda>r s. ready env c dev ys s \<and> r = None) (\<lambda>_. False)" for ys
    by (simp add: triple_return)
  show ?thesis
    unfolding punch_hole_def Let_def
    apply (rule triple_bind [OF ready_random])
    apply (rule triple_bind [OF ready_random])
    apply (rule triple_bind [OF lift], rule triple_conj)
    apply (rule triple_bind [OF ready_send])
    apply (simp only: simp_thms if_False)
    apply (rule triple_bind [OF none], rule triple_conj)
    apply (rule triple_bind [OF ready_now [OF assms(1)]], rule triple_conj)
    apply (simp only:)
    apply (rule triple_bind [OF wait], rule triple_conj)
    by (simp only: prod.case, rule confirm)
qed

section \<open>Properties\<close>

text \<open>
  (C15) No socket leaks: whatever the cloud, the device and the network do, a handshake that fails has
  closed every socket it opened, and one that succeeds has closed all of them but the one it
  returns, which is open. \<open>listens_open\<close> says that a socket the system hands out is open.
\<close>

theorem handshake_releases_sockets:
  assumes "listens_open (hs_env s)" "Handshake opts s = (r, s')" "hs_next s \<le> c" "c < hs_next s'"
  shows "k_open (u_conn (hs_clients s' c)) \<longleftrightarrow> (\<exists>res. r = Inr res \<and> hr_Client res = c)"
proof -
  let ?s = "s\<lparr>hs_main := None, hs_p2p := None, hs_device := None\<rparr>"
  let ?o = "if ho_Timeout opts = 0 then opts\<lparr>ho_Timeout := DefaultTimeout\<rparr> else opts"
  obtain r1 s1 where 1: "handshake_steps ?o ?s = (r1, s1)" by fastforce
  have own: "owned (hs_env s) (hs_next s) (None, None, None) ?s" by (auto simp: owned.simps)
  note t = tripleD [OF handshake_triple [OF assms(1), where opts = ?o] own]
  have "Handshake opts s = (r1, case r1 of Inl _ \<Rightarrow> cleanup s1 | Inr _ \<Rightarrow> s1)"
    unfolding Handshake_def Let_def 1 prod.case ..
  then have r: "r1 = r" "s' = (case r of Inl _ \<Rightarrow> cleanup s1 | Inr _ \<Rightarrow> s1)" using assms(2) by simp_all
  show ?thesis
  proof (cases r)
    case (Inl e)
    then have "owned_some (hs_env s) (hs_next s) s1" using t(2) 1 r(1) by blast
    note cl = cleanup_closes [OF this]
    have s': "s' = cleanup s1" using r(2) Inl by simp
    then have "\<not> socket_open s' c" using cl(1) [OF assms(3)] cl(2) assms(4) by simp
    then show ?thesis using Inl by (simp add: socket_open_def)
  next
    case (Inr res)
    then have s': "s' = s1" using r(2) by simp
    have "\<forall>c. c = hr_Client res \<longleftrightarrow> hs_next s \<le> c \<and> c < hs_next s1 \<and> socket_open s1 c" using t(1) 1 r(1) Inr by blast
    then have "c = hr_Client res \<longleftrightarrow> socket_open s1 c" using assms(3,4) s' by blast
    then show ?thesis using Inr s' by (auto simp: socket_open_def)
  qed
qed

theorem handshake_releases_sockets_witness:
  "\<exists>s s' e. Handshake \<lparr>ho_Serial = ''7A03'', ho_Timeout = 0, ho_DeviceUsername = [], ho_DevicePassword = [], ho_P2PPort = 0\<rparr> s =
       (Inl e, s') \<and> hs_next s = 0 \<and> hs_next s' = 1 \<and> \<not> k_open (u_conn (hs_clients s' 0))"
proof -
  define k where "k = \<lparr>k_open = True, k_out = [], k_wfaults = [], k_in = [], k_rdeadline = None, k_wdeadline = None\<rparr>"
  define env where "env = \<lparr>env_prims = undefined, env_now = (\<lambda>_. 0), env_random = (\<lambda>_ _. 0),
    env_listen = (\<lambda>_. Inr (k, \<lparr>a_IP = [0, 0, 0, 0], a_Port = 40000\<rparr>)),
    env_resolve = (\<lambda>_ _ _. Inl (NetOther ''no such host'')), env_resolveAddr = (\<lambda>_ _. Inl (NetOther ''no such host''))\<rparr>"
  define s where "s = \<lparr>hs_env = env, hs_tick = 0, hs_clients = (\<lambda>_. undefined), hs_next = 0, hs_main = None, hs_p2p = None, hs_device = None\<rparr>"
  let ?opts = "\<lparr>ho_Serial = ''7A03'', ho_Timeout = 0, ho_DeviceUsername = [], ho_DevicePassword = [], ho_P2PPort = 0\<rparr>"
  have l: "listens_open (hs_env s)" by (simp add: listens_open_def s_def env_def k_def)
  obtain s' where s': "Handshake ?opts s = (Inl (ErrNet (NetOther ''no such host'')), s')" "hs_next s' = 1"
    by (simp add: Handshake_def handshake_steps_def find_p2psrv_def hs_bind_def hs_open_def hs_call_def hs_connect_def hs_client_def
        UDP_Connect_def NewUDPClientPort_def cleanup_def close_opt_def close_socket_def s_def env_def Let_def)
  have "hs_next s \<le> 0" "0 < hs_next s'" using s'(2) by (simp_all add: s_def)
  from handshake_releases_sockets [OF l s'(1) this] s' show ?thesis
    by (intro exI [of _ s] exI [of _ s']) (simp add: s_def)
qed

text \<open>
  (C16) A direct connection is authenticated: when the handshake with the device succeeds, the
  datagrams it wrote are the hole-punching request to the public address, perhaps a copy to the
  local one, the confirmation, a SYNC, the command with the sign and the final acknowledgement, in
  this order and nothing else, the last four to the address the client is now connected to. The
  request was answered from the public or the local address, and the new peer sent both a SYNC and
  the command that accepts the sign.
\<close>

theorem direct_connection_authenticated:
  assumes "performDirectHandshake c cid pub lan sign timeout s = (Inr session, s')" "u_raddr (hs_clients s c) = Some r"
  defines "inbox \<equiv> k_in (u_conn (hs_clients s c))"
  shows "\<exists>r' sent sync auth ack. punched (hs_env s) pub lan cid inbox r r' sent \<and> u_raddr (hs_clients s' c) = Some r' \<and>
    k_out (u_conn (hs_clients s' c)) = k_out (u_conn (hs_clients s c)) @ sent @
      [(Packet_Serialize sync, r'), (Packet_Serialize auth, r'), (Packet_Serialize ack, r')] \<and>
    p_Body sync = NewSyncBody \<and> p_Body auth = NewCommandBody (command 0x19 @ sign) \<and> p_Body ack = NewCommandBody (command 0x1b) \<and>
    (\<exists>d p. heard inbox r' d \<and> ParsePacket d = Inr p \<and> b_Type (p_Body p) = BodyTypeSync) \<and>
    (\<exists>d p. heard inbox r' d \<and> ParsePacket d = Inr p \<and> accepts_auth p)"
proof -
  let ?env = "hs_env s" and ?out = "k_out (u_conn (hs_clients s c))"
  obtain r1 s1 where 1: "punch_hole c cid pub lan s = (r1, s1)" by fastforce
  then obtain x where r1: "r1 = Inr x" "authenticate c sign timeout s1 = (Inr session, s')"
    using assms(1) by (cases r1) (simp_all add: performDirectHandshake_def hs_bind_def)
  have "talk ?env c inbox ?out r s" using assms(2) by (simp add: talking_def inbox_def)
  from tripleD(1) [OF punch_hole_triple this] 1 r1(1)
  obtain r' sent where p: "punched ?env pub lan cid inbox r r' sent" "talk ?env c inbox (?out @ sent) r' s1" by blast
  from tripleD(1) [OF authenticate_triple p(2) r1(2)]
  obtain sync auth ack where a: "talk ?env c inbox ((?out @ sent) @ [(Packet_Serialize sync, r'), (Packet_Serialize auth, r'), (Packet_Serialize ack, r')]) r' s'"
    "p_Body sync = NewSyncBody" "p_Body auth = NewCommandBody (command 0x19 @ sign)" "p_Body ack = NewCommandBody (command 0x1b)"
    "\<exists>d p. heard inbox r' d \<and> ParsePacket d = Inr p \<and> b_Type (p_Body p) = BodyTypeSync"
    "\<exists>d p. heard inbox r' d \<and> ParsePacket d = Inr p \<and> accepts_auth p" by blast
  from a(1) have "k_out (u_conn (hs_clients s' c)) = ?out @ sent @ [(Packet_Serialize sync, r'), (Packet_Serialize auth, r'), (Packet_Serialize ack, r')]"
    "u_raddr (hs_clients s' c) = Some r'" by (simp_all add: talking_def)
  with p(1) a(2-6) show ?thesis by blast
qed

theorem direct_connection_authenticated_witness:
  "\<exists>s s' session sync auth. performDirectHandshake 0 [1, 2] (dotted [10, 0, 0, 1] @ '':'' @ int_str 5000) [] [7] second s = (Inr session, s') \<and>
     p_Body sync = NewSyncBody \<and> p_Body auth = NewCommandBody (command 0x19 @ [7]) \<and>
     Packet_Serialize sync \<in> fst ` set (k_out (u_conn (hs_clients s' 0))) \<and>
     Packet_Serialize auth \<in> fst ` set (k_out (u_conn (hs_clients s' 0)))"
proof -
  let ?pub = "dotted [10, 0, 0, 1] @ '':'' @ int_str 5000"
  define dev :: UDPAddr where "dev = \<lparr>a_IP = [10, 0, 0, 1], a_Port = 5000\<rparr>"
  define p1 where "p1 = fst (Session_Send NewSession NewSyncBody)"
  define p2 where "p2 = fst (Session_Send NewSession (NewCommandBody [0x1A, 0, 0, 0]))"
  have b: "p_Body p1 = NewSyncBody" "p_Body p2 = NewCommandBody [0x1A, 0, 0, 0]"
    by (simp_all add: p1_def p2_def Session_Send_def NewPacket_def Let_def)
  have parse: "ParsePacket (Packet_Serialize p1) = Inr p1" "ParsePacket (Packet_Serialize p2) = Inr p2"
    by (rule ptcp.parse_ser; simp add: b TypeSync_def TypePayload_def TypeBind_def TypeStatus_def TypeHeartbeat_def)+
  have len: "length (Packet_Serialize p1) \<le> recv_buffer" "length (Packet_Serialize p2) \<le> recv_buffer"
    by (simp_all add: Packet_Serialize_layout length_Body_Serialize HeaderSize_def recv_buffer_def b Body_Len_def NewCommandBody_def zero_Body_def)
  define inbox :: inbox where "inbox = [Inr (replicate 20 0, dev), Inl NetTimeout, Inr (Packet_Serialize p1, dev), Inr (Packet_Serialize p2, dev)]"
  define env where "env = \<lparr>env_prims = undefined, env_now = (\<lambda>_. 0), env_random = (\<lambda>_ _. 0), env_listen = (\<lambda>_. Inl NetClosed),
    env_resolve = (\<lambda>_ _ _. Inr dev), env_resolveAddr = (\<lambda>_ _. Inl NetClosed)\<rparr>"
  define k where "k = \<lparr>k_open = True, k_out = [], k_wfaults = [], k_in = inbox, k_rdeadline = None, k_wdeadline = None\<rparr>"
  define s where "s = \<lparr>hs_env = env, hs_tick = 0,
    hs_clients = (\<lambda>_. \<lparr>u_conn = k, u_laddr = dev, u_raddr = Some dev, u_timeout = second, u_cseq = 0\<rparr>),
    hs_next = 1, hs_main = None, hs_p2p = None, hs_device = Some 0\<rparr>"
  have "triple (ready env 0 dev inbox) (performDirectHandshake 0 [1, 2] ?pub [] [7] second) (\<lambda>_ _. True) (\<lambda>_. False)"
    unfolding performDirectHandshake_def inbox_def
    by (rule triple_bind [OF ready_punch [OF _ _ ipToBytes_dotted] ready_auth [OF len parse]])
      (simp_all add: env_def recv_buffer_def b accepts_auth_def NewCommandBody_def zero_Body_def)
  from triple_succeeds [OF this, of s] obtain session s' where run: "performDirectHandshake 0 [1, 2] ?pub [] [7] second s = (Inr session, s')"
    by (auto simp: s_def k_def ready_client_def)
  have "u_raddr (hs_clients s 0) = Some dev" by (simp add: s_def)
  from direct_connection_authenticated [OF run this] show ?thesis using run by (fastforce intro: rev_image_eqI)
qed

end
