(* ===== verification/Spec2Isabelle.thy ===== *)
theory Spec2Isabelle
  imports Session_Pool Tunnel_Retirement Handshake_Safety
begin

text \<open>
  A model of the Dahua P2P library: the PTCP packet codec (\<open>Ptcp_Types\<close>) and session counters
  (\<open>Ptcp_Session\<close>), the UDP client (\<open>Dh_Udp\<close>) and the tunnel (\<open>Tunnel_State\<close>, \<open>Tunnel_Reader\<close>,
  \<open>Tunnel_Delivery\<close>, \<open>Tunnel_Liveness\<close>, \<open>Tunnel_Conn\<close>, \<open>Tunnel_Stream\<close>).
\<close>

section \<open>From one end to the other\<close>

lemma realm_lookup_cong: "tn_realms t = tn_realms u \<Longrightarrow> realm_lookup t = realm_lookup u"
  by (auto simp: realm_lookup_def fun_eq_iff)

lemma payload_event:
  assumes "tunnel_inv t" "\<not> tn_closed t" "p_Body q = NewPayloadBody r f" "length f \<le> 1280"
    "realm_lookup t r = Some c" "length (c_dataCh (tn_conns t c)) < 4096"
  shows "\<exists>t'. reader_handle now (Inr (Packet_Serialize q)) t = (True, t') \<and>
    c_dataCh (tn_conns t' c) = c_dataCh (tn_conns t c) @ [f] \<and> realm_lookup t' r = Some c \<and>
    c_readBuf (tn_conns t' c) = c_readBuf (tn_conns t c) \<and> \<not> tn_closed t'"
proof -
  have "wf_body (p_Body q)" using assms(3,4) by simp
  then have parse: "ParsePacket (Packet_Serialize q) = Inr q" by (rule ptcp.parse_ser)
  define u where "u = (ackHeartbeat now (t\<lparr>tn_consecutiveReadErrs := 0\<rparr>))
    \<lparr>tn_session := snd (Session_Recv (tn_session (ackHeartbeat now (t\<lparr>tn_consecutiveReadErrs := 0\<rparr>))) q)\<rparr>"
  have u: "tn_conns u = tn_conns t" "tn_realms u = tn_realms t" "tn_closed u = tn_closed t"
    by (simp_all add: u_def ackHeartbeat_def)
  define v where "v = update_conn c (\<lambda>c. c\<lparr>c_dataCh := c_dataCh c @ [f]\<rparr>) u"
  have b: "b_Type (p_Body q) = BodyTypePayload" "b_Realm (p_Body q) = r" "b_Data (p_Body q) = f"
    by (simp_all add: assms(3) NewPayloadBody_def zero_Body_def)
  have "reader_payload now r f u = v"
    using assms(5,6) u realm_lookup_cong [OF u(2)] by (simp add: reader_payload_def v_def dataCh_capacity_def)
  then have "reader_packet now q u = scheduleACK v"
    by (simp add: reader_packet_def b)
  then have "reader_handle now (Inr (Packet_Serialize q)) t = (True, scheduleACK v)"
    by (simp add: reader_handle_def parse u_def Let_def)
  moreover have "realm_lookup (scheduleACK v) = realm_lookup t"
    using u by (intro realm_lookup_cong) (simp add: scheduleACK_def v_def)
  moreover have "\<not> tn_closed (scheduleACK v)" using u assms(2) by (simp add: scheduleACK_def v_def)
  ultimately show ?thesis using u assms(5) by (simp add: v_def)
qed

lemma payload_turn:
  assumes "tunnel_inv t" "\<not> tn_closed t" "p_Body q = NewPayloadBody r f" "length f \<le> 1280"
    "realm_lookup t r = Some c" "length (c_dataCh (tn_conns t c)) < 4096"
    "k_in (u_conn (tn_client t)) = Inr (Packet_Serialize q, a) # rest" "sameUDPAddr (Some a) (u_raddr (tn_client t))"
  shows "\<exists>t'. reader_turn now t = (True, t') \<and> tunnel_inv t' \<and>
    c_dataCh (tn_conns t' c) = c_dataCh (tn_conns t c) @ [f] \<and> realm_lookup t' r = Some c \<and>
    c_readBuf (tn_conns t' c) = c_readBuf (tn_conns t c) \<and> \<not> tn_closed t' \<and>
    k_in (u_conn (tn_client t')) = rest \<and> u_raddr (tn_client t') = u_raddr (tn_client t)"
proof -
  have op: "\<not> tn_done t" "k_open (u_conn (tn_client t))" using assms(1,2) by (simp_all add: tunnel_inv_def life_inv_def)
  have "length (Packet_Serialize q) \<le> recv_buffer"
    using assms(3,4) by (simp add: Packet_Serialize_layout length_Body_Serialize HeaderSize_def recv_buffer_def)
  then have scan: "scan_inbox (u_raddr (tn_client t)) (k_in (u_conn (tn_client t))) = (Inr (Packet_Serialize q), rest)"
    using assms(7,8) by (simp del: sameUDPAddr_Some)
  obtain res cl where r: "UDP_ReadRaw now (tn_client t) (1 * second) = (res, cl)" by fastforce
  have "0 < 1 * second" by simp
  note sc = UDP_ReadRaw_scan [OF op(2) this r, unfolded scan]
  let ?u = "t\<lparr>tn_client := cl\<rparr>"
  have u: "tunnel_inv ?u" using assms(1) sc op by (simp add: tunnel_inv_client)
  have "realm_lookup ?u = realm_lookup t" by (rule realm_lookup_cong) simp
  with payload_event [OF u, of q r f c now] assms obtain t' where
    t': "reader_handle now (Inr (Packet_Serialize q)) ?u = (True, t')"
    "c_dataCh (tn_conns t' c) = c_dataCh (tn_conns t c) @ [f]" "realm_lookup t' r = Some c"
    "c_readBuf (tn_conns t' c) = c_readBuf (tn_conns t c)" "\<not> tn_closed t'" by auto
  have "tunnel_inv t'" using reader_handle_inv [OF u, of now "Inr (Packet_Serialize q)"] t'(1) by simp
  moreover have "same_inbox ?u t'" using reader_handle_same_inbox [OF u, of now "Inr (Packet_Serialize q)"] t'(1) by simp
  moreover have "reader_turn now t = (True, t')" using op r sc t'(1) by (simp add: reader_turn_def)
  ultimately show ?thesis using t' sc by (auto simp: same_inbox_def)
qed

lemma payload_turns:
  assumes "tunnel_inv t" "\<not> tn_closed t" "map p_Body qs = map (NewPayloadBody r) fs" "\<forall>f \<in> set fs. length f \<le> 1280"
    "realm_lookup t r = Some c" "length (c_dataCh (tn_conns t c)) + length fs \<le> 4096"
    "k_in (u_conn (tn_client t)) = map (\<lambda>q. Inr (Packet_Serialize q, a)) qs" "sameUDPAddr (Some a) (u_raddr (tn_client t))"
    "length nows = length fs"
  shows "c_dataCh (tn_conns (reader nows t) c) = c_dataCh (tn_conns t c) @ fs \<and>
    c_readBuf (tn_conns (reader nows t) c) = c_readBuf (tn_conns t c) \<and> \<not> tn_closed (reader nows t)"
  using assms
proof (induction fs arbitrary: t qs nows)
  case (Cons f fs)
  obtain now nows' where nows: "nows = now # nows'" using Cons.prems(9) by (cases nows) auto
  obtain q qs' where qs: "qs = q # qs'" "p_Body q = NewPayloadBody r f" "map p_Body qs' = map (NewPayloadBody r) fs"
    using Cons.prems(3) by (cases qs) auto
  from payload_turn [OF Cons.prems(1,2) qs(2) _ Cons.prems(5) _ _ Cons.prems(8), of "map (\<lambda>q. Inr (Packet_Serialize q, a)) qs'" now]
    Cons.prems qs obtain t' where t': "reader_turn now t = (True, t')" "tunnel_inv t'"
    "c_dataCh (tn_conns t' c) = c_dataCh (tn_conns t c) @ [f]" "realm_lookup t' r = Some c"
    "c_readBuf (tn_conns t' c) = c_readBuf (tn_conns t c)" "\<not> tn_closed t'"
    "k_in (u_conn (tn_client t')) = map (\<lambda>q. Inr (Packet_Serialize q, a)) qs'"
    "u_raddr (tn_client t') = u_raddr (tn_client t)" by auto
  from Cons.IH [OF t'(2,6) qs(3) _ t'(4) _ t'(7), of nows'] Cons.prems t' nows show ?case by simp
qed simp

section \<open>Properties\<close>

text \<open>
  (C1) What is written on one end of a realm is what the other end reads: if the datagrams of a
  \<open>Write\<close> are carried to a tunnel with the same realm in the order sent, and its reader takes as
  many turns as there are datagrams, then \<open>Write\<close> returns the full length and the connection's
  pending bytes have grown by exactly the bytes written, provided its queue had room for the
  fragments.
\<close>

theorem written_bytes_arrive:
  assumes sender: "tunnel_inv s" "\<not> tn_closed s" "\<not> c_closed (tn_conns s c)" "u_raddr (tn_client s) = Some a"
      "k_wfaults (u_conn (tn_client s)) = []" "\<forall>i. \<not> deadline_passed (clock i) (c_writeDeadline (tn_conns s c))"
      "c_realmID (tn_conns s c) = r" "k_out (u_conn (tn_client s)) = []"
    and receiver: "tunnel_inv t" "realm_lookup t r = Some c'" "sameUDPAddr (Some b) (u_raddr (tn_client t))"
      "length (c_dataCh (tn_conns t c')) + length (fragments p) \<le> 4096" "length nows = length (fragments p)"
    and wire: "k_in (u_conn (tn_client t)) =
      map (\<lambda>(d, _). Inr (d, b)) (k_out (u_conn (tn_client (snd (Conn_Write clock c p s)))))"
  shows "fst (Conn_Write clock c p s) = (length p, None) \<and>
    pending c' (reader nows t) = pending c' t @ p \<and> \<not> tn_closed (reader nows t)"
proof -
  let ?qs = "fst (send_all (tn_session s) (map (NewPayloadBody r) (fragments p)))"
  have ok: "fst (write_loop clock 0 c p 0 s) = (length p, None)"
    using write_loop_ok [of s c clock 0 p 0] sender by simp
  then obtain s' where s': "write_loop clock 0 c p 0 s = ((length p, None), s')"
    by (cases "write_loop clock 0 c p 0 s") simp
  have w: "Conn_Write clock c p s = ((length p, None), s')"
    using s' sender(2,3) by (simp add: Conn_Write_def Tunnel_IsClosed_def)
  from write_loop_fragments [OF sender(1,4) s'] sender(7,8)
  have "k_out (u_conn (tn_client s')) = map (\<lambda>q. (Packet_Serialize q, a)) ?qs" by auto
  then have inbox: "k_in (u_conn (tn_client t)) = map (\<lambda>q. Inr (Packet_Serialize q, b)) ?qs"
    using wire w by simp
  have "\<not> tn_closed t" using receiver(1,2) by (auto simp: tunnel_inv_def life_inv_def realm_lookup_def)
  from payload_turns [OF receiver(1) this _ _ receiver(2) receiver(4) inbox receiver(3,5)]
  have "c_dataCh (tn_conns (reader nows t) c') = c_dataCh (tn_conns t c') @ fragments p \<and>
    c_readBuf (tn_conns (reader nows t) c') = c_readBuf (tn_conns t c') \<and> \<not> tn_closed (reader nows t)"
    using fragment_size by (simp add: send_all_bodies)
  then show ?thesis using w by (simp add: pending_def concat_fragments)
qed

theorem written_bytes_arrive_witness:
  "let out = k_out (u_conn (tn_client (snd (Conn_Write (\<lambda>_. 0) 0 [1, 2] (sample_tunnel [7])))));
       t = (sample_tunnel [9, 7])\<lparr>tn_client := sample_client
             \<lparr>u_conn := (u_conn sample_client)\<lparr>k_in := map (\<lambda>(d, _). Inr (d, sample_peer)) out\<rparr>\<rparr>\<rparr>
   in pending 1 (reader [0] t) = [1, 2]"
proof -
  define out where "out = k_out (u_conn (tn_client (snd (Conn_Write (\<lambda>_. 0) 0 [1, 2] (sample_tunnel [7])))))"
  define t where "t = (sample_tunnel [9, 7])\<lparr>tn_client := sample_client
    \<lparr>u_conn := (u_conn sample_client)\<lparr>k_in := map (\<lambda>(d, _). Inr (d, sample_peer)) out\<rparr>\<rparr>\<rparr>"
  have s: "tunnel_inv (sample_tunnel [7])" "\<not> tn_closed (sample_tunnel [7])"
    "\<not> c_closed (tn_conns (sample_tunnel [7]) 0)" "u_raddr (tn_client (sample_tunnel [7])) = Some sample_peer"
    "k_wfaults (u_conn (tn_client (sample_tunnel [7]))) = []"
    "\<forall>i. \<not> deadline_passed ((\<lambda>_. 0) i) (c_writeDeadline (tn_conns (sample_tunnel [7]) 0))"
    "c_realmID (tn_conns (sample_tunnel [7]) 0) = 7" "k_out (u_conn (tn_client (sample_tunnel [7]))) = []"
    using sample_inv [of "[7]"]
    by (simp_all add: sample_tunnel_def Tunnel_New_def sample_client_def zero_Conn_def deadline_passed_def)
  have f: "fragments [1, 2] = [[1, 2]]"
    by (subst fragments.simps, simp) (subst fragments.simps, simp)
  have "tunnel_inv t"
    using sample_inv [of "[9, 7]"] unfolding t_def
    by (subst tunnel_inv_client) (simp_all add: sample_tunnel_def Tunnel_New_def)
  moreover have "realm_lookup t 7 = Some 1" "sameUDPAddr (Some sample_peer) (u_raddr (tn_client t))"
    "c_dataCh (tn_conns t 1) = []" "c_readBuf (tn_conns t 1) = []"
    by (simp_all add: t_def realm_lookup_def sample_tunnel_def Tunnel_New_def sample_client_def zero_Conn_def upt_rec)
  ultimately show ?thesis
    using written_bytes_arrive [OF s, where t = t and c' = 1 and p = "[1, 2]" and nows = "[0]" and b = sample_peer] f
    by (simp add: t_def [symmetric] out_def [symmetric] Let_def pending_def del: reader.simps)
      (simp add: t_def out_def)
qed

end
